(* ===== verification/KPrelude.thy ===== *)
theory KPrelude
  imports Main "HOL-Library.Word"
begin

text \<open>
  Shared vocabulary of the development: the machine integer types of the kernel, the
  faults C code can run into, the state-and-fault computations every kernel routine is
  written in, bounded array access, the counting loop, and the word lemmas the
  components share.
\<close>

unbundle bit_operations_syntax

type_synonym u8 = "8 word"
type_synonym u16 = "16 word"
type_synonym u32 = "32 word"
type_synonym u64 = "64 word"

section \<open>Faults and kernel computations\<close>

text \<open>
  Every way in which a kernel routine does not return normally is a value: an access
  outside a static array, a division by zero, a call of \<^verbatim>\<open>KERN_PANIC\<close>, a failed
  \<^verbatim>\<open>KERN_ASSERT\<close>, a spin loop nobody can end, a call of \<^verbatim>\<open>thread_sleep\<close> (with the
  channel slept on), a value the C program reads without having written it, and the
  overflow of a signed integer, which C leaves undefined.
\<close>

datatype fault =
    OutOfBounds
  | DivByZero
  | KERN_PANIC string
  | KERN_ASSERT string
  | Spin
  | Sleep u32
  | Uninitialised
  | IntOverflow

type_synonym ('s, 'a) kern = "'s \<Rightarrow> fault + 'a \<times> 's"

definition kret :: "'a \<Rightarrow> ('s, 'a) kern" where
  "kret x s = Inr (x, s)"

definition kfail :: "fault \<Rightarrow> ('s, 'a) kern" where
  "kfail e s = Inl e"

definition kbind :: "('s, 'a) kern \<Rightarrow> ('a \<Rightarrow> ('s, 'b) kern) \<Rightarrow> ('s, 'b) kern" where
  "kbind m f s = (case m s of Inl e \<Rightarrow> Inl e | Inr (x, t) \<Rightarrow> f x t)"

definition kseq :: "('s, 'a) kern \<Rightarrow> ('s, 'b) kern \<Rightarrow> ('s, 'b) kern" where
  "kseq m n = kbind m (\<lambda>_. n)"

definition kgets :: "('s \<Rightarrow> 'a) \<Rightarrow> ('s, 'a) kern" where
  "kgets f s = Inr (f s, s)"

definition kmodify :: "('s \<Rightarrow> 's) \<Rightarrow> ('s, unit) kern" where
  "kmodify f s = Inr ((), f s)"

definition kguard :: "bool \<Rightarrow> fault \<Rightarrow> ('s, unit) kern" where
  "kguard b e = (if b then kret () else kfail e)"

text \<open>An array of \<open>n\<close> elements may be accessed at index \<open>i\<close>.\<close>

definition kindex :: "u32 \<Rightarrow> u32 \<Rightarrow> ('s, unit) kern" where
  "kindex n i = kguard (i < n) OutOfBounds"

lemma kret_apply [simp]: "kret x s = Inr (x, s)"
  by (simp add: kret_def)

lemma kfail_apply [simp]: "kfail e s = Inl e"
  by (simp add: kfail_def)

lemma kgets_apply [simp]: "kgets f s = Inr (f s, s)"
  by (simp add: kgets_def)

lemma kmodify_apply [simp]: "kmodify f s = Inr ((), f s)"
  by (simp add: kmodify_def)

lemma kguard_apply [simp]: "kguard b e s = (if b then Inr ((), s) else Inl e)"
  by (simp add: kguard_def)

lemma kindex_apply [simp]: "kindex n i s = (if i < n then Inr ((), s) else Inl OutOfBounds)"
  by (simp add: kindex_def)

lemma kbind_Inr [simp]: "m s = Inr (x, t) \<Longrightarrow> kbind m f s = f x t"
  by (simp add: kbind_def)

lemma kbind_Inl [simp]: "m s = Inl e \<Longrightarrow> kbind m f s = Inl e"
  by (simp add: kbind_def)

lemma kseq_Inr [simp]: "m s = Inr (x, t) \<Longrightarrow> kseq m n s = n t"
  by (simp add: kseq_def)

lemma kseq_Inl [simp]: "m s = Inl e \<Longrightarrow> kseq m n s = Inl e"
  by (simp add: kseq_def)

lemma kern_steps [simp]:
  "kbind (kret x) f s = f x s"
  "kbind (kgets g) f s = f (g s) s"
  "kseq (kret x) n s = n s"
  "kseq (kmodify h) n s = n (h s)"
  "kseq (kguard b e) n s = (if b then n s else Inl e)"
  "kseq (kindex m i) n s = (if i < m then n s else Inl OutOfBounds)"
  "kbind (kfail e) f s = Inl e"
  "kseq (kfail e) n s = Inl e"
  by simp_all

lemma kbind_eq_Inr_iff:
  "kbind m f s = Inr r \<longleftrightarrow> (\<exists>x t. m s = Inr (x, t) \<and> f x t = Inr r)"
  by (auto simp: kbind_def split: sum.splits)

lemma kseq_eq_Inr_iff:
  "kseq m n s = Inr r \<longleftrightarrow> (\<exists>x t. m s = Inr (x, t) \<and> n t = Inr r)"
  by (simp add: kseq_def kbind_eq_Inr_iff)

lemma kguard_eq_Inr_iff: "kguard b e s = Inr r \<longleftrightarrow> b \<and> r = ((), s)"
  by auto

lemma kbind_assoc: "kbind (kbind m f) g = kbind m (\<lambda>x. kbind (f x) g)"
  by (auto simp: kbind_def fun_eq_iff split: sum.splits)

lemmas kern_Inr_iffs = kbind_eq_Inr_iff kseq_eq_Inr_iff kguard_eq_Inr_iff

text \<open>
  \<open>kframe P m\<close>: whenever \<open>m\<close> returns, the start and end states are related by \<open>P\<close>.
  The rules push it through a computation; each component uses them to show which
  fields a routine leaves alone.
\<close>

definition kframe :: "('s \<Rightarrow> 's \<Rightarrow> bool) \<Rightarrow> ('s, 'a) kern \<Rightarrow> bool" where
  "kframe P m \<longleftrightarrow> (\<forall>s x t. m s = Inr (x, t) \<longrightarrow> P s t)"

named_theorems kframe_intros

lemma kframeI: "(\<And>s x t. m s = Inr (x, t) \<Longrightarrow> P s t) \<Longrightarrow> kframe P m"
  by (auto simp: kframe_def)

lemma kframeD: "kframe P m \<Longrightarrow> m s = Inr (x, t) \<Longrightarrow> P s t"
  by (auto simp: kframe_def)

lemma kframe_kret [kframe_intros]: "reflp P \<Longrightarrow> kframe P (kret x)"
  by (auto simp: kframe_def reflp_def)

lemma kframe_kgets [kframe_intros]: "reflp P \<Longrightarrow> kframe P (kgets f)"
  by (auto simp: kframe_def reflp_def)

lemma kframe_kfail [kframe_intros]: "kframe P (kfail e)"
  by (auto simp: kframe_def)

lemma kframe_kguard [kframe_intros]: "reflp P \<Longrightarrow> kframe P (kguard b e)"
  by (auto simp: kframe_def reflp_def)

lemma kframe_kindex [kframe_intros]: "reflp P \<Longrightarrow> kframe P (kindex n i)"
  by (auto simp: kframe_def reflp_def)

lemma kframe_kmodify: "(\<And>s. P s (f s)) \<Longrightarrow> kframe P (kmodify f)"
  by (auto simp: kframe_def)

lemma kframe_kbind [kframe_intros]:
  "transp P \<Longrightarrow> kframe P m \<Longrightarrow> (\<And>x. kframe P (f x)) \<Longrightarrow> kframe P (kbind m f)"
  by (fastforce simp: kframe_def kbind_eq_Inr_iff dest: transpD)

lemma kframe_kseq [kframe_intros]:
  "transp P \<Longrightarrow> kframe P m \<Longrightarrow> kframe P n \<Longrightarrow> kframe P (kseq m n)"
  by (simp add: kseq_def kframe_kbind)

lemma kframe_if [kframe_intros]:
  "(b \<Longrightarrow> kframe P m) \<Longrightarrow> (\<not> b \<Longrightarrow> kframe P n) \<Longrightarrow> kframe P (if b then m else n)"
  by simp

section \<open>Counting loops\<close>

lemma unat_lt2p: "unat (w::'a::len word) < 2 ^ LENGTH('a)"
  by (rule unsigned_less)

lemma unat_add_exact: "unat a + unat b < 2 ^ LENGTH('a) \<Longrightarrow> unat (a + b) = unat a + unat b"
  for a b :: "'a::len word"
  by (simp add: unat_word_ariths)

lemma unat_mult_exact: "unat a * unat b < 2 ^ LENGTH('a) \<Longrightarrow> unat (a * b) = unat a * unat b"
  for a b :: "'a::len word"
  by (simp add: unat_word_ariths)

lemma unat_sub_exact: "b \<le> a \<Longrightarrow> unat (a - b) = unat a - unat b"
  for a b :: "'a::len word"
  by (rule unat_sub)

lemma word_mod_less: "a < b \<Longrightarrow> a mod b = a" for a b :: "'a::len word"
  by (simp add: word_unat_eq_iff unat_mod word_less_nat_alt)

lemma sint_nonneg: "x < 0x80000000 \<Longrightarrow> sint x = uint x" for x :: u32
proof -
  assume "x < 0x80000000"
  then have "uint x < 2 ^ 31" by (simp add: word_less_def)
  moreover have "- (2 ^ 31) \<le> uint x" by (rule order_trans [of _ 0]) simp_all
  ultimately show ?thesis by (simp add: sint_uint signed_take_bit_int_eq_self)
qed

lemma sint_pos_iff: "x < 0x80000000 \<Longrightarrow> 0 < sint x \<longleftrightarrow> x \<noteq> 0" for x :: u32
  by (simp add: sint_nonneg uint_0_iff order_less_le)

lemma u32_le_max: "(x::u32) \<le> 0xffffffff"
  using unat_lt2p [of x] by (simp add: word_le_nat_alt)

lemma unat_Suc_less: "(i::'a::len word) < n \<Longrightarrow> unat (i + 1) = Suc (unat i)"
proof -
  assume "i < n"
  then have "unat i + 1 < 2 ^ LENGTH('a)"
    using unat_lt2p [of n] unfolding word_less_nat_alt by linarith
  then show ?thesis by (simp add: unat_word_ariths)
qed

lemma Suc_le_of_less: "(i::'a::len word) < n \<Longrightarrow> i + 1 \<le> n"
  by (simp add: unat_Suc_less word_le_nat_alt word_less_nat_alt)

lemma word_less_Suc_iff:
  "(j::'a::len word) < n \<Longrightarrow> k < j + 1 \<longleftrightarrow> k < j \<or> k = j"
  by (auto simp: unat_Suc_less word_less_nat_alt word_unat_eq_iff)

text \<open>Induction over a 32-bit counter that runs up to a bound.\<close>

lemma upto_induct [consumes 1, case_names finish step]:
  fixes i n :: "'a::len word"
  assumes "i \<le> n"
    and "P n"
    and "\<And>i. i < n \<Longrightarrow> P (i + 1) \<Longrightarrow> P i"
  shows "P i"
  using assms(1)
proof (induction "unat n - unat i" arbitrary: i)
  case 0
  then have "i = n" by (simp add: word_le_nat_alt word_unat_eq_iff)
  with assms(2) show ?case by simp
next
  case (Suc d)
  then have "i < n" by (simp add: word_less_nat_alt)
  then have "d = unat n - unat (i + 1)" and "i + 1 \<le> n"
    using Suc by (auto simp: unat_Suc_less Suc_le_of_less)
  then have "P (i + 1)" by (rule Suc.hyps(1))
  with \<open>i < n\<close> show ?case by (rule assms(3))
qed

text \<open>\<^verbatim>\<open>while (i < n) { body(i); i++; }\<close> with a 32-bit counter.\<close>

function kfor :: "u32 \<Rightarrow> u32 \<Rightarrow> (u32 \<Rightarrow> ('s, unit) kern) \<Rightarrow> ('s, unit) kern" where
  "kfor i n body = (if i < n then kseq (body i) (kfor (i + 1) n body) else kret ())"
  by pat_completeness auto
termination
  by (relation "measure (\<lambda>(i, n, _). unat n - unat i)")
     (auto simp: unat_Suc_less word_less_nat_alt)

declare kfor.simps [simp del]

text \<open>
  The loop rule: a body that returns and advances the invariant from \<open>j\<close> to \<open>j + 1\<close>
  makes the loop return with the invariant at \<open>n\<close>.
\<close>

lemma kfor_rule:
  assumes "i \<le> n" and "Inv i s"
    and "\<And>j s. i \<le> j \<Longrightarrow> j < n \<Longrightarrow> Inv j s \<Longrightarrow> \<exists>t. body j s = Inr ((), t) \<and> Inv (j + 1) t"
  shows "\<exists>t. kfor i n body s = Inr ((), t) \<and> Inv n t"
  using assms
proof (induction i arbitrary: s rule: upto_induct)
  case finish
  then show ?case by (simp add: kfor.simps [of n n])
next
  case (step i)
  obtain t where t: "body i s = Inr ((), t)" "Inv (i + 1) t"
    using step.prems(2) [of i s] step.prems(1) step.hyps by auto
  have "\<exists>u. kfor (i + 1) n body t = Inr ((), u) \<and> Inv n u"
  proof (rule step.IH [OF t(2)])
    fix j s
    assume "i + 1 \<le> j" "j < n" "Inv j s"
    moreover have "i \<le> j"
      using \<open>i + 1 \<le> j\<close> unat_Suc_less [OF step.hyps] by (simp add: word_le_nat_alt)
    ultimately show "\<exists>t. body j s = Inr ((), t) \<and> Inv (j + 1) t"
      using step.prems(2) by blast
  qed
  with t(1) step.hyps show ?case by (simp add: kfor.simps [of i n])
qed

lemma kframe_kfor [kframe_intros]:
  assumes "reflp P" "transp P" "\<And>i. kframe P (body i)"
  shows "kframe P (kfor i n body)"
  using assms(3)
proof (induction i n body rule: kfor.induct)
  case (1 i n body)
  then show ?case
    using assms(1,2) by (subst kfor.simps) (auto intro!: kframe_intros)
qed

lemma card_word_less: "card {j. j < n} \<le> unat n"
  for n :: "'a::len word"
proof -
  have "card {j. j < n} \<le> card {..< unat n}"
    by (rule card_inj_on_le [where f = unat]) (auto simp: inj_on_def word_less_nat_alt word_unat_eq_iff)
  then show ?thesis by simp
qed

end
