(* ===== verification/Spinlock.thy ===== *)
theory Spinlock
  imports KPrelude
begin

text \<open>
  The spin locks: \<^verbatim>\<open>kern/lib/spinlock.c\<close> (the build without \<^verbatim>\<open>DEBUG_LOCKHOLDING\<close>, in which
  \<^verbatim>\<open>spinlock_acquire\<close> is \<^verbatim>\<open>spinlock_acquire_A\<close> and so on, and the checked variants of the
  build with it) and \<^verbatim>\<open>user/lib/spinlock.c\<close>. A routine is first given as a function on the
  lock, as one processor runs it; the interleavings of several processors are then a
  step relation whose steps are the single memory accesses of the same routines.
\<close>

section \<open>The kernel lock, run by one processor\<close>

record kstack =
  ks_magic :: u32
  ks_cpu_idx :: u32

record spinlock =
  lock :: u32
  lock_holder :: u32

text \<open>
  \<^verbatim>\<open>spinlock.c\<close> redefines \<^verbatim>\<open>NUM_CPUS\<close> as 4 and \<^verbatim>\<open>KSTACK_MAGIC\<close> as \<^verbatim>\<open>0xdeadbeef\<close> after it has
  included the headers.
\<close>

definition SPIN_NUM_CPUS :: u32 where
  "SPIN_NUM_CPUS = 4"

definition SPIN_KSTACK_MAGIC :: u32 where
  "SPIN_KSTACK_MAGIC = 0xdeadbeef"

definition spinlock_init :: "spinlock \<Rightarrow> spinlock" where
  "spinlock_init lk = lk\<lparr>lock_holder := SPIN_NUM_CPUS + 1, lock := 0\<rparr>"

definition spinlock_holding :: "kstack \<Rightarrow> spinlock \<Rightarrow> fault + bool" where
  "spinlock_holding ks lk =
     (if lock lk = 0 then Inr False
      else if ks_magic ks \<noteq> SPIN_KSTACK_MAGIC then Inl (KERN_ASSERT ''kstack->magic'')
      else Inr (lock_holder lk = ks_cpu_idx ks))"

text \<open>
  The waiting loop \<^verbatim>\<open>while(lk->lock != 0)\<close> does not end when no other processor
  changes the lock: the outcome is \<open>Spin\<close>.
\<close>

definition spinlock_acquire_A :: "kstack \<Rightarrow> spinlock \<Rightarrow> fault + spinlock" where
  "spinlock_acquire_A ks lk =
     (if lock lk \<noteq> 0 then Inl Spin
      else if ks_magic ks \<noteq> SPIN_KSTACK_MAGIC then Inl (KERN_ASSERT ''kstack->magic'')
      else Inr (lk\<lparr>lock_holder := ks_cpu_idx ks\<rparr>))"

definition spinlock_try_acquire_A :: "kstack \<Rightarrow> spinlock \<Rightarrow> fault + u32 \<times> spinlock" where
  "spinlock_try_acquire_A ks lk =
     (let old_val = lock lk; lk = lk\<lparr>lock := 1\<rparr> in
      if old_val = 0 then
        if ks_magic ks \<noteq> SPIN_KSTACK_MAGIC then Inl (KERN_ASSERT ''kstack->magic'')
        else Inr (old_val, lk\<lparr>lock_holder := ks_cpu_idx ks\<rparr>)
      else Inr (old_val, lk))"

definition spinlock_release_A :: "spinlock \<Rightarrow> spinlock" where
  "spinlock_release_A lk = lk\<lparr>lock_holder := SPIN_NUM_CPUS + 1, lock := 0\<rparr>"

text \<open>The build without \<^verbatim>\<open>DEBUG_LOCKHOLDING\<close>.\<close>

definition spinlock_acquire :: "kstack \<Rightarrow> spinlock \<Rightarrow> fault + spinlock" where
  "spinlock_acquire ks lk = spinlock_acquire_A ks lk"

definition spinlock_release :: "kstack \<Rightarrow> spinlock \<Rightarrow> fault + spinlock" where
  "spinlock_release ks lk = Inr (spinlock_release_A lk)"

definition spinlock_try_acquire :: "kstack \<Rightarrow> spinlock \<Rightarrow> fault + u32 \<times> spinlock" where
  "spinlock_try_acquire ks lk = spinlock_try_acquire_A ks lk"

text \<open>
  The build with \<^verbatim>\<open>DEBUG_LOCKHOLDING\<close>: acquiring a lock the processor holds prints for
  ever, releasing one it does not hold panics.
\<close>

definition spinlock_acquire_dbg :: "kstack \<Rightarrow> spinlock \<Rightarrow> fault + spinlock" where
  "spinlock_acquire_dbg ks lk =
     (case spinlock_holding ks lk of
        Inl e \<Rightarrow> Inl e
      | Inr held \<Rightarrow> if held then Inl Spin else spinlock_acquire_A ks lk)"

definition spinlock_release_dbg :: "kstack \<Rightarrow> spinlock \<Rightarrow> fault + spinlock" where
  "spinlock_release_dbg ks lk =
     (case spinlock_holding ks lk of
        Inl e \<Rightarrow> Inl e
      | Inr held \<Rightarrow>
          if \<not> held then Inl (KERN_PANIC ''Tried to release unheld lock'')
          else Inr (spinlock_release_A lk))"

definition spinlock_try_acquire_dbg :: "kstack \<Rightarrow> spinlock \<Rightarrow> fault + u32 \<times> spinlock" where
  "spinlock_try_acquire_dbg ks lk =
     (case spinlock_holding ks lk of
        Inl e \<Rightarrow> Inl e
      | Inr held \<Rightarrow>
          if held then Inl (KERN_PANIC ''Tried to self-deadlock'')
          else spinlock_try_acquire_A ks lk)"

section \<open>Locks in the kernel state\<close>

text \<open>
  The bottom layer of the kernel state: the kernel stack of the running processor,
  found from the stack pointer. Each layer above extends this record.
\<close>

record hw =
  cur_kstack :: kstack

definition klock_op ::
    "(kstack \<Rightarrow> spinlock \<Rightarrow> fault + spinlock) \<Rightarrow> ('z hw_scheme \<Rightarrow> spinlock) \<Rightarrow>
     (spinlock \<Rightarrow> 'z hw_scheme \<Rightarrow> 'z hw_scheme) \<Rightarrow> ('z hw_scheme, unit) kern" where
  "klock_op opn get put s =
     (case opn (cur_kstack s) (get s) of Inl e \<Rightarrow> Inl e | Inr l \<Rightarrow> Inr ((), put l s))"

text \<open>
  A lock that the processor finds free, on a kernel stack with the right magic number,
  can be taken; releasing always succeeds.
\<close>

definition lock_ready :: "kstack \<Rightarrow> spinlock \<Rightarrow> bool" where
  "lock_ready ks lk \<longleftrightarrow> lock lk = 0 \<and> ks_magic ks = SPIN_KSTACK_MAGIC"

definition taken :: "kstack \<Rightarrow> spinlock \<Rightarrow> spinlock" where
  "taken ks lk = lk\<lparr>lock_holder := ks_cpu_idx ks\<rparr>"

lemma klock_acquire [simp]:
  "lock_ready (cur_kstack s) (get s) \<Longrightarrow>
     klock_op spinlock_acquire get put s = Inr ((), put (taken (cur_kstack s) (get s)) s)"
  by (simp add: klock_op_def spinlock_acquire_def spinlock_acquire_A_def lock_ready_def taken_def)

lemma klock_acquire_iff:
  "klock_op spinlock_acquire get put s = Inr r \<longleftrightarrow>
     lock_ready (cur_kstack s) (get s) \<and> r = ((), put (taken (cur_kstack s) (get s)) s)"
  by (auto simp: klock_op_def spinlock_acquire_def spinlock_acquire_A_def lock_ready_def taken_def)

lemma klock_release [simp]:
  "klock_op spinlock_release get put s = Inr ((), put (spinlock_release_A (get s)) s)"
  by (simp add: klock_op_def spinlock_release_def)

lemma lock_ready_taken [simp]: "lock_ready ks (taken ks' lk) = lock_ready ks lk"
  by (simp add: lock_ready_def taken_def)

lemma lock_ready_released [simp]:
  "lock_ready ks (spinlock_release_A lk) \<longleftrightarrow> ks_magic ks = SPIN_KSTACK_MAGIC"
  by (simp add: lock_ready_def spinlock_release_A_def)

lemma lock_ready_init [simp]:
  "lock_ready ks (spinlock_init lk) \<longleftrightarrow> ks_magic ks = SPIN_KSTACK_MAGIC"
  by (simp add: lock_ready_def spinlock_init_def)

lemma release_taken [simp]: "spinlock_release_A (taken ks lk) = spinlock_release_A lk"
  by (simp add: taken_def spinlock_release_A_def)

lemma release_release [simp]:
  "spinlock_release_A (spinlock_release_A lk) = spinlock_release_A lk"
  by (simp add: spinlock_release_A_def)

lemma lock_ready_magic: "lock_ready ks lk \<Longrightarrow> ks_magic ks = SPIN_KSTACK_MAGIC"
  by (simp add: lock_ready_def)

lemma try_acquire_dbg_after_try:
  assumes "spinlock_try_acquire ks lk = Inr (0, lk')"
  shows "spinlock_holding ks lk' = Inr True"
    and "spinlock_release_dbg ks lk' = Inr (spinlock_release_A lk')"
    and "spinlock_acquire_dbg ks lk' = Inl Spin"
  using assms
  by (auto simp: spinlock_try_acquire_def spinlock_try_acquire_A_def spinlock_holding_def Let_def
      spinlock_release_dbg_def spinlock_acquire_dbg_def split: if_splits)

section \<open>The kernel lock under interleaving\<close>

text \<open>
  Each processor runs the routines one memory access at a time. \<open>KSpin\<close> is the
  waiting loop of \<^verbatim>\<open>spinlock_acquire_A\<close>, \<open>KAcq\<close> the point before \<^verbatim>\<open>lk->lock_holder\<close> is
  written, \<open>KCrit\<close> the code between acquire and release, \<open>KRel\<close> the point between
  the two writes of \<^verbatim>\<open>spinlock_release_A\<close>.
\<close>

datatype kpc = KIdle | KSpin | KAcq | KCrit | KRel

record ksys =
  klk :: spinlock
  kpcs :: "u32 \<Rightarrow> kpc"

definition ksys_init :: ksys where
  "ksys_init =
     \<lparr>klk = spinlock_init \<lparr>lock = 0, lock_holder = 0\<rparr>, kpcs = (\<lambda>_. KIdle)\<rparr>"

text \<open>The steps of \<^verbatim>\<open>spinlock_try_acquire_A\<close> and \<^verbatim>\<open>spinlock_release_A\<close>.\<close>

inductive try_step :: "ksys \<Rightarrow> ksys \<Rightarrow> bool" where
  xchg_free: "kpcs s c = KIdle \<Longrightarrow> lock (klk s) = 0 \<Longrightarrow>
     try_step s (s\<lparr>klk := (klk s)\<lparr>lock := 1\<rparr>, kpcs := (kpcs s)(c := KAcq)\<rparr>)"
| xchg_held: "kpcs s c = KIdle \<Longrightarrow> lock (klk s) \<noteq> 0 \<Longrightarrow>
     try_step s (s\<lparr>klk := (klk s)\<lparr>lock := 1\<rparr>\<rparr>)"
| write_holder: "kpcs s c = KAcq \<Longrightarrow>
     try_step s (s\<lparr>klk := (klk s)\<lparr>lock_holder := c\<rparr>, kpcs := (kpcs s)(c := KCrit)\<rparr>)"
| release_holder: "kpcs s c = KCrit \<Longrightarrow>
     try_step s (s\<lparr>klk := (klk s)\<lparr>lock_holder := SPIN_NUM_CPUS + 1\<rparr>, kpcs := (kpcs s)(c := KRel)\<rparr>)"
| release_lock: "kpcs s c = KRel \<Longrightarrow>
     try_step s (s\<lparr>klk := (klk s)\<lparr>lock := 0\<rparr>, kpcs := (kpcs s)(c := KIdle)\<rparr>)"

text \<open>With the steps of \<^verbatim>\<open>spinlock_acquire_A\<close> added.\<close>

inductive acq_step :: "ksys \<Rightarrow> ksys \<Rightarrow> bool" where
  via_try: "try_step s t \<Longrightarrow> acq_step s t"
| call: "kpcs s c = KIdle \<Longrightarrow> acq_step s (s\<lparr>kpcs := (kpcs s)(c := KSpin)\<rparr>)"
| wait: "kpcs s c = KSpin \<Longrightarrow> lock (klk s) \<noteq> 0 \<Longrightarrow> acq_step s s"
| leave: "kpcs s c = KSpin \<Longrightarrow> lock (klk s) = 0 \<Longrightarrow>
     acq_step s (s\<lparr>kpcs := (kpcs s)(c := KAcq)\<rparr>)"

definition owns :: "ksys \<Rightarrow> u32 \<Rightarrow> bool" where
  "owns s c \<longleftrightarrow> kpcs s c \<in> {KAcq, KCrit, KRel}"

text \<open>
  The inductive invariant of processors that only use \<^verbatim>\<open>spinlock_try_acquire\<close>: the lock
  word is non-zero exactly when one processor owns the lock, there is at most one owner,
  and inside the critical section \<^verbatim>\<open>lock_holder\<close> names it.
\<close>

definition try_inv :: "ksys \<Rightarrow> bool" where
  "try_inv s \<longleftrightarrow>
     (lock (klk s) \<noteq> 0 \<longleftrightarrow> (\<exists>c. owns s c)) \<and>
     (\<forall>c d. owns s c \<longrightarrow> owns s d \<longrightarrow> c = d) \<and>
     (\<forall>c. kpcs s c = KCrit \<longrightarrow> lock_holder (klk s) = c)"

lemma try_inv_init: "try_inv ksys_init"
  by (simp add: try_inv_def ksys_init_def owns_def spinlock_init_def)

lemma owns_upd [simp]:
  "owns (s\<lparr>klk := l\<rparr>) d = owns s d"
  "owns (s\<lparr>kpcs := (kpcs s)(c := p)\<rparr>) d = (if d = c then p \<in> {KAcq, KCrit, KRel} else owns s d)"
  "owns (s\<lparr>klk := l, kpcs := (kpcs s)(c := p)\<rparr>) d =
     (if d = c then p \<in> {KAcq, KCrit, KRel} else owns s d)"
  by (simp_all add: owns_def)

lemma try_step_inv:
  assumes "try_step s t" "try_inv s"
  shows "try_inv t"
proof -
  have crit: "\<And>c. kpcs s c = KCrit \<Longrightarrow> owns s c" by (simp add: owns_def)
  have one: "\<And>c d. owns s c \<Longrightarrow> owns s d \<Longrightarrow> c = d"
    and word: "lock (klk s) \<noteq> 0 \<longleftrightarrow> (\<exists>c. owns s c)"
    and holder: "\<And>c. kpcs s c = KCrit \<Longrightarrow> lock_holder (klk s) = c"
    using assms(2) by (auto simp: try_inv_def)
  from assms(1) show ?thesis
  proof cases
    case (xchg_free c)
    then have "\<And>d. \<not> owns s d" using word by blast
    with xchg_free crit show ?thesis unfolding try_inv_def by auto
  next
    case (xchg_held c)
    with word one holder show ?thesis unfolding try_inv_def by auto
  next
    case (write_holder c)
    then have "\<And>d. owns s d \<longleftrightarrow> d = c" using one by (auto simp: owns_def)
    with write_holder word crit show ?thesis unfolding try_inv_def by auto
  next
    case (release_holder c)
    then have o: "owns s d \<longleftrightarrow> d = c" for d using one by (auto simp: owns_def)
    moreover have "kpcs t d \<noteq> KCrit" for d using release_holder crit [of d] o [of d] by auto
    ultimately show ?thesis using release_holder word by (simp add: try_inv_def)
  next
    case (release_lock c)
    then have o: "owns s d \<longleftrightarrow> d = c" for d using one by (auto simp: owns_def)
    moreover have "kpcs t d \<noteq> KCrit" for d using release_lock crit [of d] o [of d] by auto
    ultimately show ?thesis using release_lock by (simp add: try_inv_def)
  qed
qed

lemma try_reachable_inv: "try_step\<^sup>*\<^sup>* ksys_init s \<Longrightarrow> try_inv s"
  by (induction rule: rtranclp_induct) (auto intro: try_inv_init try_step_inv)

text \<open>
  \<^verbatim>\<open>spinlock_acquire_A\<close> waits until the lock word is zero but never sets it, so no step
  it adds can make a later caller wait.
\<close>

lemma acq_two_in_critical:
  "\<exists>s. acq_step\<^sup>*\<^sup>* ksys_init s \<and> kpcs s 0 = KCrit \<and> kpcs s 1 = KCrit"
proof -
  define s1 where "s1 = ksys_init\<lparr>kpcs := (kpcs ksys_init)(0 := KSpin)\<rparr>"
  define s2 where "s2 = s1\<lparr>kpcs := (kpcs s1)(0 := KAcq)\<rparr>"
  define s3 where "s3 = s2\<lparr>klk := (klk s2)\<lparr>lock_holder := 0\<rparr>, kpcs := (kpcs s2)(0 := KCrit)\<rparr>"
  define s4 where "s4 = s3\<lparr>kpcs := (kpcs s3)(1 := KSpin)\<rparr>"
  define s5 where "s5 = s4\<lparr>kpcs := (kpcs s4)(1 := KAcq)\<rparr>"
  define s6 where "s6 = s5\<lparr>klk := (klk s5)\<lparr>lock_holder := 1\<rparr>, kpcs := (kpcs s5)(1 := KCrit)\<rparr>"
  note defs = s1_def s2_def s3_def s4_def s5_def s6_def ksys_init_def spinlock_init_def
  have e1: "acq_step ksys_init s1" unfolding s1_def by (rule call) (simp add: ksys_init_def)
  have e2: "acq_step s1 s2" unfolding s2_def by (rule leave) (simp_all add: defs)
  have e3: "acq_step s2 s3" unfolding s3_def by (rule via_try, rule write_holder) (simp add: defs)
  have e4: "acq_step s3 s4" unfolding s4_def by (rule call) (simp add: defs)
  have e5: "acq_step s4 s5" unfolding s5_def by (rule leave) (simp_all add: defs)
  have e6: "acq_step s5 s6" unfolding s6_def by (rule via_try, rule write_holder) (simp add: defs)
  have "acq_step\<^sup>*\<^sup>* ksys_init s3"
    using e1 e2 e3 by (meson r_into_rtranclp rtranclp_trans)
  moreover have "acq_step\<^sup>*\<^sup>* s3 s6"
    using e4 e5 e6 by (meson r_into_rtranclp rtranclp_trans)
  ultimately have "acq_step\<^sup>*\<^sup>* ksys_init s6" by (rule rtranclp_trans)
  moreover have "kpcs s6 0 = KCrit \<and> kpcs s6 1 = KCrit" by (simp add: defs)
  ultimately show ?thesis by blast
qed

section \<open>The user-level lock under interleaving\<close>

text \<open>
  \<^verbatim>\<open>user/lib/spinlock.c\<close>: the lock is one word, acquired by a loop of atomic exchanges.
  \<open>URel\<close> is the point of \<^verbatim>\<open>spinlock_release\<close> after \<^verbatim>\<open>spinlock_holding\<close> has returned true.
  \<^verbatim>\<open>spinlock_holding\<close> returns the word as a \<^verbatim>\<open>bool\<close>, which is 8 bits wide.
\<close>

definition uspinlock_init :: "u32 \<Rightarrow> u32" where
  "uspinlock_init lk = 0"

definition uspinlock_holding :: "u32 \<Rightarrow> u8" where
  "uspinlock_holding lk = ucast lk"

datatype upc = UIdle | USpin | UCrit | URel

record usys =
  ulk :: u32
  upcs :: "nat \<Rightarrow> upc"

definition usys_init :: usys where
  "usys_init = \<lparr>ulk = uspinlock_init 0, upcs = (\<lambda>_. UIdle)\<rparr>"

inductive ulock_step :: "usys \<Rightarrow> usys \<Rightarrow> bool" where
  ucall: "upcs s c = UIdle \<Longrightarrow> ulock_step s (s\<lparr>upcs := (upcs s)(c := USpin)\<rparr>)"
| uxchg_held: "upcs s c = USpin \<Longrightarrow> ulk s \<noteq> 0 \<Longrightarrow> ulock_step s (s\<lparr>ulk := 1\<rparr>)"
| uxchg_free: "upcs s c = USpin \<Longrightarrow> ulk s = 0 \<Longrightarrow>
     ulock_step s (s\<lparr>ulk := 1, upcs := (upcs s)(c := UCrit)\<rparr>)"
| urel_unheld: "upcs s c = UCrit \<Longrightarrow> uspinlock_holding (ulk s) = 0 \<Longrightarrow>
     ulock_step s (s\<lparr>upcs := (upcs s)(c := UIdle)\<rparr>)"
| urel_held: "upcs s c = UCrit \<Longrightarrow> uspinlock_holding (ulk s) \<noteq> 0 \<Longrightarrow>
     ulock_step s (s\<lparr>upcs := (upcs s)(c := URel)\<rparr>)"
| urel_xchg: "upcs s c = URel \<Longrightarrow>
     ulock_step s (s\<lparr>ulk := 0, upcs := (upcs s)(c := UIdle)\<rparr>)"

definition uowns :: "usys \<Rightarrow> nat \<Rightarrow> bool" where
  "uowns s c \<longleftrightarrow> upcs s c \<in> {UCrit, URel}"

definition ulock_inv :: "usys \<Rightarrow> bool" where
  "ulock_inv s \<longleftrightarrow>
     (ulk s = 0 \<or> ulk s = 1) \<and>
     (ulk s \<noteq> 0 \<longleftrightarrow> (\<exists>c. uowns s c)) \<and>
     (\<forall>c d. uowns s c \<longrightarrow> uowns s d \<longrightarrow> c = d)"

lemma ulock_inv_init: "ulock_inv usys_init"
  by (simp add: ulock_inv_def uowns_def usys_init_def uspinlock_init_def)

lemma uowns_upd [simp]:
  "uowns (s\<lparr>ulk := l\<rparr>) d = uowns s d"
  "uowns (s\<lparr>upcs := (upcs s)(c := p)\<rparr>) d = (if d = c then p \<in> {UCrit, URel} else uowns s d)"
  "uowns (s\<lparr>ulk := l, upcs := (upcs s)(c := p)\<rparr>) d =
     (if d = c then p \<in> {UCrit, URel} else uowns s d)"
  by (simp_all add: uowns_def)

lemma ulock_step_inv:
  assumes "ulock_step s t" "ulock_inv s"
  shows "ulock_inv t"
proof -
  have one: "\<And>c d. uowns s c \<Longrightarrow> uowns s d \<Longrightarrow> c = d"
    and word: "ulk s \<noteq> 0 \<longleftrightarrow> (\<exists>c. uowns s c)" "ulk s = 0 \<or> ulk s = 1"
    using assms(2) by (auto simp: ulock_inv_def)
  from assms(1) show ?thesis
  proof cases
    case (ucall c)
    then have "\<not> uowns s c" by (simp add: uowns_def)
    then have "uowns t d = uowns s d" for d using ucall by simp
    moreover have "ulk t = ulk s" using ucall by simp
    ultimately show ?thesis using assms(2) by (simp add: ulock_inv_def)
  next
    case (uxchg_held c)
    with word one show ?thesis unfolding ulock_inv_def by auto
  next
    case (uxchg_free c)
    then have "\<And>d. \<not> uowns s d" using word by blast
    with uxchg_free show ?thesis unfolding ulock_inv_def by auto
  next
    case (urel_unheld c)
    then have "ulk s = 1" using word by (auto simp: uowns_def)
    with urel_unheld show ?thesis by (simp add: uspinlock_holding_def)
  next
    case (urel_held c)
    then have "\<And>d. uowns s d \<longleftrightarrow> d = c" using one by (auto simp: uowns_def)
    with urel_held word show ?thesis unfolding ulock_inv_def by auto
  next
    case (urel_xchg c)
    then have "\<And>d. uowns s d \<longleftrightarrow> d = c" using one by (auto simp: uowns_def)
    with urel_xchg show ?thesis unfolding ulock_inv_def by auto
  qed
qed

lemma ulock_reachable_inv: "ulock_step\<^sup>*\<^sup>* usys_init s \<Longrightarrow> ulock_inv s"
  by (induction rule: rtranclp_induct) (auto intro: ulock_inv_init ulock_step_inv)

section \<open>Properties\<close>

text \<open>
  C30. The user-level lock: in every state reachable by any interleaving of
  \<^verbatim>\<open>spinlock_acquire\<close> and \<^verbatim>\<open>spinlock_release\<close> by any number of processes, the number of
  processes between the two is the value of the lock word, 0 or 1.
\<close>

theorem ulock_mutual_exclusion:
  assumes "ulock_step\<^sup>*\<^sup>* usys_init s"
  shows "finite {c. upcs s c \<in> {UCrit, URel}} \<and> card {c. upcs s c \<in> {UCrit, URel}} = unat (ulk s) \<and>
    unat (ulk s) \<le> 1"
proof -
  have inv: "ulk s = 0 \<or> ulk s = 1" "ulk s \<noteq> 0 \<longleftrightarrow> (\<exists>c. uowns s c)"
    "\<And>c d. uowns s c \<Longrightarrow> uowns s d \<Longrightarrow> c = d"
    using ulock_reachable_inv [OF assms] by (auto simp: ulock_inv_def)
  have o: "upcs s c \<in> {UCrit, URel} \<longleftrightarrow> uowns s c" for c by (simp add: uowns_def)
  have "{c. uowns s c} = {} \<and> ulk s = 0 \<or> (\<exists>c. {c. uowns s c} = {c}) \<and> ulk s = 1"
    using inv by blast
  then show ?thesis unfolding o by auto
qed

definition one_in :: usys where
  "one_in = \<lparr>ulk = 1, upcs = (\<lambda>_. UIdle)(0 := UCrit, 1 := USpin)\<rparr>"

lemma one_in_reachable: "ulock_step\<^sup>*\<^sup>* usys_init one_in"
proof -
  let ?s1 = "usys_init\<lparr>upcs := (upcs usys_init)(0 := USpin)\<rparr>"
  let ?s2 = "?s1\<lparr>ulk := 1, upcs := (upcs ?s1)(0 := UCrit)\<rparr>"
  have "ulock_step usys_init ?s1" by (rule ucall) (simp add: usys_init_def)
  moreover have "ulock_step ?s1 ?s2" by (rule uxchg_free) (simp_all add: usys_init_def uspinlock_init_def)
  moreover have "ulock_step ?s2 (?s2\<lparr>upcs := (upcs ?s2)(1 := USpin)\<rparr>)"
    by (rule ucall) (simp add: usys_init_def)
  moreover have "?s2\<lparr>upcs := (upcs ?s2)(1 := USpin)\<rparr> = one_in"
    by (simp add: one_in_def usys_init_def)
  ultimately show ?thesis by (metis r_into_rtranclp rtranclp_trans)
qed

theorem ulock_mutual_exclusion_witness:
  "finite {c. upcs one_in c \<in> {UCrit, URel}} \<and>
   card {c. upcs one_in c \<in> {UCrit, URel}} = unat (ulk one_in) \<and> unat (ulk one_in) \<le> 1"
  by (rule ulock_mutual_exclusion) (rule one_in_reachable)

text \<open>
  C36. Processors that use \<^verbatim>\<open>spinlock_try_acquire\<close> and \<^verbatim>\<open>spinlock_release\<close> only: in every
  reachable state at most one of them is past the exchange, the lock word tells whether
  there is one, and \<^verbatim>\<open>lock_holder\<close> is the number of the one in the critical section.
\<close>

theorem try_lock_mutual_exclusion:
  assumes "try_step\<^sup>*\<^sup>* ksys_init s"
  shows "card {c. kpcs s c \<in> {KAcq, KCrit, KRel}} = (if lock (klk s) = 0 then 0 else 1) \<and>
    {c. kpcs s c = KCrit} \<subseteq> {lock_holder (klk s)}"
proof -
  have inv: "lock (klk s) \<noteq> 0 \<longleftrightarrow> (\<exists>c. owns s c)" "\<And>c d. owns s c \<Longrightarrow> owns s d \<Longrightarrow> c = d"
    "\<And>c. kpcs s c = KCrit \<Longrightarrow> lock_holder (klk s) = c"
    using try_reachable_inv [OF assms] by (auto simp: try_inv_def)
  have o: "kpcs s c \<in> {KAcq, KCrit, KRel} \<longleftrightarrow> owns s c" for c by (simp add: owns_def)
  have "{c. owns s c} = {} \<and> lock (klk s) = 0 \<or> (\<exists>c. {c. owns s c} = {c}) \<and> lock (klk s) \<noteq> 0"
    using inv(1,2) by blast
  then show ?thesis unfolding o using inv(3) by auto
qed

definition cpu2_in :: ksys where
  "cpu2_in = \<lparr>klk = \<lparr>lock = 1, lock_holder = 2\<rparr>, kpcs = (\<lambda>_. KIdle)(2 := KCrit)\<rparr>"

lemma cpu2_in_reachable: "try_step\<^sup>*\<^sup>* ksys_init cpu2_in"
proof -
  let ?s1 = "ksys_init\<lparr>klk := (klk ksys_init)\<lparr>lock := 1\<rparr>, kpcs := (kpcs ksys_init)(2 := KAcq)\<rparr>"
  let ?s2 = "?s1\<lparr>klk := (klk ?s1)\<lparr>lock_holder := 2\<rparr>, kpcs := (kpcs ?s1)(2 := KCrit)\<rparr>"
  have "try_step ksys_init ?s1" by (rule xchg_free) (simp_all add: ksys_init_def spinlock_init_def)
  moreover have "try_step ?s1 ?s2" by (rule write_holder) (simp add: ksys_init_def)
  moreover have "?s2 = cpu2_in" by (simp add: cpu2_in_def ksys_init_def spinlock_init_def)
  ultimately show ?thesis by (metis r_into_rtranclp rtranclp_trans)
qed

theorem try_lock_mutual_exclusion_witness:
  "card {c. kpcs cpu2_in c \<in> {KAcq, KCrit, KRel}} = (if lock (klk cpu2_in) = 0 then 0 else 1) \<and>
   {c. kpcs cpu2_in c = KCrit} \<subseteq> {lock_holder (klk cpu2_in)}"
  by (rule try_lock_mutual_exclusion) (rule cpu2_in_reachable)

text \<open>
  C37. \<^verbatim>\<open>spinlock_acquire\<close> gives no mutual exclusion: from the initial state two processors
  that call it can both be in the critical section.
\<close>

theorem spinlock_acquire_not_exclusive:
  "\<exists>s. acq_step\<^sup>*\<^sup>* ksys_init s \<and> kpcs s 0 = KCrit \<and> kpcs s 1 = KCrit"
  by (rule acq_two_in_critical)

end
