(* ===== verification/Pcpu.thy ===== *)
theory Pcpu
  imports Spinlock
begin

text \<open>
  The per-processor table of \<^verbatim>\<open>kern/pcpu/PCPUIntro/PCPUIntro.c\<close> and the kernel-stack
  lookups of \<^verbatim>\<open>kern/lib/kstack.c\<close>. The state of this layer adds the table \<open>pcpu_tbl\<close>
  (\<^verbatim>\<open>struct pcpu pcpu[NUM_CPUS]\<close>) to the hardware layer.
\<close>

definition NUM_CPUS :: u32 where
  "NUM_CPUS = 8"

datatype cpu_vendor = UNKNOWN_CPU | INTEL | AMD

record pcpuinfo =
  lapicid :: u32
  bsp :: u8
  cpuid_high :: u32
  vendor :: "u8 list"
  cpu_vendor :: cpu_vendor
  family :: u8
  model :: u8
  step :: u8
  ext_family :: u8
  ext_model :: u8
  brand_idx :: u8
  clflush_size :: u8
  max_cpu_id :: u8
  apic_id :: u8
  feature1 :: u32
  feature2 :: u32
  l1_cache_size :: u32
  l1_cache_line_size :: u32
  cpuid_exthigh :: u32

record pcpu =
  inited :: bool
  booted :: bool
  kstack_ptr :: u32
  arch_info :: pcpuinfo
  cpu_idx :: u32

record pcpu_state = hw +
  pcpu_tbl :: "u32 \<Rightarrow> pcpu"

text \<open>The all-zero bytes \<^verbatim>\<open>memzero\<close> writes, read back as the structures.\<close>

definition zero_pcpuinfo :: pcpuinfo where
  "zero_pcpuinfo =
     \<lparr>lapicid = 0, bsp = 0, cpuid_high = 0, vendor = replicate 20 0, cpu_vendor = UNKNOWN_CPU,
      family = 0, model = 0, step = 0, ext_family = 0, ext_model = 0, brand_idx = 0,
      clflush_size = 0, max_cpu_id = 0, apic_id = 0, feature1 = 0, feature2 = 0,
      l1_cache_size = 0, l1_cache_line_size = 0, cpuid_exthigh = 0\<rparr>"

definition zero_pcpu :: pcpu where
  "zero_pcpu =
     \<lparr>inited = False, booted = False, kstack_ptr = 0, arch_info = zero_pcpuinfo, cpu_idx = 0\<rparr>"

definition get_kstack_cpu_idx :: "('z hw_scheme, u32) kern" where
  "get_kstack_cpu_idx = kgets (\<lambda>s. ks_cpu_idx (cur_kstack s))"

definition pcpu_set_zero :: "('z pcpu_state_scheme, unit) kern" where
  "pcpu_set_zero =
     kmodify (\<lambda>s. s\<lparr>pcpu_tbl := (\<lambda>i. if i < NUM_CPUS then zero_pcpu else pcpu_tbl s i)\<rparr>)"

definition pcpu_set :: "u32 \<Rightarrow> (pcpu \<Rightarrow> pcpu) \<Rightarrow> ('z pcpu_state_scheme, unit) kern" where
  "pcpu_set i f =
     kseq (kindex NUM_CPUS i) (kmodify (\<lambda>s. s\<lparr>pcpu_tbl := (pcpu_tbl s)(i := f (pcpu_tbl s i))\<rparr>))"

definition pcpu_get :: "u32 \<Rightarrow> (pcpu \<Rightarrow> 'a) \<Rightarrow> ('z pcpu_state_scheme, 'a) kern" where
  "pcpu_get i f = kseq (kindex NUM_CPUS i) (kgets (\<lambda>s. f (pcpu_tbl s i)))"

definition pcpu_fields_init :: "u32 \<Rightarrow> ('z pcpu_state_scheme, unit) kern" where
  "pcpu_fields_init i =
     kseq (pcpu_set i (\<lambda>p. p\<lparr>inited := True\<rparr>)) (pcpu_set i (\<lambda>p. p\<lparr>cpu_idx := i\<rparr>))"

text \<open>\<^verbatim>\<open>pcpu_cur\<close> returns a pointer into the table: here, its index.\<close>

definition pcpu_cur :: "('z pcpu_state_scheme, u32) kern" where
  "pcpu_cur = kbind get_kstack_cpu_idx (\<lambda>i. kret i)"

definition get_pcpu_idx :: "('z pcpu_state_scheme, u32) kern" where
  "get_pcpu_idx = kbind pcpu_cur (\<lambda>i. pcpu_get i cpu_idx)"

definition set_pcpu_idx :: "u32 \<Rightarrow> u32 \<Rightarrow> ('z pcpu_state_scheme, unit) kern" where
  "set_pcpu_idx index idx = pcpu_set index (\<lambda>p. p\<lparr>cpu_idx := idx\<rparr>)"

definition get_pcpu_kstack_pointer :: "u32 \<Rightarrow> ('z pcpu_state_scheme, u32) kern" where
  "get_pcpu_kstack_pointer i = pcpu_get i kstack_ptr"

definition set_pcpu_kstack_pointer :: "u32 \<Rightarrow> u32 \<Rightarrow> ('z pcpu_state_scheme, unit) kern" where
  "set_pcpu_kstack_pointer i ks = pcpu_set i (\<lambda>p. p\<lparr>kstack_ptr := ks\<rparr>)"

definition get_pcpu_boot_info :: "u32 \<Rightarrow> ('z pcpu_state_scheme, bool) kern" where
  "get_pcpu_boot_info i = pcpu_get i booted"

definition set_pcpu_boot_info :: "u32 \<Rightarrow> bool \<Rightarrow> ('z pcpu_state_scheme, unit) kern" where
  "set_pcpu_boot_info i b = pcpu_set i (\<lambda>p. p\<lparr>booted := b\<rparr>)"

definition get_pcpu_cpu_vendor :: "u32 \<Rightarrow> ('z pcpu_state_scheme, cpu_vendor) kern" where
  "get_pcpu_cpu_vendor i = pcpu_get i (\<lambda>p. cpu_vendor (arch_info p))"

definition get_pcpu_inited_info :: "u32 \<Rightarrow> ('z pcpu_state_scheme, bool) kern" where
  "get_pcpu_inited_info i = pcpu_get i inited"

text \<open>
  The processor a piece of kernel code runs on: \<open>cpu_ok s c\<close> says that the running
  processor is number \<open>c\<close> of the table and that its kernel stack carries the magic
  number, which is what the layers above rely on.
\<close>

definition cpu_ok :: "'z pcpu_state_scheme \<Rightarrow> u32 \<Rightarrow> bool" where
  "cpu_ok s c \<longleftrightarrow> ks_cpu_idx (cur_kstack s) < NUM_CPUS \<and>
     cpu_idx (pcpu_tbl s (ks_cpu_idx (cur_kstack s))) = c \<and> c < NUM_CPUS \<and>
     ks_magic (cur_kstack s) = SPIN_KSTACK_MAGIC"

lemma get_pcpu_idx_ok [simp]: "cpu_ok s c \<Longrightarrow> get_pcpu_idx s = Inr (c, s)"
  by (simp add: get_pcpu_idx_def pcpu_cur_def get_kstack_cpu_idx_def pcpu_get_def cpu_ok_def)

lemma cpu_ok_magic: "cpu_ok s c \<Longrightarrow> ks_magic (cur_kstack s) = SPIN_KSTACK_MAGIC"
  by (simp add: cpu_ok_def)

lemma cpu_ok_less: "cpu_ok s c \<Longrightarrow> c < NUM_CPUS"
  by (simp add: cpu_ok_def)

lemma cpu_ok_cong:
  "cur_kstack s = cur_kstack t \<Longrightarrow> pcpu_tbl s = pcpu_tbl t \<Longrightarrow> cpu_ok s c = cpu_ok t c"
  by (simp add: cpu_ok_def)

text \<open>
  Setting up the table the way \<^verbatim>\<open>pcpu_init\<close> does on the boot processor makes every
  processor find its own number.
\<close>

lemma pcpu_fields_init_loop:
  assumes "ks_magic (cur_kstack s) = SPIN_KSTACK_MAGIC" "ks_cpu_idx (cur_kstack s) < NUM_CPUS"
  shows "\<exists>t. kseq pcpu_set_zero (kfor 0 NUM_CPUS pcpu_fields_init) s = Inr ((), t) \<and>
           cur_kstack t = cur_kstack s \<and> cpu_ok t (ks_cpu_idx (cur_kstack s)) \<and>
           (\<forall>j < NUM_CPUS. inited (pcpu_tbl t j) \<and> cpu_idx (pcpu_tbl t j) = j \<and> \<not> booted (pcpu_tbl t j))"
proof -
  let ?z = "s\<lparr>pcpu_tbl := (\<lambda>i. if i < NUM_CPUS then zero_pcpu else pcpu_tbl s i)\<rparr>"
  let ?I = "\<lambda>i t. cur_kstack t = cur_kstack s \<and> (\<forall>j < NUM_CPUS. \<not> booted (pcpu_tbl t j)) \<and>
     (\<forall>j < i. inited (pcpu_tbl t j) \<and> cpu_idx (pcpu_tbl t j) = j)"
  have "\<exists>t. kfor 0 NUM_CPUS pcpu_fields_init ?z = Inr ((), t) \<and> ?I NUM_CPUS t"
  proof (rule kfor_rule [where Inv = ?I])
    fix j t
    assume j: "j < NUM_CPUS" and I: "?I j t"
    let ?t = "t\<lparr>pcpu_tbl := (pcpu_tbl t)(j := pcpu_tbl t j\<lparr>inited := True, cpu_idx := j\<rparr>)\<rparr>"
    have "pcpu_fields_init j t = Inr ((), ?t)"
      using j by (simp add: pcpu_fields_init_def pcpu_set_def)
    moreover have "?I (j + 1) ?t"
      using I j by (auto simp: word_less_Suc_iff [OF j])
    ultimately show "\<exists>u. pcpu_fields_init j t = Inr ((), u) \<and> ?I (j + 1) u" by blast
  qed (auto simp: zero_pcpu_def NUM_CPUS_def)
  then show ?thesis using assms by (auto simp: pcpu_set_zero_def cpu_ok_def)
qed

end
