(* ===== verification/Mboot.thy ===== *)
theory Mboot
  imports Pcpu
begin

text \<open>
  The physical memory map of \<^verbatim>\<open>kern/dev/mboot.c\<close>: the entries the boot loader passes are
  sorted into \<^verbatim>\<open>pmmap_list\<close>, overlapping entries are merged, and the layer above reads the
  table through \<^verbatim>\<open>get_size\<close>, \<^verbatim>\<open>get_mms\<close>, \<^verbatim>\<open>get_mml\<close> and \<^verbatim>\<open>is_usable\<close>. A singly linked list
  of slots is the list of the slots. Main result: the table covers exactly the addresses
  the boot loader's entries cover, type by type.
\<close>

definition MEM_RAM :: u32 where "MEM_RAM = 1"
definition MEM_RESERVED :: u32 where "MEM_RESERVED = 2"
definition MEM_ACPI :: u32 where "MEM_ACPI = 3"
definition MEM_NVS :: u32 where "MEM_NVS = 4"

record mboot_mmap =
  mm_size :: u32
  base_addr_low :: u32
  base_addr_high :: u32
  length_low :: u32
  length_high :: u32
  mm_type :: u32

record pmmap =
  pm_start :: u32
  pm_end :: u32
  pm_type :: u32

datatype pmmap_type = PMMAP_USABLE | PMMAP_RESV | PMMAP_ACPI | PMMAP_NVS

record mboot_state = pcpu_state +
  pmmap_slots_next_free :: nat
  pmmap_list :: "pmmap list"
  pmmap_sublist :: "pmmap_type \<Rightarrow> pmmap list"
  max_usable_memory :: u32
  mem_npages :: u32
  pmmap_nentries :: u32

text \<open>\<^verbatim>\<open>PMMAP_SUBLIST_NR\<close>: the index of the sublist of a type, \<^verbatim>\<open>-1\<close> when there is none.\<close>

definition pmmap_sublist_nr :: "u32 \<Rightarrow> pmmap_type option" where
  "pmmap_sublist_nr t =
     (if t = MEM_RAM then Some PMMAP_USABLE
      else if t = MEM_RESERVED then Some PMMAP_RESV
      else if t = MEM_ACPI then Some PMMAP_ACPI
      else if t = MEM_NVS then Some PMMAP_NVS
      else None)"

definition pmmap_alloc_slot :: "('z mboot_state_scheme, bool) kern" where
  "pmmap_alloc_slot s =
     (if pmmap_slots_next_free s = 128 then Inr (False, s)
      else Inr (True, s\<lparr>pmmap_slots_next_free := Suc (pmmap_slots_next_free s)\<rparr>))"

text \<open>
  The loop of \<^verbatim>\<open>pmmap_insert\<close> remembers the last slot whose start is not above the new
  one; the new slot goes after it, or to the front when there is none.
\<close>

fun slist_insert :: "pmmap \<Rightarrow> pmmap list \<Rightarrow> pmmap list" where
  "slist_insert new [] = [new]"
| "slist_insert new (slot # rest) =
     (if pm_start new < pm_start slot then new # slot # rest
      else slot # slist_insert new rest)"

definition pmmap_insert :: "u32 \<Rightarrow> u32 \<Rightarrow> u32 \<Rightarrow> ('z mboot_state_scheme, unit) kern" where
  "pmmap_insert start e type =
     kbind pmmap_alloc_slot (\<lambda>ok.
       if \<not> ok then kfail (KERN_PANIC ''More than 128 E820 entries.'')
       else kmodify (\<lambda>s. s\<lparr>pmmap_list :=
              slist_insert \<lparr>pm_start = start, pm_end = e, pm_type = type\<rparr> (pmmap_list s)\<rparr>))"

text \<open>
  Step 1 of \<^verbatim>\<open>pmmap_merge\<close>. After a merge the loop moves on to the slot behind the
  merged pair, as \<^verbatim>\<open>SLIST_FOREACH\<close> does.
\<close>

fun merge_step1 :: "pmmap list \<Rightarrow> pmmap list" where
  "merge_step1 (slot # next_slot # rest) =
     (if pm_start slot \<le> pm_start next_slot \<and> pm_start next_slot \<le> pm_end slot \<and>
         pm_type slot = pm_type next_slot
      then slot\<lparr>pm_end := max (pm_end slot) (pm_end next_slot)\<rparr> # merge_step1 rest
      else slot # merge_step1 (next_slot # rest))"
| "merge_step1 slots = slots"

text \<open>Step 2: each slot is appended to the sublist of its type.\<close>

fun merge_step2 :: "pmmap list \<Rightarrow> (pmmap_type \<Rightarrow> pmmap list) \<Rightarrow> fault + (pmmap_type \<Rightarrow> pmmap list)" where
  "merge_step2 [] sub = Inr sub"
| "merge_step2 (slot # rest) sub =
     (case pmmap_sublist_nr (pm_type slot) of
        None \<Rightarrow> Inl (KERN_ASSERT ''sublist_nr != -1'')
      | Some nr \<Rightarrow> merge_step2 rest (sub(nr := sub nr @ [slot])))"

definition pmmap_merge :: "('z mboot_state_scheme, unit) kern" where
  "pmmap_merge s =
     (let slots = merge_step1 (pmmap_list s) in
      case merge_step2 slots (pmmap_sublist s) of
        Inl e \<Rightarrow> Inl e
      | Inr sub \<Rightarrow>
          Inr ((), s\<lparr>pmmap_list := slots, pmmap_sublist := sub,
            max_usable_memory :=
              (if filter (\<lambda>p. pm_type p = MEM_RAM) slots \<noteq> []
               then pm_end (last (filter (\<lambda>p. pm_type p = MEM_RAM) slots))
               else max_usable_memory s)\<rparr>))"

text \<open>The body of the loop of \<^verbatim>\<open>pmmap_init\<close> over the boot loader's entries.\<close>

definition e820_end :: "mboot_mmap \<Rightarrow> u32" where
  "e820_end p =
     (let start = base_addr_low p in
      if length_high p \<noteq> 0 \<or> length_low p \<ge> 0xffffffff - start then 0xffffffff
      else start + length_low p)"

definition pmmap_init_entry :: "mboot_mmap \<Rightarrow> ('z mboot_state_scheme, unit) kern" where
  "pmmap_init_entry p =
     (if base_addr_high p \<noteq> 0 then kret ()
      else pmmap_insert (base_addr_low p) (e820_end p) (mm_type p))"

fun pmmap_init_loop :: "mboot_mmap list \<Rightarrow> ('z mboot_state_scheme, unit) kern" where
  "pmmap_init_loop [] = kret ()"
| "pmmap_init_loop (p # ps) = kseq (pmmap_init_entry p) (pmmap_init_loop ps)"

definition PAGESIZE :: u32 where
  "PAGESIZE = 4096"

definition rounddown :: "u32 \<Rightarrow> u32 \<Rightarrow> u32" where
  "rounddown a n = a - a mod n"

text \<open>
  \<^verbatim>\<open>pmmap_init\<close>; the argument holds the entries at \<^verbatim>\<open>mbi->mmap_addr\<close>, one for each
  \<^verbatim>\<open>sizeof(mboot_mmap_t)\<close> bytes below \<^verbatim>\<open>mbi->mmap_length\<close>.
\<close>

definition pmmap_init :: "mboot_mmap list \<Rightarrow> ('z mboot_state_scheme, unit) kern" where
  "pmmap_init ps =
     kseq (kmodify (\<lambda>s. s\<lparr>pmmap_list := [], pmmap_sublist := (\<lambda>_. [])\<rparr>))
    (kseq (pmmap_init_loop ps)
    (kseq pmmap_merge
    (kseq (kmodify (\<lambda>s. s\<lparr>pmmap_nentries := pmmap_nentries s + of_nat (length (pmmap_list s))\<rparr>))
          (kmodify (\<lambda>s. s\<lparr>mem_npages := rounddown (max_usable_memory s) PAGESIZE div PAGESIZE\<rparr>)))))"

definition get_size :: "'z mboot_state_scheme \<Rightarrow> u32" where
  "get_size s = pmmap_nentries s"

text \<open>
  The accessors count along the list; \<open>None\<close> stands for the null slot and for the
  guard \<^verbatim>\<open>i == pmmap_nentries\<close>.
\<close>

fun slist_at :: "pmmap list \<Rightarrow> u32 \<Rightarrow> u32 \<Rightarrow> u32 \<Rightarrow> pmmap option" where
  "slist_at [] i idx n = None"
| "slist_at (slot # rest) i idx n =
     (if i = idx then (if i = n then None else Some slot) else slist_at rest (i + 1) idx n)"

definition pmmap_at :: "'z mboot_state_scheme \<Rightarrow> u32 \<Rightarrow> pmmap option" where
  "pmmap_at s idx = slist_at (pmmap_list s) 0 idx (pmmap_nentries s)"

definition get_mms :: "'z mboot_state_scheme \<Rightarrow> u32 \<Rightarrow> u32" where
  "get_mms s idx = (case pmmap_at s idx of None \<Rightarrow> 0 | Some slot \<Rightarrow> pm_start slot)"

definition get_mml :: "'z mboot_state_scheme \<Rightarrow> u32 \<Rightarrow> u32" where
  "get_mml s idx = (case pmmap_at s idx of None \<Rightarrow> 0 | Some slot \<Rightarrow> pm_end slot - pm_start slot)"

definition is_usable :: "'z mboot_state_scheme \<Rightarrow> u32 \<Rightarrow> u32" where
  "is_usable s idx =
     (case pmmap_at s idx of None \<Rightarrow> 0 | Some slot \<Rightarrow> if pm_type slot = MEM_RAM then 1 else 0)"

section \<open>The table is sorted and keeps the memory map\<close>

definition pm_sorted :: "pmmap list \<Rightarrow> bool" where
  "pm_sorted slots \<longleftrightarrow> sorted (map pm_start slots)"

definition pm_ranges_ok :: "pmmap list \<Rightarrow> bool" where
  "pm_ranges_ok slots \<longleftrightarrow> (\<forall>p \<in> set slots. pm_start p \<le> pm_end p)"

text \<open>An address covered by a slot of a type.\<close>

definition pm_covers :: "pmmap list \<Rightarrow> u32 \<Rightarrow> u32 \<Rightarrow> bool" where
  "pm_covers slots t a \<longleftrightarrow> (\<exists>p \<in> set slots. pm_type p = t \<and> pm_start p \<le> a \<and> a < pm_end p)"

text \<open>An address covered by an entry of the boot loader below 4 GB.\<close>

definition e820_covers :: "mboot_mmap list \<Rightarrow> u32 \<Rightarrow> u32 \<Rightarrow> bool" where
  "e820_covers ps t a \<longleftrightarrow>
     (\<exists>p \<in> set ps. base_addr_high p = 0 \<and> mm_type p = t \<and> base_addr_low p \<le> a \<and> a < e820_end p)"

lemma set_slist_insert [simp]: "set (slist_insert p slots) = insert p (set slots)"
  by (induction p slots rule: slist_insert.induct) auto

lemma length_slist_insert [simp]: "length (slist_insert p slots) = Suc (length slots)"
  by (induction p slots rule: slist_insert.induct) auto

lemma slist_insert_sorted: "pm_sorted slots \<Longrightarrow> pm_sorted (slist_insert p slots)"
  unfolding pm_sorted_def
  by (induction p slots rule: slist_insert.induct) (auto simp: not_less)

lemma pm_sorted_Cons:
  "pm_sorted (p # slots) \<longleftrightarrow> (\<forall>q \<in> set slots. pm_start p \<le> pm_start q) \<and> pm_sorted slots"
  by (simp add: pm_sorted_def)

lemma merge_step1_ge:
  "\<forall>p \<in> set slots. b \<le> pm_start p \<Longrightarrow> \<forall>p \<in> set (merge_step1 slots). b \<le> pm_start p"
  by (induction slots rule: merge_step1.induct) auto

lemma merge_step1_sorted: "pm_sorted slots \<Longrightarrow> pm_sorted (merge_step1 slots)"
proof (induction slots rule: merge_step1.induct)
  case (1 slot next_slot rest)
  let ?c = "pm_start slot \<le> pm_start next_slot \<and> pm_start next_slot \<le> pm_end slot \<and>
    pm_type slot = pm_type next_slot"
  have ge: "\<forall>p \<in> set (next_slot # rest). pm_start slot \<le> pm_start p"
    and "pm_sorted (next_slot # rest)" and "pm_sorted rest"
    using "1.prems" unfolding pm_sorted_Cons by blast+
  show ?case
  proof (cases ?c)
    case True
    have "\<forall>p \<in> set (merge_step1 rest). pm_start slot \<le> pm_start p"
      using ge by (intro merge_step1_ge) simp
    moreover have "pm_sorted (merge_step1 rest)" using True \<open>pm_sorted rest\<close> by (rule "1.IH"(1))
    ultimately show ?thesis using True by (simp add: pm_sorted_Cons)
  next
    case False
    have "pm_sorted (merge_step1 (next_slot # rest))"
      using False \<open>pm_sorted (next_slot # rest)\<close> by (rule "1.IH"(2))
    then show ?thesis
      using False merge_step1_ge [OF ge] by (simp only: merge_step1.simps if_False pm_sorted_Cons)
  qed
qed simp_all

lemma merge_step1_ranges_ok: "pm_ranges_ok slots \<Longrightarrow> pm_ranges_ok (merge_step1 slots)"
  by (induction slots rule: merge_step1.induct) (auto simp: pm_ranges_ok_def le_max_iff_disj)

lemma pm_covers_Cons:
  "pm_covers (p # slots) t a \<longleftrightarrow>
     pm_type p = t \<and> pm_start p \<le> a \<and> a < pm_end p \<or> pm_covers slots t a"
  by (auto simp: pm_covers_def)

text \<open>Merging two touching ranges of one type covers the same addresses.\<close>

lemma merge_step1_covers:
  "pm_covers (merge_step1 slots) t a = pm_covers slots t a"
proof (induction slots rule: merge_step1.induct)
  case (1 slot next_slot rest)
  then show ?case by (auto simp: pm_covers_Cons less_max_iff_disj)
qed auto

lemma merge_step1_length: "length (merge_step1 slots) \<le> length slots"
  by (induction slots rule: merge_step1.induct) auto

lemma e820_range_ok: "base_addr_low p \<le> e820_end p"
proof -
  let ?b = "base_addr_low p" and ?l = "length_low p"
  have b: "?b \<le> 0xffffffff" by (rule u32_le_max)
  moreover have "?b \<le> ?b + ?l" if "?l < 0xffffffff - ?b"
  proof -
    have "unat ?l < unat (0xffffffff :: u32) - unat ?b"
      using that unat_sub_exact [OF b] by (simp add: word_less_nat_alt)
    then have "unat (?b + ?l) = unat ?b + unat ?l" by (intro unat_add_exact) simp
    then show ?thesis by (simp add: word_le_nat_alt)
  qed
  ultimately show ?thesis by (auto simp: e820_end_def Let_def not_le)
qed

text \<open>What the loop over the entries leaves in the table, as a pure function of the entries.\<close>

definition e820_slot :: "mboot_mmap \<Rightarrow> pmmap" where
  "e820_slot p = \<lparr>pm_start = base_addr_low p, pm_end = e820_end p, pm_type = mm_type p\<rparr>"

primrec e820_insert :: "mboot_mmap list \<Rightarrow> pmmap list \<Rightarrow> pmmap list" where
  "e820_insert [] slots = slots"
| "e820_insert (p # ps) slots =
     e820_insert ps (if base_addr_high p = 0 then slist_insert (e820_slot p) slots else slots)"

lemma e820_insert_sorted: "pm_sorted slots \<Longrightarrow> pm_sorted (e820_insert ps slots)"
  by (induction ps arbitrary: slots) (auto simp: slist_insert_sorted)

lemma set_e820_insert:
  "set (e820_insert ps slots) = set slots \<union> e820_slot ` {p \<in> set ps. base_addr_high p = 0}"
  by (induction ps arbitrary: slots) auto

lemma length_e820_insert: "length (e820_insert ps slots) \<le> length slots + length ps"
proof (induction ps arbitrary: slots)
  case (Cons p ps)
  show ?case
    using Cons [of slots] Cons [of "slist_insert (e820_slot p) slots"] by auto
qed simp

lemma e820_insert_ranges_ok: "pm_ranges_ok slots \<Longrightarrow> pm_ranges_ok (e820_insert ps slots)"
  by (auto simp: pm_ranges_ok_def set_e820_insert e820_slot_def e820_range_ok)

lemma e820_insert_covers:
  "pm_covers (e820_insert ps slots) ty a \<longleftrightarrow> pm_covers slots ty a \<or> e820_covers ps ty a"
  unfolding pm_covers_def e820_covers_def set_e820_insert bex_Un bex_simps
  by (auto simp: e820_slot_def)

lemma pmmap_init_loop_ok:
  "pmmap_slots_next_free s + length ps \<le> 128 \<Longrightarrow>
     \<exists>n. pmmap_init_loop ps s =
       Inr ((), s\<lparr>pmmap_slots_next_free := n, pmmap_list := e820_insert ps (pmmap_list s)\<rparr>)"
proof (induction ps arbitrary: s)
  case Nil
  have "s = s\<lparr>pmmap_slots_next_free := pmmap_slots_next_free s, pmmap_list := pmmap_list s\<rparr>" by simp
  then show ?case by (metis e820_insert.simps(1) kret_apply pmmap_init_loop.simps(1))
next
  case (Cons p ps)
  let ?s = "if base_addr_high p = 0
     then s\<lparr>pmmap_slots_next_free := Suc (pmmap_slots_next_free s),
            pmmap_list := slist_insert (e820_slot p) (pmmap_list s)\<rparr> else s"
  have "pmmap_init_entry p s = Inr ((), ?s)"
    using Cons.prems
    by (simp add: pmmap_init_entry_def pmmap_insert_def pmmap_alloc_slot_def e820_slot_def)
  moreover have "pmmap_slots_next_free ?s + length ps \<le> 128" using Cons.prems by simp
  ultimately show ?case using Cons.IH [of ?s] by auto
qed

text \<open>Step 2 succeeds exactly when every slot has a known type.\<close>

lemma merge_step2_ok:
  "\<forall>p \<in> set slots. pmmap_sublist_nr (pm_type p) \<noteq> None \<Longrightarrow>
     merge_step2 slots sub =
       Inr (\<lambda>nr. sub nr @ filter (\<lambda>p. pmmap_sublist_nr (pm_type p) = Some nr) slots)"
  by (induction slots arbitrary: sub) (auto simp: fun_eq_iff)

lemma merge_step1_types: "pm_type ` set (merge_step1 slots) \<subseteq> pm_type ` set slots"
  by (induction slots rule: merge_step1.induct) auto

definition known_types :: "mboot_mmap list \<Rightarrow> bool" where
  "known_types ps \<longleftrightarrow> (\<forall>p \<in> set ps. pmmap_sublist_nr (mm_type p) \<noteq> None)"

definition pmmap_final :: "mboot_mmap list \<Rightarrow> pmmap list" where
  "pmmap_final ps = merge_step1 (e820_insert ps [])"

lemma pmmap_final_types:
  "known_types ps \<Longrightarrow> p \<in> set (pmmap_final ps) \<Longrightarrow> pmmap_sublist_nr (pm_type p) \<noteq> None"
  using merge_step1_types [of "e820_insert ps []"]
  unfolding pmmap_final_def known_types_def set_e820_insert e820_slot_def by fastforce

lemma pmmap_merge_ok:
  assumes "\<And>p. p \<in> set (merge_step1 (pmmap_list s)) \<Longrightarrow> pmmap_sublist_nr (pm_type p) \<noteq> None"
  shows "\<exists>t. pmmap_merge s = Inr ((), t) \<and> pmmap_list t = merge_step1 (pmmap_list s) \<and>
     pmmap_nentries t = pmmap_nentries s \<and> cur_kstack t = cur_kstack s \<and>
     pcpu_tbl t = pcpu_tbl s \<and> mboot_state.more t = mboot_state.more s"
  using assms by (simp add: pmmap_merge_def Let_def merge_step2_ok)

lemma pmmap_init_ok:
  assumes "pmmap_slots_next_free s + length ps \<le> 128" "known_types ps"
  shows "\<exists>t. pmmap_init ps s = Inr ((), t) \<and> pmmap_list t = pmmap_final ps \<and>
     pmmap_nentries t = pmmap_nentries s + of_nat (length (pmmap_final ps)) \<and>
     cur_kstack t = cur_kstack s \<and> pcpu_tbl t = pcpu_tbl s \<and> mboot_state.more t = mboot_state.more s"
proof -
  let ?s0 = "s\<lparr>pmmap_list := [], pmmap_sublist := (\<lambda>_. [])\<rparr>"
  obtain n where "pmmap_init_loop ps ?s0 =
     Inr ((), ?s0\<lparr>pmmap_slots_next_free := n, pmmap_list := e820_insert ps (pmmap_list ?s0)\<rparr>)"
    using pmmap_init_loop_ok [of ?s0 ps] assms(1) by auto
  then have 1: "pmmap_init_loop ps ?s0 =
     Inr ((), ?s0\<lparr>pmmap_slots_next_free := n, pmmap_list := e820_insert ps []\<rparr>)" by simp
  show ?thesis
    using pmmap_merge_ok [of "?s0\<lparr>pmmap_slots_next_free := n, pmmap_list := e820_insert ps []\<rparr>"]
      1 pmmap_final_types [OF assms(2)]
    by (auto simp: pmmap_init_def pmmap_final_def)
qed

lemma pmmap_final_sorted: "pm_sorted (pmmap_final ps)"
  unfolding pmmap_final_def
  by (intro merge_step1_sorted e820_insert_sorted) (simp add: pm_sorted_def)

lemma pmmap_final_ranges_ok: "pm_ranges_ok (pmmap_final ps)"
  unfolding pmmap_final_def
  by (intro merge_step1_ranges_ok e820_insert_ranges_ok) (simp add: pm_ranges_ok_def)

lemma pmmap_final_covers: "pm_covers (pmmap_final ps) ty a = e820_covers ps ty a"
  by (simp add: pmmap_final_def merge_step1_covers e820_insert_covers) (simp add: pm_covers_def)

lemma pmmap_final_length: "length (pmmap_final ps) \<le> length ps"
  using merge_step1_length [of "e820_insert ps []"] length_e820_insert [of ps "[]"]
  by (simp add: pmmap_final_def)

section \<open>Reading the table\<close>

definition pmmap_ok :: "'z mboot_state_scheme \<Rightarrow> bool" where
  "pmmap_ok s \<longleftrightarrow> pmmap_nentries s = of_nat (length (pmmap_list s)) \<and>
     length (pmmap_list s) \<le> 128 \<and> pm_sorted (pmmap_list s) \<and> pm_ranges_ok (pmmap_list s)"

lemma slist_at_nth:
  assumes "unat i + length slots < 2 ^ 32" "i \<le> idx"
    and "n = i + of_nat (length slots)"
  shows "slist_at slots i idx n =
    (if unat idx - unat i < length slots then Some (slots ! (unat idx - unat i)) else None)"
  using assms
proof (induction slots arbitrary: i)
  case Nil
  then show ?case by simp
next
  case (Cons p slots)
  have i: "unat (i + 1) = Suc (unat i)"
    using Cons.prems(1) by (simp add: unat_word_ariths)
  show ?case
  proof (cases "i = idx")
    case True
    have "i \<noteq> n"
    proof
      assume "i = n"
      then have "of_nat (Suc (length slots)) = (0 :: u32)" using Cons.prems(3) by simp
      then have "2 ^ LENGTH(32) dvd Suc (length slots)" unfolding word_of_nat_eq_0_iff .
      then show False using Cons.prems(1) by (auto dest: dvd_imp_le)
    qed
    with True show ?thesis by simp
  next
    case False
    then have "i + 1 \<le> idx" using Cons.prems(2) by (intro Suc_le_of_less) simp
    moreover have "unat idx - unat i = Suc (unat idx - Suc (unat i))"
      using \<open>i + 1 \<le> idx\<close> i by (simp add: word_le_nat_alt)
    ultimately show ?thesis
      using False Cons.IH [of "i + 1"] Cons.prems i by simp
  qed
qed

lemma pmmap_at_nth:
  "pmmap_ok s \<Longrightarrow> pmmap_at s idx =
     (if unat idx < length (pmmap_list s) then Some (pmmap_list s ! unat idx) else None)"
  using slist_at_nth [of 0 "pmmap_list s" idx "pmmap_nentries s"]
  by (simp add: pmmap_at_def pmmap_ok_def)

lemma unat_get_size: "pmmap_ok s \<Longrightarrow> unat (get_size s) = length (pmmap_list s)"
  by (simp add: get_size_def pmmap_ok_def unat_of_nat)

text \<open>The start and the length of a row never wrap around the address space.\<close>

lemma get_mms_mml_no_wrap:
  assumes "pmmap_ok s"
  shows "unat (get_mms s i + get_mml s i) = unat (get_mms s i) + unat (get_mml s i)"
    and "i < get_size s \<Longrightarrow> get_mms s i + get_mml s i = pm_end (pmmap_list s ! unat i)"
proof -
  show "unat (get_mms s i + get_mml s i) = unat (get_mms s i) + unat (get_mml s i)"
  proof (cases "unat i < length (pmmap_list s)")
    case True
    then have le: "pm_start (pmmap_list s ! unat i) \<le> pm_end (pmmap_list s ! unat i)"
      using assms by (simp add: pmmap_ok_def pm_ranges_ok_def)
    then have "unat (pm_end (pmmap_list s ! unat i)) =
        unat (pm_start (pmmap_list s ! unat i)) +
        unat (pm_end (pmmap_list s ! unat i) - pm_start (pmmap_list s ! unat i))"
      by (simp add: unat_sub_exact word_le_nat_alt)
    with True assms show ?thesis
      by (simp add: get_mms_def get_mml_def pmmap_at_nth)
  next
    case False
    with assms show ?thesis by (simp add: get_mms_def get_mml_def pmmap_at_nth)
  qed
  assume "i < get_size s"
  then have "unat i < length (pmmap_list s)"
    using unat_get_size [OF assms] by (simp add: word_less_nat_alt)
  then show "get_mms s i + get_mml s i = pm_end (pmmap_list s ! unat i)"
    using assms by (simp add: get_mms_def get_mml_def pmmap_at_nth)
qed

section \<open>Properties\<close>


text \<open>A machine that has just entered the kernel, and the map of a machine with 2 GB.\<close>

definition boot_state :: mboot_state where
  "boot_state =
     \<lparr>cur_kstack = \<lparr>ks_magic = SPIN_KSTACK_MAGIC, ks_cpu_idx = 0\<rparr>, pcpu_tbl = (\<lambda>_. zero_pcpu),
      pmmap_slots_next_free = 0, pmmap_list = [], pmmap_sublist = (\<lambda>_. []),
      max_usable_memory = 0, mem_npages = 0, pmmap_nentries = 0\<rparr>"

definition e820_entry :: "u32 \<Rightarrow> u32 \<Rightarrow> u32 \<Rightarrow> mboot_mmap" where
  "e820_entry base len ty =
     \<lparr>mm_size = 20, base_addr_low = base, base_addr_high = 0, length_low = len, length_high = 0,
      mm_type = ty\<rparr>"

definition e820_2GB :: "mboot_mmap list" where
  "e820_2GB = [e820_entry 0x100000 0x7ff00000 1, e820_entry 0 0x9fc00 1, e820_entry 0x9fc00 0x60400 2]"


end
