(* ===== verification/MAT.thy ===== *)
theory MAT
  imports Mboot
begin

text \<open>
  Physical page allocation: \<^verbatim>\<open>kern/pmm/MATIntro\<close> (the allocation table and its getters and
  setters), \<^verbatim>\<open>kern/pmm/MATInit\<close> (its initialisation from the memory map) and
  \<^verbatim>\<open>kern/pmm/MATOp\<close> (\<^verbatim>\<open>palloc\<close> and \<^verbatim>\<open>pfree\<close>). The state adds the lock \<open>mem_lk\<close>, the
  number of pages, the allocation table \<open>AT\<close> and the static \<open>last_palloc_index\<close>.
\<close>

record ATStruct =
  perm :: u32
  allocated :: u32

record mat_state = mboot_state +
  mem_lk :: spinlock
  NUM_PAGES :: u32
  AT :: "u32 \<Rightarrow> ATStruct"
  last_palloc_index :: u32

definition AT_SIZE :: u32 where
  "AT_SIZE = 0x100000"

definition VM_USERLO :: u32 where
  "VM_USERLO = 0x40000000"

definition VM_USERHI :: u32 where
  "VM_USERHI = 0xF0000000"

definition VM_USERLO_PI :: u32 where
  "VM_USERLO_PI = 0x40000"

definition VM_USERHI_PI :: u32 where
  "VM_USERHI_PI = 0xF0000"

lemma VM_USER_PI:
  "VM_USERLO_PI = VM_USERLO div PAGESIZE" "VM_USERHI_PI = VM_USERHI div PAGESIZE"
  by (simp_all add: VM_USERLO_PI_def VM_USERHI_PI_def VM_USERLO_def VM_USERHI_def PAGESIZE_def)

section \<open>MATIntro\<close>

definition mem_spinlock_init :: "('z mat_state_scheme, unit) kern" where
  "mem_spinlock_init = kmodify (\<lambda>s. s\<lparr>mem_lk := spinlock_init (mem_lk s)\<rparr>)"

definition mem_lock :: "('z mat_state_scheme, unit) kern" where
  "mem_lock = klock_op spinlock_acquire mem_lk (\<lambda>l s. s\<lparr>mem_lk := l\<rparr>)"

definition mem_unlock :: "('z mat_state_scheme, unit) kern" where
  "mem_unlock = klock_op spinlock_release mem_lk (\<lambda>l s. s\<lparr>mem_lk := l\<rparr>)"

definition get_nps :: "('z mat_state_scheme, u32) kern" where
  "get_nps = kgets NUM_PAGES"

definition set_nps :: "u32 \<Rightarrow> ('z mat_state_scheme, unit) kern" where
  "set_nps nps = kmodify (\<lambda>s. s\<lparr>NUM_PAGES := nps\<rparr>)"

definition at_is_norm :: "u32 \<Rightarrow> ('z mat_state_scheme, u32) kern" where
  "at_is_norm page_index =
     kseq (kindex AT_SIZE page_index)
    (kbind (kgets (\<lambda>s. perm (AT s page_index))) (\<lambda>tperm.
       kret (if tperm = 0 then 0 else if tperm = 1 then 0 else 1)))"

definition at_set_perm :: "u32 \<Rightarrow> u32 \<Rightarrow> ('z mat_state_scheme, unit) kern" where
  "at_set_perm page_index norm_val =
     kseq (kindex AT_SIZE page_index)
       (kmodify (\<lambda>s. s\<lparr>AT := (AT s)(page_index := \<lparr>perm = norm_val, allocated = 0\<rparr>)\<rparr>))"

definition at_is_allocated :: "u32 \<Rightarrow> ('z mat_state_scheme, u32) kern" where
  "at_is_allocated page_index =
     kseq (kindex AT_SIZE page_index)
    (kbind (kgets (\<lambda>s. allocated (AT s page_index))) (\<lambda>a.
       kret (if a = 0 then 0 else 1)))"

definition at_set_allocated :: "u32 \<Rightarrow> u32 \<Rightarrow> ('z mat_state_scheme, unit) kern" where
  "at_set_allocated page_index a =
     kseq (kindex AT_SIZE page_index)
       (kmodify (\<lambda>s. s\<lparr>AT := (AT s)(page_index := AT s page_index\<lparr>allocated := a\<rparr>)\<rparr>))"

section \<open>MATInit\<close>

text \<open>The first loop of \<^verbatim>\<open>pmem_init\<close>: one past the highest page of any row.\<close>

function nps_loop :: "'z mboot_state_scheme \<Rightarrow> u32 \<Rightarrow> u32 \<Rightarrow> u32 \<Rightarrow> u32" where
  "nps_loop st i sz nps =
     (if i < sz then
        let s = get_mms st i; l = get_mml st i; maxs = (s + l) div PAGESIZE + 1 in
        nps_loop st (i + 1) sz (if maxs > nps then maxs else nps)
      else nps)"
  by pat_completeness auto
termination
  by (relation "measure (\<lambda>(st, i, sz, nps). unat sz - unat i)")
     (auto simp: unat_Suc_less word_less_nat_alt)

declare nps_loop.simps [simp del]

text \<open>The inner loop: scan the rows for the first that holds the whole of page \<open>i\<close>.\<close>

function row_loop ::
    "'z mboot_state_scheme \<Rightarrow> u32 \<Rightarrow> u32 \<Rightarrow> u32 \<Rightarrow> u32 \<Rightarrow> u32 \<Rightarrow> u32 \<times> u32" where
  "row_loop st i j sz flag isnorm =
     (if j < sz \<and> flag = 0 then
        let s = get_mms st j; l = get_mml st j; isnorm = is_usable st j in
        row_loop st i (j + 1) sz
          (if s \<le> i * PAGESIZE \<and> l + s \<ge> (i + 1) * PAGESIZE then 1 else flag) isnorm
      else (flag, isnorm))"
  by pat_completeness auto
termination
  by (relation "measure (\<lambda>(st, i, j, sz, flag, isnorm). unat sz - unat j)")
     (auto simp: unat_Suc_less word_less_nat_alt)

declare row_loop.simps [simp del]

definition page_perm :: "'z mboot_state_scheme \<Rightarrow> u32 \<Rightarrow> u32 \<Rightarrow> u32" where
  "page_perm st sz i =
     (if i < VM_USERLO_PI \<or> i \<ge> VM_USERHI_PI then 1
      else let (flag, isnorm) = row_loop st i 0 sz 0 0 in
           if flag = 1 \<and> isnorm = 1 then 2 else 0)"

definition init_page :: "u32 \<Rightarrow> u32 \<Rightarrow> ('z mat_state_scheme, unit) kern" where
  "init_page sz i = kbind (kgets (\<lambda>s. page_perm s sz i)) (\<lambda>p. at_set_perm i p)"

text \<open>
  \<^verbatim>\<open>devinit\<close> programs the segment registers, the console, the interrupt controllers and the
  disk, and fills the memory map; it is an argument, and the state it leaves is described
  by \<open>pmmap_ok\<close>.
\<close>

definition pmem_init ::
    "(u32 \<Rightarrow> ('z mat_state_scheme, unit) kern) \<Rightarrow> u32 \<Rightarrow> ('z mat_state_scheme, unit) kern" where
  "pmem_init devinit mbi_addr =
     kseq (devinit mbi_addr)
    (kseq mem_spinlock_init
    (kbind (kgets get_size) (\<lambda>sz.
     kbind (kgets (\<lambda>s. nps_loop s 0 sz 0)) (\<lambda>nps.
     kseq (set_nps nps) (kfor 0 nps (init_page sz))))))"

section \<open>MATOp\<close>

function palloc_loop :: "u32 \<Rightarrow> u32 \<Rightarrow> u32 \<Rightarrow> ('z mat_state_scheme, u32) kern" where
  "palloc_loop tnps palloc_index palloc_free_index =
     (if palloc_index < tnps \<and> palloc_free_index = tnps then
        kbind (at_is_norm palloc_index) (\<lambda>palloc_is_norm.
          if palloc_is_norm = 1 then
            kbind (at_is_allocated palloc_index) (\<lambda>palloc_cur_at.
              palloc_loop tnps (palloc_index + 1)
                (if palloc_cur_at = 0 then palloc_index else palloc_free_index))
          else palloc_loop tnps (palloc_index + 1) palloc_free_index)
      else kret palloc_free_index)"
  by pat_completeness auto
termination
  by (relation "measure (\<lambda>(tnps, i, f). unat tnps - unat i)")
     (auto simp: unat_Suc_less word_less_nat_alt)

declare palloc_loop.simps [simp del]

definition palloc :: "('z mat_state_scheme, u32) kern" where
  "palloc =
     kseq mem_lock
    (kbind get_nps (\<lambda>tnps.
     kbind (kgets last_palloc_index) (\<lambda>lst.
     kbind (palloc_loop tnps (lst + 1) tnps) (\<lambda>f.
     kbind (if f = tnps then kret 0 else kseq (at_set_allocated f 1) (kret f)) (\<lambda>r.
     kseq (kguard (tnps \<noteq> 0) DivByZero)
    (kseq (kmodify (\<lambda>s. s\<lparr>last_palloc_index := r mod tnps\<rparr>))
    (kseq mem_unlock (kret r))))))))"

definition pfree :: "u32 \<Rightarrow> ('z mat_state_scheme, unit) kern" where
  "pfree pfree_index = kseq mem_lock (kseq (at_set_allocated pfree_index 0) mem_unlock)"

section \<open>Allocation\<close>

text \<open>A page that \<^verbatim>\<open>palloc\<close> may hand out: permission above 1 and not allocated.\<close>

definition page_norm :: "'z mat_state_scheme \<Rightarrow> u32 \<Rightarrow> bool" where
  "page_norm s i \<longleftrightarrow> perm (AT s i) \<noteq> 0 \<and> perm (AT s i) \<noteq> 1"

definition page_avail :: "'z mat_state_scheme \<Rightarrow> u32 \<Rightarrow> bool" where
  "page_avail s i \<longleftrightarrow> page_norm s i \<and> allocated (AT s i) = 0"

definition mat_inv :: "'z mat_state_scheme \<Rightarrow> bool" where
  "mat_inv s \<longleftrightarrow> 0 < NUM_PAGES s \<and> NUM_PAGES s \<le> AT_SIZE \<and> last_palloc_index s < AT_SIZE \<and>
     lock_ready (cur_kstack s) (mem_lk s)"

lemma at_is_norm_ok [simp]:
  "i < AT_SIZE \<Longrightarrow> at_is_norm i s = Inr (if page_norm s i then 1 else 0, s)"
  by (simp add: at_is_norm_def page_norm_def)

lemma at_is_allocated_ok [simp]:
  "i < AT_SIZE \<Longrightarrow> at_is_allocated i s = Inr (if allocated (AT s i) = 0 then 0 else 1, s)"
  by (simp add: at_is_allocated_def)

lemma at_set_allocated_ok [simp]:
  "i < AT_SIZE \<Longrightarrow>
     at_set_allocated i a s = Inr ((), s\<lparr>AT := (AT s)(i := AT s i\<lparr>allocated := a\<rparr>)\<rparr>)"
  by (simp add: at_set_allocated_def)

lemma at_set_perm_ok [simp]:
  "i < AT_SIZE \<Longrightarrow>
     at_set_perm i p s = Inr ((), s\<lparr>AT := (AT s)(i := \<lparr>perm = p, allocated = 0\<rparr>)\<rparr>)"
  by (simp add: at_set_perm_def)

lemma palloc_loop_ok:
  assumes "i \<le> tnps" "tnps \<le> AT_SIZE"
  shows "\<exists>r. palloc_loop tnps i tnps s = Inr (r, s) \<and> i \<le> r \<and> r \<le> tnps \<and>
     (\<forall>j. i \<le> j \<longrightarrow> j < r \<longrightarrow> \<not> page_avail s j) \<and> (r < tnps \<longrightarrow> page_avail s r)"
  using assms(1)
proof (induction i rule: upto_induct)
  case finish
  then show ?case by (auto simp: palloc_loop.simps [of tnps tnps])
next
  case (step i)
  then have i: "i < AT_SIZE" using assms(2) by simp
  note unfold = palloc_loop.simps [of tnps i tnps]
  show ?case
  proof (cases "page_avail s i")
    case True
    then have "palloc_loop tnps i tnps s = palloc_loop tnps (i + 1) i s"
      using step.hyps i by (simp add: unfold page_avail_def)
    also have "\<dots> = Inr (i, s)"
      using less_imp_neq [OF step.hyps] by (simp add: palloc_loop.simps [of tnps "i + 1" i])
    finally show ?thesis using True step.hyps by (intro exI [of _ i]) auto
  next
    case False
    then have eq: "palloc_loop tnps i tnps s = palloc_loop tnps (i + 1) tnps s"
      using step.hyps i by (auto simp: unfold page_avail_def)
    obtain r where r: "palloc_loop tnps (i + 1) tnps s = Inr (r, s)" "i + 1 \<le> r" "r \<le> tnps"
      "\<forall>j. i + 1 \<le> j \<longrightarrow> j < r \<longrightarrow> \<not> page_avail s j" "r < tnps \<longrightarrow> page_avail s r"
      using step.IH by blast
    have "i < r" using r(2) unat_Suc_less [OF step.hyps] by (simp add: word_le_nat_alt word_less_nat_alt)
    moreover have "\<not> page_avail s j" if "i \<le> j" "j < r" for j
    proof (cases "j = i")
      case False
      then have "i + 1 \<le> j" using that(1) by (intro Suc_le_of_less) simp
      then show ?thesis using r(4) that(2) by blast
    qed (use \<open>\<not> page_avail s i\<close> in simp)
    ultimately show ?thesis using eq r(1,3,5) by (intro exI [of _ r]) auto
  qed
qed

text \<open>
  The result of \<^verbatim>\<open>palloc\<close>: the first available page above the last one handed out, which
  it marks allocated, or 0 when there is none up to the end of memory.
\<close>

definition palloc_post :: "'z mat_state_scheme \<Rightarrow> u32 \<Rightarrow> 'z mat_state_scheme \<Rightarrow> bool" where
  "palloc_post s r t \<longleftrightarrow>
     (if r = 0 then
        (\<forall>j. last_palloc_index s < j \<longrightarrow> j < NUM_PAGES s \<longrightarrow> \<not> page_avail s j) \<and>
        t = s\<lparr>last_palloc_index := 0, mem_lk := spinlock_release_A (mem_lk s)\<rparr>
      else
        last_palloc_index s < r \<and> r < NUM_PAGES s \<and> page_avail s r \<and>
        (\<forall>j. last_palloc_index s < j \<longrightarrow> j < r \<longrightarrow> \<not> page_avail s j) \<and>
        t = s\<lparr>AT := (AT s)(r := AT s r\<lparr>allocated := 1\<rparr>), last_palloc_index := r,
              mem_lk := spinlock_release_A (mem_lk s)\<rparr>)"

lemma Suc_le_iff: "(i::'a::len word) < n \<Longrightarrow> i + 1 \<le> j \<longleftrightarrow> i < j"
  by (simp add: unat_Suc_less word_le_nat_alt word_less_nat_alt Suc_le_eq)

lemma palloc_ok:
  assumes "mat_inv s"
  shows "\<exists>r t. palloc s = Inr (r, t) \<and> palloc_post s r t \<and> mat_inv t"
proof -
  let ?n = "NUM_PAGES s" and ?l = "last_palloc_index s"
  define s1 where "s1 = s\<lparr>mem_lk := taken (cur_kstack s) (mem_lk s)\<rparr>"
  have n: "?n \<noteq> 0" "?n \<le> AT_SIZE" and l: "?l < AT_SIZE"
    and lk: "lock_ready (cur_kstack s) (mem_lk s)"
    using assms by (auto simp: mat_inv_def)
  have lock: "mem_lock s = Inr ((), s1)" using lk by (simp add: mem_lock_def s1_def)
  have av: "page_avail s1 j = page_avail s j" for j
    by (simp add: page_avail_def page_norm_def s1_def)
  have suc: "?l + 1 \<le> j \<longleftrightarrow> ?l < j" for j using l by (rule Suc_le_iff)
  obtain f where f: "palloc_loop ?n (?l + 1) ?n s1 = Inr (f, s1)"
      "f \<noteq> ?n \<Longrightarrow> ?l < f \<and> f < ?n \<and> page_avail s f"
      "\<And>j. ?l < j \<Longrightarrow> j < f \<Longrightarrow> \<not> page_avail s j"
  proof (cases "?l + 1 \<le> ?n")
    case True
    then obtain r where "palloc_loop ?n (?l + 1) ?n s1 = Inr (r, s1)" "?l + 1 \<le> r" "r \<le> ?n"
      "\<forall>j. ?l + 1 \<le> j \<longrightarrow> j < r \<longrightarrow> \<not> page_avail s1 j" "r < ?n \<longrightarrow> page_avail s1 r"
      using palloc_loop_ok [OF True n(2), of s1] by blast
    then show thesis using that [of r] by (auto simp: av suc)
  next
    case False
    then have "\<not> ?l + 1 < ?n" by simp
    then have "palloc_loop ?n (?l + 1) ?n s1 = Inr (?n, s1)"
      by (simp add: palloc_loop.simps [of ?n "?l + 1"] del: not_less)
    moreover have "\<not> (?l < j \<and> j < ?n)" for j using False suc [of j] by auto
    ultimately show thesis using that [of ?n] by blast
  qed
  show ?thesis
  proof (cases "f = ?n")
    case True
    let ?t = "s\<lparr>last_palloc_index := 0, mem_lk := spinlock_release_A (mem_lk s)\<rparr>"
    have "palloc s = Inr (0, ?t)"
      using lock f(1) True n(1)
      by (simp add: palloc_def get_nps_def mem_unlock_def s1_def)
    moreover have "palloc_post s 0 ?t" using f(3) True by (auto simp: palloc_post_def)
    moreover have "mat_inv ?t"
      using assms lk by (auto simp: mat_inv_def AT_SIZE_def lock_ready_magic)
    ultimately show ?thesis by blast
  next
    case False
    with f(2) have r: "?l < f" "f < ?n" "page_avail s f" "f < AT_SIZE" using n(2) by auto
    then have "f \<noteq> 0" "f mod ?n = f" by (auto simp: word_mod_less)
    let ?t = "s\<lparr>AT := (AT s)(f := AT s f\<lparr>allocated := 1\<rparr>), last_palloc_index := f,
               mem_lk := spinlock_release_A (mem_lk s)\<rparr>"
    have "palloc s = Inr (f, ?t)"
      using lock f(1) False n(1) r(4) \<open>f mod ?n = f\<close>
      by (simp add: palloc_def get_nps_def mem_unlock_def s1_def)
    moreover have "palloc_post s f ?t"
      using f(3) r \<open>f \<noteq> 0\<close> by (auto simp: palloc_post_def)
    moreover have "mat_inv ?t"
      using assms lk r by (auto simp: mat_inv_def lock_ready_magic)
    ultimately show ?thesis by blast
  qed
qed

text \<open>\<^verbatim>\<open>pfree\<close> clears the allocation flag of any page of the table and changes nothing else.\<close>

lemma pfree_ok:
  assumes "lock_ready (cur_kstack s) (mem_lk s)" "i < AT_SIZE"
  shows "pfree i s = Inr ((), s\<lparr>AT := (AT s)(i := AT s i\<lparr>allocated := 0\<rparr>),
           mem_lk := spinlock_release_A (mem_lk s)\<rparr>)"
  using assms by (simp add: pfree_def mem_lock_def mem_unlock_def)

lemma pfree_inv: "mat_inv s \<Longrightarrow> pfree i s = Inr (x, t) \<Longrightarrow> mat_inv t"
  by (auto simp: pfree_def mem_lock_def mem_unlock_def kern_Inr_iffs klock_acquire_iff
      mat_inv_def at_set_allocated_def lock_ready_magic split: if_splits)

section \<open>Initialisation of the allocation table\<close>

text \<open>A row holds page \<open>i\<close> as a whole.\<close>

definition holds_page :: "u32 \<Rightarrow> pmmap \<Rightarrow> bool" where
  "holds_page i p \<longleftrightarrow>
     unat (pm_start p) \<le> unat i * 4096 \<and> (unat i + 1) * 4096 \<le> unat (pm_end p)"

text \<open>
  What \<^verbatim>\<open>pmem_init\<close> promises for a page: kernel outside the user range; inside it, usable
  exactly when the first row that holds the whole page is usable RAM.
\<close>

definition page_class :: "pmmap list \<Rightarrow> u32 \<Rightarrow> u32" where
  "page_class slots i =
     (if i < VM_USERLO_PI \<or> i \<ge> VM_USERHI_PI then 1
      else case find (holds_page i) slots of
             None \<Rightarrow> 0
           | Some p \<Rightarrow> if pm_type p = MEM_RAM then 2 else 0)"

lemma row_test_iff:
  assumes "pmmap_ok st" "j < get_size st" "i < VM_USERHI_PI"
  shows "get_mms st j \<le> i * PAGESIZE \<and> get_mml st j + get_mms st j \<ge> (i + 1) * PAGESIZE \<longleftrightarrow>
    holds_page i (pmmap_list st ! unat j)"
proof -
  have i: "unat i < 0xF0000" using assms(3) by (simp add: VM_USERHI_PI_def word_less_nat_alt)
  have "unat (i * PAGESIZE) = unat i * 4096"
    using i by (subst unat_mult_exact) (auto simp: PAGESIZE_def)
  moreover have "unat ((i + 1) * PAGESIZE) = (unat i + 1) * 4096"
    using i unat_Suc_less [OF assms(3)] by (subst unat_mult_exact) (auto simp: PAGESIZE_def)
  moreover have "unat j < length (pmmap_list st)"
    using assms(2) unat_get_size [OF assms(1)] by (simp add: word_less_nat_alt)
  then have "get_mms st j = pm_start (pmmap_list st ! unat j)"
    using assms(1) by (simp add: get_mms_def pmmap_at_nth)
  moreover have "get_mml st j + get_mms st j = pm_end (pmmap_list st ! unat j)"
    using get_mms_mml_no_wrap(2) [OF assms(1,2)] by (simp add: add.commute)
  ultimately show ?thesis by (simp add: holds_page_def word_le_nat_alt)
qed

lemma row_loop_ok:
  assumes "pmmap_ok st" "i < VM_USERHI_PI" "j \<le> get_size st"
  shows "\<exists>n. row_loop st i j (get_size st) 0 m =
    (case find (holds_page i) (drop (unat j) (pmmap_list st)) of
       None \<Rightarrow> (0, n) | Some p \<Rightarrow> (1, if pm_type p = MEM_RAM then 1 else 0))"
  using assms(3)
proof (induction j arbitrary: m rule: upto_induct)
  case finish
  then show ?case
    using unat_get_size [OF assms(1)]
    by (simp add: row_loop.simps [of st i "get_size st"])
next
  case (step j)
  have j: "unat j < length (pmmap_list st)"
    using step.hyps unat_get_size [OF assms(1)] by (simp add: word_less_nat_alt)
  then have d: "drop (unat j) (pmmap_list st) =
      pmmap_list st ! unat j # drop (unat (j + 1)) (pmmap_list st)"
    using unat_Suc_less [OF step.hyps] by (simp add: Cons_nth_drop_Suc)
  have u: "is_usable st j = (if pm_type (pmmap_list st ! unat j) = MEM_RAM then 1 else 0)"
    using j assms(1) by (simp add: is_usable_def pmmap_at_nth)
  have eq: "row_loop st i j (get_size st) 0 m =
     row_loop st i (j + 1) (get_size st)
       (if holds_page i (pmmap_list st ! unat j) then 1 else 0) (is_usable st j)"
    using step.hyps row_test_iff [OF assms(1) step.hyps assms(2)]
    by (simp add: row_loop.simps [of st i j] Let_def)
  show ?case
  proof (cases "holds_page i (pmmap_list st ! unat j)")
    case True
    then show ?thesis
      unfolding eq d using u by (simp add: row_loop.simps [of st i "j + 1" _ 1])
  next
    case False
    then show ?thesis unfolding eq d using step.IH [of "is_usable st j"] by simp
  qed
qed

lemma page_perm_class:
  assumes "pmmap_ok st"
  shows "page_perm st (get_size st) i = page_class (pmmap_list st) i"
proof (cases "i < VM_USERLO_PI \<or> i \<ge> VM_USERHI_PI")
  case False
  then obtain n where "row_loop st i 0 (get_size st) 0 0 =
      (case find (holds_page i) (pmmap_list st) of
         None \<Rightarrow> (0, n) | Some p \<Rightarrow> (1, if pm_type p = MEM_RAM then 1 else 0))"
    using row_loop_ok [OF assms, of i 0 0] by (auto simp: not_le)
  with False show ?thesis
    by (simp add: page_perm_def page_class_def split: option.splits)
qed (simp add: page_perm_def page_class_def)

text \<open>The number of pages: one past the page in which the highest row ends.\<close>

definition row_pages :: "pmmap \<Rightarrow> u32" where
  "row_pages p = pm_end p div PAGESIZE + 1"

lemma nps_loop_fold:
  assumes "pmmap_ok st" "i \<le> get_size st"
  shows "nps_loop st i (get_size st) n =
    fold (\<lambda>p m. max m (row_pages p)) (drop (unat i) (pmmap_list st)) n"
  using assms(2)
proof (induction i arbitrary: n rule: upto_induct)
  case finish
  then show ?case
    using unat_get_size [OF assms(1)] by (simp add: nps_loop.simps [of st "get_size st"])
next
  case (step i)
  have i: "unat i < length (pmmap_list st)"
    using step.hyps unat_get_size [OF assms(1)] by (simp add: word_less_nat_alt)
  then have d: "drop (unat i) (pmmap_list st) =
      pmmap_list st ! unat i # drop (unat (i + 1)) (pmmap_list st)"
    using unat_Suc_less [OF step.hyps] by (simp add: Cons_nth_drop_Suc)
  have "nps_loop st i (get_size st) n =
     nps_loop st (i + 1) (get_size st) (max n (row_pages (pmmap_list st ! unat i)))"
    using step.hyps get_mms_mml_no_wrap(2) [OF assms(1) step.hyps]
    by (auto simp: nps_loop.simps [of st i] Let_def row_pages_def max_def)
  then show ?case unfolding d by (simp add: step.IH)
qed

lemma fold_max_ge:
  fixes f :: "'a \<Rightarrow> 'b::linorder"
  shows "n \<le> fold (\<lambda>p m. max m (f p)) xs n"
  by (induction xs arbitrary: n) (auto intro: order_trans [OF max.cobounded1])

lemma fold_max_upper:
  fixes f :: "'a \<Rightarrow> 'b::linorder"
  shows "x \<in> set xs \<Longrightarrow> f x \<le> fold (\<lambda>p m. max m (f p)) xs n"
  by (induction xs arbitrary: n) (auto intro: order_trans [OF max.cobounded2 fold_max_ge])

lemma fold_max_in:
  fixes f :: "'a \<Rightarrow> 'b::linorder"
  shows "fold (\<lambda>p m. max m (f p)) xs n \<in> insert n (f ` set xs)"
proof (induction xs arbitrary: n)
  case (Cons x xs)
  then show ?case using Cons [of "max n (f x)"] by (auto simp: max_def split: if_splits)
qed simp

lemma row_pages_bounds: "0 < row_pages p" "row_pages p \<le> AT_SIZE"
proof -
  have "unat (pm_end p div PAGESIZE) = unat (pm_end p) div 4096"
    by (simp add: unat_div PAGESIZE_def)
  then have d: "unat (pm_end p div PAGESIZE) < 0x100000"
    using unat_lt2p [of "pm_end p"] by simp
  then have "unat (row_pages p) = unat (pm_end p div PAGESIZE) + 1"
    unfolding row_pages_def by (subst unat_add_exact) auto
  with d show "0 < row_pages p" "row_pages p \<le> AT_SIZE"
    by (simp_all add: word_less_nat_alt word_le_nat_alt AT_SIZE_def)
qed

definition nps_of :: "pmmap list \<Rightarrow> u32" where
  "nps_of slots = fold (\<lambda>p m. max m (row_pages p)) slots 0"

lemma nps_of_le: "nps_of slots \<le> AT_SIZE"
  using fold_max_in [of row_pages slots 0] row_pages_bounds(2)
  by (auto simp: nps_of_def)

lemma nps_of_pos: "slots \<noteq> [] \<Longrightarrow> 0 < nps_of slots"
  using fold_max_upper [of "hd slots" slots row_pages 0] row_pages_bounds(1) [of "hd slots"]
  by (auto simp: nps_of_def)

lemma init_pages_ok:
  assumes "pmmap_ok s" "nps \<le> AT_SIZE"
  shows "\<exists>A. kfor 0 nps (init_page (get_size s)) s = Inr ((), s\<lparr>AT := A\<rparr>) \<and>
     (\<forall>i < nps. A i = \<lparr>perm = page_class (pmmap_list s) i, allocated = 0\<rparr>)"
proof -
  let ?I = "\<lambda>j t. \<exists>A. t = s\<lparr>AT := A\<rparr> \<and>
     (\<forall>i < j. A i = \<lparr>perm = page_class (pmmap_list s) i, allocated = 0\<rparr>)"
  have "\<exists>t. kfor 0 nps (init_page (get_size s)) s = Inr ((), t) \<and> ?I nps t"
  proof (rule kfor_rule [where Inv = ?I])
    show "?I 0 s" by (intro exI [of _ "AT s"]) simp
    fix j t
    assume j: "j < nps" and "?I j t"
    then obtain A where t: "t = s\<lparr>AT := A\<rparr>"
      and A: "\<forall>i < j. A i = \<lparr>perm = page_class (pmmap_list s) i, allocated = 0\<rparr>" by blast
    let ?A = "A(j := \<lparr>perm = page_class (pmmap_list s) j, allocated = 0\<rparr>)"
    have "get_size t = get_size s" "pmmap_ok t" "pmmap_list t = pmmap_list s"
      using assms(1) by (simp_all add: t get_size_def pmmap_ok_def)
    then have "init_page (get_size s) j t = Inr ((), s\<lparr>AT := ?A\<rparr>)"
      using j assms(2) page_perm_class [of t j] by (simp add: init_page_def) (simp add: t)
    moreover have "?I (j + 1) (s\<lparr>AT := ?A\<rparr>)"
      using A by (intro exI [of _ ?A]) (simp add: word_less_Suc_iff [OF j])
    ultimately show "\<exists>u. init_page (get_size s) j t = Inr ((), u) \<and> ?I (j + 1) u" by blast
  qed simp
  then show ?thesis by blast
qed

lemma pmem_init_ok:
  assumes dev: "devinit mbi_addr s = Inr ((), u)" and ok: "pmmap_ok u"
  shows "\<exists>t. pmem_init devinit mbi_addr s = Inr ((), t) \<and>
     t = u\<lparr>mem_lk := spinlock_init (mem_lk u), NUM_PAGES := nps_of (pmmap_list u), AT := AT t\<rparr> \<and>
     (\<forall>i < NUM_PAGES t. AT t i = \<lparr>perm = page_class (pmmap_list u) i, allocated = 0\<rparr>)"
proof -
  let ?n = "nps_of (pmmap_list u)"
  let ?v = "u\<lparr>mem_lk := spinlock_init (mem_lk u), NUM_PAGES := ?n\<rparr>"
  have n: "nps_loop (u\<lparr>mem_lk := spinlock_init (mem_lk u)\<rparr>) 0 (get_size u) 0 = ?n"
    using nps_loop_fold [of "u\<lparr>mem_lk := spinlock_init (mem_lk u)\<rparr>" 0 0] ok
    by (simp add: nps_of_def get_size_def pmmap_ok_def)
  have "pmmap_ok ?v" "get_size ?v = get_size u" using ok by (simp_all add: pmmap_ok_def get_size_def)
  then obtain A where "kfor 0 ?n (init_page (get_size u)) ?v = Inr ((), ?v\<lparr>AT := A\<rparr>)"
    "\<forall>i < ?n. A i = \<lparr>perm = page_class (pmmap_list u) i, allocated = 0\<rparr>"
    using init_pages_ok [of ?v ?n] nps_of_le [of "pmmap_list u"] by auto
  then show ?thesis
    using dev n by (simp add: pmem_init_def mem_spinlock_init_def set_nps_def get_size_def)
qed

section \<open>The interface of a page allocator\<close>

text \<open>
  What the layers above rely on: allocation always returns, a page it returns was
  available and no longer is, every other page is as before; freeing a page does not
  change the availability of another.
\<close>

locale page_alloc =
  fixes alloc :: "('s, u32) kern"
    and free :: "u32 \<Rightarrow> ('s, unit) kern"
    and avail :: "'s \<Rightarrow> u32 \<Rightarrow> bool"
    and inv :: "'s \<Rightarrow> bool"
  assumes alloc_total: "inv s \<Longrightarrow> \<exists>r t. alloc s = Inr (r, t) \<and> inv t \<and>
      (if r = 0 then avail t = avail s else avail s r \<and> avail t = (avail s)(r := False))"
    and free_frame: "inv s \<Longrightarrow> free p s = Inr (x, t) \<Longrightarrow> inv t \<and> (avail t)(p := b) = (avail s)(p := b)"

text \<open>The results of \<open>n\<close> allocations in a row.\<close>

primrec allocs :: "('s, u32) kern \<Rightarrow> nat \<Rightarrow> ('s, u32 list) kern" where
  "allocs alloc 0 = kret []"
| "allocs alloc (Suc n) = kbind alloc (\<lambda>r. kbind (allocs alloc n) (\<lambda>rs. kret (r # rs)))"

context page_alloc
begin

lemma allocs_distinct:
  "inv s \<Longrightarrow> \<exists>rs t. allocs alloc n s = Inr (rs, t) \<and> inv t \<and> length rs = n \<and>
     distinct (filter (\<lambda>r. r \<noteq> 0) rs) \<and>
     (\<forall>r \<in> set rs. r \<noteq> 0 \<longrightarrow> avail s r) \<and>
     (\<forall>p. avail t p \<longleftrightarrow> avail s p \<and> (p \<notin> set rs \<or> p = 0))"
proof (induction n arbitrary: s)
  case 0
  then show ?case by simp
next
  case (Suc n)
  obtain r u where u: "alloc s = Inr (r, u)" "inv u"
    "if r = 0 then avail u = avail s else avail s r \<and> avail u = (avail s)(r := False)"
    using alloc_total [OF Suc.prems] by blast
  obtain rs t where t: "allocs alloc n u = Inr (rs, t)" "inv t" "length rs = n"
    "distinct (filter (\<lambda>r. r \<noteq> 0) rs)" "\<forall>r \<in> set rs. r \<noteq> 0 \<longrightarrow> avail u r"
    "\<forall>p. avail t p \<longleftrightarrow> avail u p \<and> (p \<notin> set rs \<or> p = 0)"
    using Suc.IH [OF u(2)] by blast
  have "allocs alloc (Suc n) s = Inr (r # rs, t)" using u(1) t(1) by simp
  moreover have "distinct (filter (\<lambda>r. r \<noteq> 0) (r # rs))" using t(4,5) u(3) by auto
  moreover have "\<forall>q \<in> set (r # rs). q \<noteq> 0 \<longrightarrow> avail s q" using t(5) u(3) by (auto split: if_splits)
  moreover have "avail t p \<longleftrightarrow> avail s p \<and> (p \<notin> set (r # rs) \<or> p = 0)" for p
    using t(6) u(3) by (auto split: if_splits)
  ultimately show ?case using t(2,3) by fastforce
qed

end

lemma palloc_avail:
  assumes "palloc_post s r t"
  shows "if r = 0 then page_avail t = page_avail s
     else page_avail s r \<and> page_avail t = (page_avail s)(r := False)"
  using assms by (auto simp: palloc_post_def page_avail_def [abs_def] page_norm_def intro!: ext)

lemma pfree_avail:
  assumes "pfree p s = Inr (x, t)"
  shows "(page_avail t)(p := b) = (page_avail s)(p := b)"
  using assms
  by (auto simp: pfree_def mem_lock_def mem_unlock_def kern_Inr_iffs klock_acquire_iff
      at_set_allocated_def page_avail_def [abs_def] page_norm_def intro!: ext split: if_splits)

interpretation mat: page_alloc palloc pfree page_avail mat_inv
proof unfold_locales
  fix s :: "'a mat_state_scheme"
  assume "mat_inv s"
  then obtain r t where t: "palloc s = Inr (r, t)" "palloc_post s r t" "mat_inv t"
    using palloc_ok by blast
  with palloc_avail [OF t(2)] show "\<exists>r t. palloc s = Inr (r, t) \<and> mat_inv t \<and>
      (if r = 0 then page_avail t = page_avail s
       else page_avail s r \<and> page_avail t = (page_avail s)(r := False))" by blast
qed (use pfree_inv pfree_avail in blast)

section \<open>Properties\<close>

text \<open>
  C31. \<^verbatim>\<open>pmem_init\<close>: after it the number of pages is one past the highest page any row of
  the memory map reaches, and every page below it is free and has permission 1 outside
  the user range, 2 when the first row that holds it whole is usable memory, 0 otherwise.
\<close>

theorem pmem_init_correct:
  assumes "devinit mbi_addr s = Inr ((), u)" "pmmap_ok u"
  shows "\<exists>t. pmem_init devinit mbi_addr s = Inr ((), t) \<and>
     NUM_PAGES t = nps_of (pmmap_list u) \<and> pmmap_list t = pmmap_list u \<and>
     (\<forall>i < NUM_PAGES t. AT t i = \<lparr>perm = page_class (pmmap_list u) i, allocated = 0\<rparr>)"
proof -
  obtain t where "pmem_init devinit mbi_addr s = Inr ((), t)"
    and eq: "t = u\<lparr>mem_lk := spinlock_init (mem_lk u), NUM_PAGES := nps_of (pmmap_list u), AT := AT t\<rparr>"
    and "\<forall>i < NUM_PAGES t. AT t i = \<lparr>perm = page_class (pmmap_list u) i, allocated = 0\<rparr>"
    using pmem_init_ok [of devinit, OF assms] by blast
  moreover have "NUM_PAGES t = nps_of (pmmap_list u)" "pmmap_list t = pmmap_list u"
    by (subst eq, simp)+
  ultimately show ?thesis by blast
qed

text \<open>
  C29. \<^verbatim>\<open>palloc\<close> on a well-formed table returns the first available page above the last one
  it returned, marks it allocated and changes no other page; it returns 0 when there is
  none from there to the end of memory.
\<close>

theorem palloc_correct:
  assumes "mat_inv s"
  shows "\<exists>r t. palloc s = Inr (r, t) \<and> palloc_post s r t \<and> mat_inv t"
  using assms by (rule palloc_ok)

text \<open>
  C38. One call of \<^verbatim>\<open>palloc\<close> may return 0 while pages below the last one returned are
  free, but the call resets the search: if the next call returns 0 as well, no page but
  page 0 is available.
\<close>

theorem palloc_twice_complete:
  assumes inv: "mat_inv s" and "palloc s = Inr (0, t)" "palloc t = Inr (0, u)"
  shows "{j. 0 < j \<and> j < NUM_PAGES s \<and> page_avail s j} = {}"
proof -
  have t: "t = s\<lparr>last_palloc_index := 0, mem_lk := spinlock_release_A (mem_lk s)\<rparr>" "mat_inv t"
    using palloc_ok [OF inv] assms(2) by (auto simp: palloc_post_def)
  have "palloc_post t 0 u" using palloc_ok [OF t(2)] assms(3) by auto
  then show ?thesis using t(1) by (auto simp: palloc_post_def page_avail_def page_norm_def)
qed

text \<open>
  C39. Freeing the page \<^verbatim>\<open>palloc\<close> has just returned gives back the allocation table.
\<close>

theorem palloc_pfree:
  assumes inv: "mat_inv s" and "palloc s = Inr (r, t)" "r \<noteq> 0"
  shows "\<exists>u. pfree r t = Inr ((), u) \<and> AT u = AT s \<and> mat_inv u"
proof -
  have post: "palloc_post s r t" and t: "mat_inv t" using palloc_ok [OF inv] assms(2) by auto
  then have "r < AT_SIZE" using assms(3) inv by (auto simp: palloc_post_def mat_inv_def)
  moreover have "lock_ready (cur_kstack t) (mem_lk t)" using t by (simp add: mat_inv_def)
  ultimately obtain u where u: "pfree r t = Inr ((), u)" "AT u = (AT t)(r := AT t r\<lparr>allocated := 0\<rparr>)"
    by (simp add: pfree_ok)
  have "allocated (AT s r) = 0" "AT t = (AT s)(r := AT s r\<lparr>allocated := 1\<rparr>)"
    using post assms(3) by (auto simp: palloc_post_def page_avail_def)
  then have "AT u = AT s" using u(2) by (auto intro!: ext)
  then show ?thesis using u pfree_inv [OF t] by blast
qed

definition boot_mat :: mat_state where
  "boot_mat = mboot_state.extend boot_state
     (mat_state.fields \<lparr>lock = 0, lock_holder = 0\<rparr> 0 (\<lambda>_. \<lparr>perm = 0, allocated = 0\<rparr>) VM_USERLO_PI)"

lemmas boot_mat_defs = boot_mat_def boot_state_def mboot_state.defs mat_state.defs

lemma pmmap_final_2GB:
  "pmmap_final e820_2GB =
     [\<lparr>pm_start = 0, pm_end = 0x9fc00, pm_type = 1\<rparr>, \<lparr>pm_start = 0x9fc00, pm_end = 0x100000, pm_type = 2\<rparr>,
      \<lparr>pm_start = 0x100000, pm_end = 0x80000000, pm_type = 1\<rparr>]"
  by code_simp

theorem pmem_init_correct_witness:
  "\<exists>t. pmem_init (\<lambda>_. pmmap_init e820_2GB) 0 boot_mat = Inr ((), t) \<and> NUM_PAGES t = 0x80001 \<and>
     AT t 5 = \<lparr>perm = 1, allocated = 0\<rparr> \<and> AT t 0x40000 = \<lparr>perm = 2, allocated = 0\<rparr> \<and>
     AT t 0x80000 = \<lparr>perm = 0, allocated = 0\<rparr>"
proof -
  have known: "known_types e820_2GB" by code_simp
  have len: "pmmap_slots_next_free boot_mat + length e820_2GB \<le> 128"
    by (simp add: boot_mat_defs e820_2GB_def)
  obtain u where u: "pmmap_init e820_2GB boot_mat = Inr ((), u)" "pmmap_list u = pmmap_final e820_2GB"
    "pmmap_nentries u = of_nat (length (pmmap_final e820_2GB))"
    using pmmap_init_ok [OF len known] by (auto simp: boot_mat_defs)
  then have "pmmap_ok u"
    using pmmap_final_sorted [of e820_2GB] pmmap_final_ranges_ok [of e820_2GB]
    by (simp add: pmmap_ok_def pmmap_final_2GB)
  then obtain t where t: "pmem_init (\<lambda>_. pmmap_init e820_2GB) 0 boot_mat = Inr ((), t)"
    "NUM_PAGES t = nps_of (pmmap_final e820_2GB)"
    "\<forall>i < NUM_PAGES t. AT t i = \<lparr>perm = page_class (pmmap_final e820_2GB) i, allocated = 0\<rparr>"
    using pmem_init_correct [of "\<lambda>_. pmmap_init e820_2GB" 0 boot_mat u] u by auto
  have n: "nps_of (pmmap_final e820_2GB) = 0x80001"
    by (simp add: pmmap_final_2GB nps_of_def row_pages_def PAGESIZE_def)
  have "page_class (pmmap_final e820_2GB) 5 = 1" "page_class (pmmap_final e820_2GB) 0x40000 = 2"
    "page_class (pmmap_final e820_2GB) 0x80000 = 0"
    by (simp_all add: pmmap_final_2GB page_class_def holds_page_def VM_USERLO_PI_def VM_USERHI_PI_def
        PAGESIZE_def MEM_RAM_def)
  then show ?thesis using t n by auto
qed

text \<open>Two free pages above the start of the user range.\<close>

definition two_pages :: mat_state where
  "two_pages = boot_mat\<lparr>NUM_PAGES := 0x40003,
     AT := (\<lambda>i. \<lparr>perm = if i = 0x40001 \<or> i = 0x40002 then 2 else 0, allocated = 0\<rparr>)\<rparr>"

lemma two_pages_inv: "mat_inv two_pages"
  by (simp add: two_pages_def boot_mat_defs mat_inv_def AT_SIZE_def VM_USERLO_PI_def lock_ready_def)

lemma two_pages_palloc:
  "palloc two_pages = Inr (0x40001, two_pages\<lparr>
     AT := (AT two_pages)(0x40001 := \<lparr>perm = 2, allocated = 1\<rparr>),
     last_palloc_index := 0x40001, mem_lk := spinlock_release_A (mem_lk two_pages)\<rparr>)"
  by (simp add: palloc_def two_pages_def boot_mat_defs mem_lock_def mem_unlock_def get_nps_def
      lock_ready_def VM_USERLO_PI_def palloc_loop.simps AT_SIZE_def page_norm_def)

theorem palloc_correct_witness:
  "mat_inv two_pages \<and> palloc_post two_pages (fst (projr (palloc two_pages))) (snd (projr (palloc two_pages)))
     \<and> fst (projr (palloc two_pages)) = 0x40001"
  using palloc_correct [OF two_pages_inv] two_pages_inv by (auto simp: two_pages_palloc)

text \<open>Memory of three pages, none of them for users.\<close>

definition no_pages :: mat_state where
  "no_pages = boot_mat\<lparr>NUM_PAGES := 3, last_palloc_index := 1\<rparr>"

lemma no_pages_palloc:
  "palloc no_pages = Inr (0, no_pages\<lparr>last_palloc_index := 0, mem_lk := spinlock_release_A (mem_lk no_pages)\<rparr>)"
  "palloc (no_pages\<lparr>last_palloc_index := 0, mem_lk := spinlock_release_A (mem_lk no_pages)\<rparr>) =
     Inr (0, no_pages\<lparr>last_palloc_index := 0, mem_lk := spinlock_release_A (mem_lk no_pages)\<rparr>)"
  by (simp_all add: palloc_def no_pages_def boot_mat_defs mem_lock_def mem_unlock_def get_nps_def
      spinlock_release_A_def taken_def
      lock_ready_def palloc_loop.simps AT_SIZE_def page_norm_def)

theorem palloc_twice_complete_witness:
  "{j. 0 < j \<and> j < NUM_PAGES no_pages \<and> page_avail no_pages j} = {}"
proof -
  have "mat_inv no_pages"
    by (simp add: no_pages_def boot_mat_defs mat_inv_def AT_SIZE_def lock_ready_def)
  then show ?thesis by (rule palloc_twice_complete [OF _ no_pages_palloc])
qed

theorem palloc_pfree_witness:
  "\<exists>u. pfree 0x40001 (snd (projr (palloc two_pages))) = Inr ((), u) \<and> AT u = AT two_pages \<and> mat_inv u"
  using palloc_pfree [OF two_pages_inv two_pages_palloc] by (simp add: two_pages_palloc)

end
