(* ===== verification/Container.thy ===== *)
theory Container
  imports MAT
begin

text \<open>
  Memory quotas: \<^verbatim>\<open>kern/pmm/MContainer/MContainer.c\<close>. The state adds the array
  \<^verbatim>\<open>CONTAINER[NUM_IDS]\<close>. The \<^verbatim>\<open>int\<close> fields are kept as the 32-bit words they are; a signed
  comparison reads them with \<open>sint\<close>.
\<close>

definition NUM_IDS :: u32 where
  "NUM_IDS = 64"

definition MAX_CHILDREN :: u32 where
  "MAX_CHILDREN = 3"

record SContainer =
  quota :: u32
  usage :: u32
  parent :: u32
  nchildren :: u32
  used :: u32

record cont_state = mat_state +
  CONTAINER :: "u32 \<Rightarrow> SContainer"

definition cont_get :: "u32 \<Rightarrow> (SContainer \<Rightarrow> 'a) \<Rightarrow> ('z cont_state_scheme, 'a) kern" where
  "cont_get i f = kseq (kindex NUM_IDS i) (kgets (\<lambda>s. f (CONTAINER s i)))"

definition cont_set :: "u32 \<Rightarrow> (SContainer \<Rightarrow> SContainer) \<Rightarrow> ('z cont_state_scheme, unit) kern" where
  "cont_set i f =
     kseq (kindex NUM_IDS i)
       (kmodify (\<lambda>s. s\<lparr>CONTAINER := (CONTAINER s)(i := f (CONTAINER s i))\<rparr>))"

text \<open>The loop of \<^verbatim>\<open>container_init\<close> that counts the pages the root may use.\<close>

function quota_loop :: "u32 \<Rightarrow> u32 \<Rightarrow> u32 \<Rightarrow> ('z cont_state_scheme, u32) kern" where
  "quota_loop nps i real_quota =
     (if i < nps then
        kbind (at_is_norm i) (\<lambda>norm.
        kbind (at_is_allocated i) (\<lambda>used.
          quota_loop nps (i + 1) (if norm = 1 \<and> used = 0 then real_quota + 1 else real_quota)))
      else kret real_quota)"
  by pat_completeness auto
termination
  by (relation "measure (\<lambda>(nps, i, q). unat nps - unat i)")
     (auto simp: unat_Suc_less word_less_nat_alt)

declare quota_loop.simps [simp del]

definition container_init ::
    "(u32 \<Rightarrow> ('z cont_state_scheme, unit) kern) \<Rightarrow> u32 \<Rightarrow> ('z cont_state_scheme, unit) kern" where
  "container_init devinit mbi_addr =
     kseq (pmem_init devinit mbi_addr)
    (kbind get_nps (\<lambda>nps.
     kbind (quota_loop nps 1 0) (\<lambda>real_quota.
       cont_set 0 (\<lambda>_. \<lparr>quota = real_quota, usage = 0, parent = 0, nchildren = 0, used = 1\<rparr>))))"

definition container_get_parent :: "u32 \<Rightarrow> ('z cont_state_scheme, u32) kern" where
  "container_get_parent i = cont_get i parent"

definition container_get_nchildren :: "u32 \<Rightarrow> ('z cont_state_scheme, u32) kern" where
  "container_get_nchildren i = cont_get i nchildren"

definition container_get_quota :: "u32 \<Rightarrow> ('z cont_state_scheme, u32) kern" where
  "container_get_quota i = cont_get i quota"

definition container_get_usage :: "u32 \<Rightarrow> ('z cont_state_scheme, u32) kern" where
  "container_get_usage i = cont_get i usage"

text \<open>\<^verbatim>\<open>usage + n > quota\<close> is an unsigned comparison, since \<^verbatim>\<open>n\<close> is unsigned.\<close>

definition container_can_consume :: "u32 \<Rightarrow> u32 \<Rightarrow> ('z cont_state_scheme, u32) kern" where
  "container_can_consume i n =
     cont_get i (\<lambda>c. if usage c + n > quota c then 0 else 1)"

definition container_split :: "u32 \<Rightarrow> u32 \<Rightarrow> ('z cont_state_scheme, u32) kern" where
  "container_split i q =
     kbind (cont_get i nchildren) (\<lambda>nc.
     let child = i * MAX_CHILDREN + 1 + nc in
     kseq (cont_set child (\<lambda>_. \<lparr>quota = q, usage = 0, parent = i, nchildren = 0, used = 1\<rparr>))
    (kseq (cont_set i (\<lambda>c. c\<lparr>usage := usage c + q\<rparr>))
    (kseq (cont_set i (\<lambda>c. c\<lparr>nchildren := nc + 1\<rparr>))
          (kret child))))"

definition container_alloc :: "u32 \<Rightarrow> ('z cont_state_scheme, u32) kern" where
  "container_alloc i =
     kbind (cont_get i usage) (\<lambda>u.
     kbind (cont_get i quota) (\<lambda>q.
       if u = q then kret 0
       else kseq (cont_set i (\<lambda>c. c\<lparr>usage := u + 1\<rparr>)) palloc))"

definition container_free :: "u32 \<Rightarrow> u32 \<Rightarrow> ('z cont_state_scheme, unit) kern" where
  "container_free i page_index =
     kbind (at_is_allocated page_index) (\<lambda>a.
       if a \<noteq> 0 then
         kseq (pfree page_index)
        (kbind (cont_get i usage) (\<lambda>u.
           if sint u > 0 then cont_set i (\<lambda>c. c\<lparr>usage := usage c - 1\<rparr>) else kret ()))
       else kret ())"

section \<open>The container tree\<close>

text \<open>
  Container \<open>c > 0\<close> is child number \<open>(c - 1) mod 3\<close> of container \<open>(c - 1) div 3\<close>. The
  invariant: usage never exceeds quota, quotas are below \<open>2 ^ 31\<close> (so the signed and
  the unsigned readings agree), a used container has a used parent whose child count is
  above its number.
\<close>

definition up :: "u32 \<Rightarrow> u32" where
  "up c = (c - 1) div MAX_CHILDREN"

definition nth_child :: "u32 \<Rightarrow> u32" where
  "nth_child c = (c - 1) mod MAX_CHILDREN"

definition in_use :: "'z cont_state_scheme \<Rightarrow> u32 \<Rightarrow> bool" where
  "in_use s c \<longleftrightarrow> c < NUM_IDS \<and> used (CONTAINER s c) \<noteq> 0"

definition cont_inv :: "'z cont_state_scheme \<Rightarrow> bool" where
  "cont_inv s \<longleftrightarrow>
     mat_inv s \<and> in_use s 0 \<and>
     (\<forall>c. in_use s c \<longrightarrow>
        usage (CONTAINER s c) \<le> quota (CONTAINER s c) \<and> quota (CONTAINER s c) < 0x80000000) \<and>
     (\<forall>c. in_use s c \<longrightarrow> c \<noteq> 0 \<longrightarrow>
        in_use s (up c) \<and> nth_child c < nchildren (CONTAINER s (up c)))"

lemma cont_get_ok [simp]: "i < NUM_IDS \<Longrightarrow> cont_get i f s = Inr (f (CONTAINER s i), s)"
  by (simp add: cont_get_def)

lemma cont_set_ok [simp]:
  "i < NUM_IDS \<Longrightarrow>
     cont_set i f s = Inr ((), s\<lparr>CONTAINER := (CONTAINER s)(i := f (CONTAINER s i))\<rparr>)"
  by (simp add: cont_set_def)

text \<open>Arithmetic of child numbers, below the array bound.\<close>

lemma child_arith:
  assumes "i < NUM_IDS" "nc < MAX_CHILDREN"
  shows "up (i * MAX_CHILDREN + 1 + nc) = i" "nth_child (i * MAX_CHILDREN + 1 + nc) = nc"
    and "i * MAX_CHILDREN + 1 + nc \<noteq> 0" "i * MAX_CHILDREN + 1 + nc \<noteq> i"
proof -
  have i: "unat i < 64" and nc: "unat nc < 3"
    using assms by (simp_all add: word_less_nat_alt NUM_IDS_def MAX_CHILDREN_def)
  have m: "unat (i * MAX_CHILDREN) = unat i * 3"
    using i by (subst unat_mult_exact) (auto simp: MAX_CHILDREN_def)
  have mn: "unat (i * MAX_CHILDREN + nc) = unat i * 3 + unat nc"
    using i nc m by (subst unat_add_exact) auto
  then have c: "unat (i * MAX_CHILDREN + 1 + nc) = unat i * 3 + 1 + unat nc"
    using i nc by (subst add.assoc, subst add.commute [of 1], subst add.assoc [symmetric],
        subst unat_add_exact) auto
  have one: "i * MAX_CHILDREN + 1 + nc - 1 = i * MAX_CHILDREN + nc" by simp
  have three: "unat MAX_CHILDREN = 3" by (simp add: MAX_CHILDREN_def)
  show "up (i * MAX_CHILDREN + 1 + nc) = i"
    unfolding up_def word_unat_eq_iff unat_div one three using mn nc by simp
  show "nth_child (i * MAX_CHILDREN + 1 + nc) = nc"
    unfolding nth_child_def word_unat_eq_iff unat_mod one three using mn nc by simp
  show "i * MAX_CHILDREN + 1 + nc \<noteq> 0" "i * MAX_CHILDREN + 1 + nc \<noteq> i"
    using c by (auto simp: word_unat_eq_iff)
qed

section \<open>Splitting a container\<close>

text \<open>
  What a container may still hand out, summed over the tree, and the pages whose
  allocation flag is set.
\<close>

definition remaining :: "'z cont_state_scheme \<Rightarrow> nat" where
  "remaining s =
     (\<Sum>c | in_use s c. unat (quota (CONTAINER s c)) - unat (usage (CONTAINER s c)))"

definition pages_allocated :: "'z mat_state_scheme \<Rightarrow> nat" where
  "pages_allocated s = card {i. i < AT_SIZE \<and> allocated (AT s i) \<noteq> 0}"

lemma remaining_at:
  "in_use s i \<Longrightarrow> remaining s =
     unat (quota (CONTAINER s i)) - unat (usage (CONTAINER s i)) +
     (\<Sum>c \<in> {c. in_use s c} - {i}. unat (quota (CONTAINER s c)) - unat (usage (CONTAINER s c)))"
  unfolding remaining_def by (rule sum.remove) auto

definition split_state :: "'z cont_state_scheme \<Rightarrow> u32 \<Rightarrow> u32 \<Rightarrow> u32 \<Rightarrow> 'z cont_state_scheme" where
  "split_state s i q child =
     s\<lparr>CONTAINER := (CONTAINER s)
        (child := \<lparr>quota = q, usage = 0, parent = i, nchildren = 0, used = 1\<rparr>,
         i := CONTAINER s i\<lparr>usage := usage (CONTAINER s i) + q,
                            nchildren := nchildren (CONTAINER s i) + 1\<rparr>)\<rparr>"

text \<open>The guards under which the caller of \<^verbatim>\<open>container_split\<close> may use it.\<close>

definition can_split :: "'z cont_state_scheme \<Rightarrow> u32 \<Rightarrow> u32 \<Rightarrow> bool" where
  "can_split s i q \<longleftrightarrow> in_use s i \<and> nchildren (CONTAINER s i) < MAX_CHILDREN \<and>
     i * MAX_CHILDREN + 1 + nchildren (CONTAINER s i) < NUM_IDS \<and>
     unat (usage (CONTAINER s i)) + unat q \<le> unat (quota (CONTAINER s i))"

lemma container_split_eq:
  assumes "can_split s i q"
  shows "container_split i q s =
    (let child = i * MAX_CHILDREN + 1 + nchildren (CONTAINER s i) in
     Inr (child, split_state s i q child))"
proof -
  have i: "i < NUM_IDS" and nc: "nchildren (CONTAINER s i) < MAX_CHILDREN"
    and ch: "i * MAX_CHILDREN + 1 + nchildren (CONTAINER s i) < NUM_IDS"
    using assms by (auto simp: can_split_def in_use_def)
  show ?thesis
    using i ch child_arith(4) [OF i nc]
    by (simp add: container_split_def Let_def split_state_def)
qed

text \<open>In a well-formed tree the slot of the next child is not in use.\<close>

lemma next_child_fresh:
  assumes "cont_inv s" "can_split s i q"
  shows "\<not> in_use s (i * MAX_CHILDREN + 1 + nchildren (CONTAINER s i))"
proof
  let ?nc = "nchildren (CONTAINER s i)" and ?ch = "i * MAX_CHILDREN + 1 + nchildren (CONTAINER s i)"
  have i: "i < NUM_IDS" "?nc < MAX_CHILDREN" using assms(2) by (auto simp: can_split_def in_use_def)
  assume "in_use s ?ch"
  then have "nth_child ?ch < nchildren (CONTAINER s (up ?ch))"
    using assms(1) child_arith(3) [OF i] by (auto simp: cont_inv_def)
  then show False using child_arith(1,2) [OF i] by simp
qed

lemma usage_plus:
  assumes "can_split s i q"
  shows "unat (usage (CONTAINER s i) + q) = unat (usage (CONTAINER s i)) + unat q"
  using assms unat_lt2p [of "quota (CONTAINER s i)"]
  by (intro unat_add_exact) (auto simp: can_split_def)

lemma in_use_split_state:
  assumes "i < NUM_IDS" "child < NUM_IDS" "child \<noteq> i"
  shows "in_use (split_state s i q child) c \<longleftrightarrow> c = child \<or> in_use s c"
  using assms by (auto simp: in_use_def split_state_def)

lemma split_state_CONTAINER:
  "CONTAINER (split_state s i q child) c =
     (if c = i then CONTAINER s i\<lparr>usage := usage (CONTAINER s i) + q,
                                  nchildren := nchildren (CONTAINER s i) + 1\<rparr>
      else if c = child then \<lparr>quota = q, usage = 0, parent = i, nchildren = 0, used = 1\<rparr>
      else CONTAINER s c)"
  by (simp add: split_state_def)

lemma split_state_inv:
  assumes inv: "cont_inv s" and can: "can_split s i q"
  defines "child \<equiv> i * MAX_CHILDREN + 1 + nchildren (CONTAINER s i)"
  shows "cont_inv (split_state s i q child)"
proof -
  let ?nc = "nchildren (CONTAINER s i)" and ?t = "split_state s i q child"
  have i: "i < NUM_IDS" "?nc < MAX_CHILDREN" and ch: "child < NUM_IDS"
    using can by (auto simp: can_split_def in_use_def child_def)
  note arith = child_arith [OF i, folded child_def]
  have use: "in_use ?t c \<longleftrightarrow> c = child \<or> in_use s c" for c
    using in_use_split_state [OF i(1) ch arith(4)] .
  have fresh: "\<not> in_use s child" using next_child_fresh [OF inv can] by (simp add: child_def)
  have q: "unat q \<le> unat (quota (CONTAINER s i))" using can by (simp add: can_split_def)
  have iu: "in_use s i" using can by (simp add: can_split_def)
  have "mat_inv ?t" using inv by (simp add: cont_inv_def mat_inv_def split_state_def)
  moreover have "in_use ?t 0" using inv by (simp add: use cont_inv_def)
  moreover have "usage (CONTAINER ?t c) \<le> quota (CONTAINER ?t c) \<and> quota (CONTAINER ?t c) < 0x80000000"
    if "in_use ?t c" for c
  proof -
    have s: "usage (CONTAINER s d) \<le> quota (CONTAINER s d)" "quota (CONTAINER s d) < 0x80000000"
      if "in_use s d" for d using inv that by (auto simp: cont_inv_def)
    have "q < 0x80000000" using q s(2) [OF iu] by (simp add: word_less_nat_alt)
    moreover have "usage (CONTAINER s i) + q \<le> quota (CONTAINER s i)"
      using can usage_plus [OF can] by (simp add: can_split_def word_le_nat_alt)
    ultimately show ?thesis
      using that s [of c] s [OF iu] arith(4) by (auto simp: use split_state_CONTAINER)
  qed
  moreover have "in_use ?t (up c) \<and> nth_child c < nchildren (CONTAINER ?t (up c))"
    if "in_use ?t c" "c \<noteq> 0" for c
  proof (cases "c = child")
    case True
    then show ?thesis
      using arith iu i(2) by (simp add: use split_state_CONTAINER word_less_Suc_iff [OF i(2)])
  next
    case False
    then have "in_use s c" using that(1) use by blast
    then have up: "in_use s (up c)" "nth_child c < nchildren (CONTAINER s (up c))"
      using inv that(2) by (auto simp: cont_inv_def)
    then have "up c \<noteq> child" using fresh by auto
    then show ?thesis
      using up by (auto simp: use split_state_CONTAINER word_less_Suc_iff [OF i(2)])
  qed
  ultimately show ?thesis by (auto simp: cont_inv_def)
qed

lemma split_state_remaining:
  assumes inv: "cont_inv s" and can: "can_split s i q"
  defines "child \<equiv> i * MAX_CHILDREN + 1 + nchildren (CONTAINER s i)"
  shows "remaining (split_state s i q child) = remaining s"
proof -
  let ?t = "split_state s i q child"
  let ?f = "\<lambda>s c. unat (quota (CONTAINER s c)) - unat (usage (CONTAINER s c))"
  let ?A = "{c. in_use s c} - {i}"
  have i: "i < NUM_IDS" "nchildren (CONTAINER s i) < MAX_CHILDREN" and ch: "child < NUM_IDS"
    and iu: "in_use s i"
    using can by (auto simp: can_split_def in_use_def child_def)
  have ne: "child \<noteq> i" using child_arith(4) [OF i] by (simp add: child_def)
  have fresh: "\<not> in_use s child" using next_child_fresh [OF inv can] by (simp add: child_def)
  have "{c. in_use ?t c} = insert child {c. in_use s c}"
    using in_use_split_state [OF i(1) ch ne] by auto
  then have "remaining ?t = ?f ?t child + sum (?f ?t) {c. in_use s c}"
    using fresh by (simp add: remaining_def)
  also have "sum (?f ?t) {c. in_use s c} = ?f ?t i + sum (?f ?t) ?A"
    using iu by (intro sum.remove) auto
  finally have "remaining ?t = ?f ?t child + (?f ?t i + sum (?f ?t) ?A)" .
  moreover have "sum (?f ?t) ?A = sum (?f s) ?A"
    using fresh by (intro sum.cong) (auto simp: split_state_CONTAINER)
  moreover have "?f ?t child = unat q" using ne by (simp add: split_state_CONTAINER)
  moreover have "?f ?t i = ?f s i - unat q"
    using usage_plus [OF can] by (simp add: split_state_CONTAINER)
  moreover have "unat q \<le> ?f s i" using can by (auto simp: can_split_def)
  moreover have "remaining s = ?f s i + sum (?f s) ?A"
    using iu by (rule remaining_at)
  ultimately show ?thesis by simp
qed

section \<open>Allocating and freeing against a quota\<close>

lemma cont_inv_mat: "cont_inv s \<Longrightarrow> mat_inv s"
  by (simp add: cont_inv_def)

lemma container_alloc_full:
  assumes "i < NUM_IDS" "usage (CONTAINER s i) = quota (CONTAINER s i)"
  shows "container_alloc i s = Inr (0, s)"
  using assms by (simp add: container_alloc_def)

definition charge :: "'z cont_state_scheme \<Rightarrow> u32 \<Rightarrow> 'z cont_state_scheme" where
  "charge s i = s\<lparr>CONTAINER := (CONTAINER s)(i := CONTAINER s i\<lparr>usage := usage (CONTAINER s i) + 1\<rparr>)\<rparr>"

lemma container_alloc_palloc:
  assumes "i < NUM_IDS" "usage (CONTAINER s i) \<noteq> quota (CONTAINER s i)"
  shows "container_alloc i s = palloc (charge s i)"
  using assms by (simp add: container_alloc_def charge_def)

lemma usage_Suc:
  assumes "cont_inv s" "in_use s i" "usage (CONTAINER s i) \<noteq> quota (CONTAINER s i)"
  shows "usage (CONTAINER s i) < quota (CONTAINER s i)"
    and "unat (usage (CONTAINER s i) + 1) = Suc (unat (usage (CONTAINER s i)))"
proof -
  show lt: "usage (CONTAINER s i) < quota (CONTAINER s i)" using assms by (auto simp: cont_inv_def less_le)
  then show "unat (usage (CONTAINER s i) + 1) = Suc (unat (usage (CONTAINER s i)))"
    by (rule unat_Suc_less)
qed

lemma charge_simps [simp]:
  "in_use (charge s i) c = in_use s c"
  "AT (charge s i) = AT s" "NUM_PAGES (charge s i) = NUM_PAGES s"
  "last_palloc_index (charge s i) = last_palloc_index s" "mem_lk (charge s i) = mem_lk s"
  "mat_inv (charge s i) = mat_inv s" "page_avail (charge s i) j = page_avail s j"
  "quota (CONTAINER (charge s i) c) = quota (CONTAINER s c)"
  "nchildren (CONTAINER (charge s i) c) = nchildren (CONTAINER s c)"
  "usage (CONTAINER (charge s i) c) = (if c = i then usage (CONTAINER s c) + 1 else usage (CONTAINER s c))"
  by (simp_all add: charge_def in_use_def mat_inv_def page_avail_def page_norm_def)

lemma charge_inv:
  assumes "cont_inv s" "in_use s i" "usage (CONTAINER s i) \<noteq> quota (CONTAINER s i)"
  shows "cont_inv (charge s i)"
  using assms usage_Suc [OF assms] by (auto simp: cont_inv_def Suc_le_of_less)

lemma charge_remaining:
  assumes "cont_inv s" "in_use s i" "usage (CONTAINER s i) \<noteq> quota (CONTAINER s i)"
  shows "remaining s = Suc (remaining (charge s i))"
proof -
  let ?f = "\<lambda>s c. unat (quota (CONTAINER s c)) - unat (usage (CONTAINER s c))"
  let ?A = "{c. in_use s c} - {i}"
  have "remaining s = ?f s i + sum (?f s) ?A"
    "remaining (charge s i) = ?f (charge s i) i + sum (?f (charge s i)) ?A"
    using remaining_at [of s i] remaining_at [of "charge s i" i] assms(2) by simp_all
  moreover have "sum (?f (charge s i)) ?A = sum (?f s) ?A" by (intro sum.cong) auto
  moreover have "?f s i = Suc (?f (charge s i) i)"
    using usage_Suc [OF assms] by (simp add: word_less_nat_alt)
  ultimately show ?thesis by simp
qed

lemma palloc_post_frame:
  assumes "palloc_post s r t"
  shows "CONTAINER t = CONTAINER s" "in_use t c = in_use s c" "cur_kstack t = cur_kstack s"
    "pcpu_tbl t = pcpu_tbl s" "cont_state.more t = cont_state.more s"
    "remaining t = remaining s"
  using assms by (auto simp: palloc_post_def in_use_def remaining_def split: if_splits)

lemma palloc_post_pages:
  assumes "palloc_post s r t" "NUM_PAGES s \<le> AT_SIZE"
  shows "pages_allocated t = (if r = 0 then pages_allocated s else Suc (pages_allocated s))"
proof (cases "r = 0")
  case True
  with assms show ?thesis by (simp add: palloc_post_def pages_allocated_def)
next
  case False
  let ?S = "\<lambda>s. {i. i < AT_SIZE \<and> allocated (AT s i) \<noteq> 0}"
  have "?S t = insert r (?S s)" "r \<notin> ?S s"
    using assms False by (auto simp: palloc_post_def page_avail_def)
  with False show ?thesis by (simp add: pages_allocated_def)
qed

lemma cont_inv_frame:
  "cont_inv s \<Longrightarrow> mat_inv t \<Longrightarrow> CONTAINER t = CONTAINER s \<Longrightarrow> cont_inv t"
  by (simp add: cont_inv_def in_use_def)

lemma container_alloc_ok:
  assumes inv: "cont_inv s" and i: "in_use s i"
  shows "\<exists>r t. container_alloc i s = Inr (r, t) \<and> cont_inv t \<and>
     (usage (CONTAINER s i) = quota (CONTAINER s i) \<and> r = 0 \<and> t = s \<or>
      usage (CONTAINER s i) \<noteq> quota (CONTAINER s i) \<and> palloc_post (charge s i) r t)"
proof (cases "usage (CONTAINER s i) = quota (CONTAINER s i)")
  case True
  then show ?thesis using i inv container_alloc_full by (fastforce simp: in_use_def)
next
  case False
  have "mat_inv (charge s i)" using inv by (simp add: cont_inv_def)
  then obtain r t where t: "palloc (charge s i) = Inr (r, t)" "palloc_post (charge s i) r t" "mat_inv t"
    using palloc_ok by blast
  moreover have "container_alloc i s = palloc (charge s i)"
    using i False by (intro container_alloc_palloc) (simp add: in_use_def)
  moreover have "cont_inv t"
    using cont_inv_frame [OF charge_inv [OF inv i False] t(3)] palloc_post_frame(1) [OF t(2)] by simp
  ultimately show ?thesis using False by auto
qed

text \<open>What allocation changes, as the layers above see it.\<close>

lemma container_alloc_cases:
  assumes "cont_inv s" "in_use s i"
  obtains r t where "container_alloc i s = Inr (r, t)" "cont_inv t" "in_use t c = in_use s c"
    "NUM_PAGES t = NUM_PAGES s" "cur_kstack t = cur_kstack s" "pcpu_tbl t = pcpu_tbl s"
    "cont_state.more t = cont_state.more s"
    "r = 0 \<and> AT t = AT s \<or>
     r \<noteq> 0 \<and> r < NUM_PAGES s \<and> page_avail s r \<and> AT t = (AT s)(r := AT s r\<lparr>allocated := 1\<rparr>)"
proof -
  obtain r t where t: "container_alloc i s = Inr (r, t)" "cont_inv t"
    "r = 0 \<and> t = s \<or> palloc_post (charge s i) r t"
    using container_alloc_ok [OF assms] by blast
  from t(3) show thesis
  proof
    assume "r = 0 \<and> t = s"
    then show thesis using that [OF t(1,2)] by simp
  next
    assume post: "palloc_post (charge s i) r t"
    have c: "cont_state.more (charge s i) = cont_state.more s" "cur_kstack (charge s i) = cur_kstack s"
      "pcpu_tbl (charge s i) = pcpu_tbl s" by (simp_all add: charge_def)
    have "r = 0 \<and> AT t = AT s \<or> r \<noteq> 0 \<and> r < NUM_PAGES s \<and> page_avail s r \<and>
       AT t = (AT s)(r := AT s r\<lparr>allocated := 1\<rparr>)" "NUM_PAGES t = NUM_PAGES s"
      using post by (auto simp: palloc_post_def split: if_splits)
    then show thesis using that [OF t(1,2)] palloc_post_frame [OF post] c by simp
  qed
qed

definition uncharge :: "'z cont_state_scheme \<Rightarrow> u32 \<Rightarrow> 'z cont_state_scheme" where
  "uncharge s i =
     (if usage (CONTAINER s i) = 0 then s
      else s\<lparr>CONTAINER := (CONTAINER s)(i := CONTAINER s i\<lparr>usage := usage (CONTAINER s i) - 1\<rparr>)\<rparr>)"

lemma container_free_ok:
  assumes inv: "cont_inv s" and i: "in_use s i" and p: "p < AT_SIZE"
  shows "container_free i p s = Inr ((),
     if allocated (AT s p) = 0 then s
     else uncharge (s\<lparr>AT := (AT s)(p := AT s p\<lparr>allocated := 0\<rparr>),
                      mem_lk := spinlock_release_A (mem_lk s)\<rparr>) i)"
proof -
  have "lock_ready (cur_kstack s) (mem_lk s)" using inv by (simp add: cont_inv_def mat_inv_def)
  then have f: "pfree p s = Inr ((), s\<lparr>AT := (AT s)(p := AT s p\<lparr>allocated := 0\<rparr>),
      mem_lk := spinlock_release_A (mem_lk s)\<rparr>)" by (rule pfree_ok [OF _ p])
  have "usage (CONTAINER s i) < 0x80000000"
    using inv i by (auto simp: cont_inv_def)
  then show ?thesis
    using f p i by (simp add: container_free_def uncharge_def in_use_def sint_pos_iff)
qed

lemma uncharge_simps [simp]:
  "in_use (uncharge s i) c = in_use s c" "AT (uncharge s i) = AT s"
  "mat_inv (uncharge s i) = mat_inv s"
  "quota (CONTAINER (uncharge s i) c) = quota (CONTAINER s c)"
  "nchildren (CONTAINER (uncharge s i) c) = nchildren (CONTAINER s c)"
  "usage (CONTAINER (uncharge s i) c) =
     (if c = i \<and> usage (CONTAINER s c) \<noteq> 0 then usage (CONTAINER s c) - 1 else usage (CONTAINER s c))"
  by (simp_all add: uncharge_def in_use_def mat_inv_def)

lemma word_pred_le: "x \<noteq> 0 \<Longrightarrow> x \<le> n \<Longrightarrow> x - 1 \<le> n \<and> unat x = Suc (unat (x - 1))"
  for x n :: "'a::len word"
  by (simp add: word_le_nat_alt unat_minus_one unat_gt_0 Suc_leI)

lemma uncharge_inv:
  assumes "cont_inv s" "in_use s i"
  shows "cont_inv (uncharge s i)"
  using assms by (auto simp: cont_inv_def word_pred_le)

lemma container_free_cases:
  assumes inv: "cont_inv s" and i: "in_use s i" and p: "p < AT_SIZE"
  obtains t where "container_free i p s = Inr ((), t)" "cont_inv t" "\<And>c. in_use t c = in_use s c"
    "NUM_PAGES t = NUM_PAGES s" "cur_kstack t = cur_kstack s" "pcpu_tbl t = pcpu_tbl s"
    "cont_state.more t = cont_state.more s" "AT t = (AT s)(p := AT s p\<lparr>allocated := 0\<rparr>)"
proof -
  define u where
    "u = s\<lparr>AT := (AT s)(p := AT s p\<lparr>allocated := 0\<rparr>), mem_lk := spinlock_release_A (mem_lk s)\<rparr>"
  have run: "container_free i p s = Inr ((), if allocated (AT s p) = 0 then s else uncharge u i)"
    using container_free_ok [OF inv i p] by (simp add: u_def)
  have "mat_inv u" using inv by (auto simp: u_def cont_inv_def mat_inv_def dest: lock_ready_magic)
  moreover have "CONTAINER u = CONTAINER s" by (simp add: u_def)
  ultimately have u: "cont_inv u" by (rule cont_inv_frame [OF inv])
  have use: "in_use u c = in_use s c" for c by (simp add: in_use_def u_def)
  show thesis
  proof (cases "allocated (AT s p) = 0")
    case True
    then have "AT s = (AT s)(p := AT s p\<lparr>allocated := 0\<rparr>)" by (auto intro!: ext)
    then show thesis using that [of s] run inv True by simp
  next
    case False
    have sel: "NUM_PAGES (uncharge u i) = NUM_PAGES s" "cur_kstack (uncharge u i) = cur_kstack s"
      "pcpu_tbl (uncharge u i) = pcpu_tbl s" "cont_state.more (uncharge u i) = cont_state.more s"
      "AT (uncharge u i) = (AT s)(p := AT s p\<lparr>allocated := 0\<rparr>)"
      by (simp_all add: uncharge_def u_def)
    have "in_use (uncharge u i) c = in_use s c" for c using use by simp
    moreover have "cont_inv (uncharge u i)" using uncharge_inv [OF u] use i by simp
    ultimately show thesis using that [of "uncharge u i"] run False sel by simp
  qed
qed

lemma uncharge_remaining:
  assumes "cont_inv s" "in_use s i"
  shows "remaining (uncharge s i) \<le> Suc (remaining s)"
proof -
  let ?f = "\<lambda>s c. unat (quota (CONTAINER s c)) - unat (usage (CONTAINER s c))"
  let ?A = "{c. in_use s c} - {i}"
  have "remaining s = ?f s i + sum (?f s) ?A"
    "remaining (uncharge s i) = ?f (uncharge s i) i + sum (?f (uncharge s i)) ?A"
    using remaining_at [of s i] remaining_at [of "uncharge s i" i] assms(2) by simp_all
  moreover have "sum (?f (uncharge s i)) ?A = sum (?f s) ?A" by (intro sum.cong) auto
  moreover have "?f (uncharge s i) i \<le> Suc (?f s i)"
    using word_pred_le [of "usage (CONTAINER s i)" "quota (CONTAINER s i)"] assms
    by (auto simp: cont_inv_def)
  ultimately show ?thesis by simp
qed

section \<open>Accounting over any run\<close>

text \<open>The operations on memory quotas, in any order and for any container.\<close>

inductive pmm_step :: "'z cont_state_scheme \<Rightarrow> 'z cont_state_scheme \<Rightarrow> bool" where
  step_alloc: "in_use s i \<Longrightarrow> container_alloc i s = Inr (r, t) \<Longrightarrow> pmm_step s t"
| step_free: "in_use s i \<Longrightarrow> container_free i p s = Inr (x, t) \<Longrightarrow> pmm_step s t"
| step_split: "can_split s i q \<Longrightarrow> container_split i q s = Inr (c, t) \<Longrightarrow> pmm_step s t"

lemma mat_inv_NUM_PAGES: "mat_inv s \<Longrightarrow> NUM_PAGES s \<le> AT_SIZE"
  by (simp add: mat_inv_def)

lemma alloc_accounting:
  assumes inv: "cont_inv s" and i: "in_use s i" and t: "container_alloc i s = Inr (r, t)"
  shows "cont_inv t"
    and "remaining t + pages_allocated t + (if r = 0 \<and> t \<noteq> s then 1 else 0) =
         remaining s + pages_allocated s"
proof -
  have "cont_inv t \<and> (usage (CONTAINER s i) = quota (CONTAINER s i) \<and> r = 0 \<and> t = s \<or>
      usage (CONTAINER s i) \<noteq> quota (CONTAINER s i) \<and> palloc_post (charge s i) r t)"
    using container_alloc_ok [OF inv i] t by auto
  then consider "cont_inv t" "r = 0" "t = s"
    | (charged) "cont_inv t" "usage (CONTAINER s i) \<noteq> quota (CONTAINER s i)" "palloc_post (charge s i) r t"
    by blast
  then have "cont_inv t \<and> remaining t + pages_allocated t + (if r = 0 \<and> t \<noteq> s then 1 else 0) =
         remaining s + pages_allocated s"
  proof cases
    case charged
    have "remaining t = remaining (charge s i)" using palloc_post_frame(6) [OF charged(3)] .
    moreover have "remaining s = Suc (remaining (charge s i))"
      using charge_remaining [OF inv i charged(2)] .
    moreover have "pages_allocated t =
        (if r = 0 then pages_allocated (charge s i) else Suc (pages_allocated (charge s i)))"
      using palloc_post_pages [OF charged(3)] inv by (simp add: cont_inv_def mat_inv_NUM_PAGES)
    moreover have "pages_allocated (charge s i) = pages_allocated s" by (simp add: pages_allocated_def)
    moreover from calculation have "t \<noteq> s" by auto
    ultimately show ?thesis using charged(1) by auto
  qed simp
  then show "cont_inv t" "remaining t + pages_allocated t + (if r = 0 \<and> t \<noteq> s then 1 else 0) =
         remaining s + pages_allocated s" by blast+
qed

lemma pages_allocated_free:
  assumes "p < AT_SIZE" "allocated (AT s p) \<noteq> 0" "AT u = (AT s)(p := AT s p\<lparr>allocated := 0\<rparr>)"
  shows "pages_allocated s = Suc (pages_allocated u)"
proof -
  let ?S = "\<lambda>s. {i. i < AT_SIZE \<and> allocated (AT s i) \<noteq> 0}"
  have "?S s = insert p (?S u)" "p \<notin> ?S u" using assms by (auto split: if_splits)
  then show ?thesis by (simp add: pages_allocated_def)
qed

lemma free_accounting:
  assumes inv: "cont_inv s" and i: "in_use s i" and t: "container_free i p s = Inr (x, t)"
  shows "cont_inv t \<and> remaining t + pages_allocated t \<le> remaining s + pages_allocated s"
proof -
  have p: "p < AT_SIZE"
    using t by (auto simp: container_free_def at_is_allocated_def kern_Inr_iffs split: if_splits)
  define u where
    "u = s\<lparr>AT := (AT s)(p := AT s p\<lparr>allocated := 0\<rparr>), mem_lk := spinlock_release_A (mem_lk s)\<rparr>"
  have eq: "t = (if allocated (AT s p) = 0 then s else uncharge u i)"
    using container_free_ok [OF inv i p] t by (auto simp: u_def)
  have sel: "AT u = (AT s)(p := AT s p\<lparr>allocated := 0\<rparr>)" "CONTAINER u = CONTAINER s"
    by (simp_all add: u_def)
  have "mat_inv u" using inv by (auto simp: u_def cont_inv_def mat_inv_def dest: lock_ready_magic)
  then have u: "cont_inv u" using sel(2) by (rule cont_inv_frame [OF inv])
  have iu: "in_use u i" using i by (simp add: in_use_def sel)
  have "remaining u = remaining s" by (simp add: remaining_def in_use_def sel)
  moreover have "pages_allocated (uncharge u i) = pages_allocated u" by (simp add: pages_allocated_def)
  ultimately show ?thesis
    using eq inv uncharge_remaining [OF u iu] uncharge_inv [OF u iu] pages_allocated_free [OF p _ sel(1)]
    by (cases "allocated (AT s p) = 0") simp_all
qed

lemma pmm_step_inv:
  assumes "pmm_step s t" "cont_inv s"
  shows "cont_inv t \<and> remaining t + pages_allocated t \<le> remaining s + pages_allocated s"
  using assms
proof (induction rule: pmm_step.induct)
  case (step_alloc s i r t)
  then show ?case using alloc_accounting [of s i r t] by auto
next
  case (step_free s i p x t)
  then show ?case using free_accounting [of s i p x t] by auto
next
  case (step_split s i q c t)
  then have "t = split_state s i q (i * MAX_CHILDREN + 1 + nchildren (CONTAINER s i))"
    by (auto simp: container_split_eq Let_def)
  moreover have "pages_allocated (split_state s i q c) = pages_allocated s" for c
    by (simp add: pages_allocated_def split_state_def)
  ultimately show ?case
    using step_split split_state_inv [of s i q] split_state_remaining [of s i q] by simp
qed

lemma pmm_run_inv:
  assumes "pmm_step\<^sup>*\<^sup>* s t" "cont_inv s"
  shows "cont_inv t \<and> remaining t + pages_allocated t \<le> remaining s + pages_allocated s"
  using assms
  by (induction rule: rtranclp_induct) (auto dest: pmm_step_inv)

section \<open>Initialisation\<close>

lemma quota_loop_ok:
  assumes "i \<le> nps" "nps \<le> AT_SIZE"
  shows "quota_loop nps i q s =
    Inr (q + of_nat (card {j. i \<le> j \<and> j < nps \<and> page_avail s j}), s)"
  using assms(1)
proof (induction i arbitrary: q rule: upto_induct)
  case finish
  have e: "{j. nps \<le> j \<and> j < nps \<and> page_avail s j} = {}" by auto
  show ?case unfolding e by (simp add: quota_loop.simps [of nps nps])
next
  case (step i)
  let ?S = "\<lambda>i. {j. i \<le> j \<and> j < nps \<and> page_avail s j}"
  have "?S i = (if page_avail s i then insert i (?S (i + 1)) else ?S (i + 1))"
    unfolding Suc_le_iff [OF step.hyps] using step.hyps by (auto simp: order_le_less)
  moreover have "i \<notin> ?S (i + 1)" by (simp add: Suc_le_iff [OF step.hyps])
  ultimately have "card (?S i) = (if page_avail s i then Suc (card (?S (i + 1))) else card (?S (i + 1)))"
    by (simp del: mem_Collect_eq)
  moreover have "quota_loop nps i q s = quota_loop nps (i + 1) (if page_avail s i then q + 1 else q) s"
    using step.hyps assms(2) by (auto simp: quota_loop.simps [of nps i] page_avail_def)
  ultimately show ?case by (simp add: step.IH)
qed

lemma container_init_ok:
  assumes dev: "devinit mbi_addr s = Inr ((), u)" and ok: "pmmap_ok u" "pmmap_list u \<noteq> []"
    and ks: "ks_magic (cur_kstack u) = SPIN_KSTACK_MAGIC"
    and last: "last_palloc_index u < AT_SIZE"
    and fresh: "\<And>c. c < NUM_IDS \<Longrightarrow> used (CONTAINER u c) = 0"
  shows "\<exists>t. container_init devinit mbi_addr s = Inr ((), t) \<and> cont_inv t \<and>
     (\<forall>c. in_use t c \<longleftrightarrow> c = 0) \<and> usage (CONTAINER t 0) = 0 \<and>
     remaining t = card {j. 1 \<le> j \<and> j < NUM_PAGES t \<and> page_avail t j} \<and>
     (\<forall>j < NUM_PAGES t. AT t j = \<lparr>perm = page_class (pmmap_list u) j, allocated = 0\<rparr>) \<and>
     cur_kstack t = cur_kstack u \<and> pcpu_tbl t = pcpu_tbl u \<and> cont_state.more t = cont_state.more u"
proof -
  obtain v where v: "pmem_init devinit mbi_addr s = Inr ((), v)"
    "v = u\<lparr>mem_lk := spinlock_init (mem_lk u), NUM_PAGES := nps_of (pmmap_list u), AT := AT v\<rparr>"
    "\<forall>i < NUM_PAGES v. AT v i = \<lparr>perm = page_class (pmmap_list u) i, allocated = 0\<rparr>"
    using pmem_init_ok [of devinit, OF dev ok(1)] by blast
  let ?n = "nps_of (pmmap_list u)"
  let ?S = "{j. 1 \<le> j \<and> j < ?n \<and> page_avail v j}"
  define k where "k = card ?S"
  define t where "t = v\<lparr>CONTAINER := (CONTAINER v)
     (0 := \<lparr>quota = of_nat k, usage = 0, parent = 0, nchildren = 0, used = 1\<rparr>)\<rparr>"
  have sel: "NUM_PAGES v = ?n" "CONTAINER v = CONTAINER u" "cur_kstack v = cur_kstack u"
    "mem_lk v = spinlock_init (mem_lk u)" "last_palloc_index v = last_palloc_index u"
    "pcpu_tbl v = pcpu_tbl u" "cont_state.more v = cont_state.more u"
    by (subst v(2), simp)+
  have n: "0 < ?n" "?n \<le> AT_SIZE" using nps_of_pos [OF ok(2)] nps_of_le by auto
  then have "1 \<le> ?n" by (simp add: word_le_nat_alt word_less_nat_alt)
  then have "quota_loop ?n 1 0 v = Inr (of_nat k, v)"
    using quota_loop_ok [OF _ n(2), of 1 0 v] by (simp add: k_def)
  then have init: "container_init devinit mbi_addr s = Inr ((), t)"
    using v(1) sel by (simp add: container_init_def get_nps_def NUM_IDS_def t_def)
  have "k \<le> card {j. j < ?n}" unfolding k_def by (intro card_mono) auto
  also have "card {j. j < ?n} \<le> unat ?n" by (rule card_word_less)
  finally have k: "k \<le> 0x100000" using n(2) by (simp add: word_le_nat_alt AT_SIZE_def)
  then have card: "unat (of_nat k :: u32) = k" by (simp add: unat_of_nat)
  have use: "in_use t c \<longleftrightarrow> c = 0" for c
    using fresh by (auto simp: in_use_def sel NUM_IDS_def t_def)
  have at0: "CONTAINER t 0 = \<lparr>quota = of_nat k, usage = 0, parent = 0, nchildren = 0, used = 1\<rparr>"
    by (simp add: t_def)
  have "mat_inv t"
    using n last ks by (simp add: mat_inv_def sel t_def)
  moreover have "(of_nat k :: u32) < 0x80000000" using k card by (simp add: word_less_nat_alt)
  ultimately have "cont_inv t" unfolding cont_inv_def use by (simp add: at0)
  moreover have "remaining t = k"
    using card by (simp add: remaining_def use at0)
  moreover have "page_avail t j = page_avail v j" "NUM_PAGES t = ?n" "AT t = AT v"
    "cur_kstack t = cur_kstack u" "pcpu_tbl t = pcpu_tbl u" "cont_state.more t = cont_state.more u" for j
    by (simp_all add: page_avail_def page_norm_def t_def sel)
  ultimately show ?thesis using init use at0 v(3) sel(1) by (simp add: k_def)
qed

section \<open>A container is a page allocator\<close>

interpretation cont: page_alloc "container_alloc i" "container_free i" page_avail
  "\<lambda>s. cont_inv s \<and> in_use s i" for i
proof unfold_locales
  fix s :: "'a cont_state_scheme"
  assume "cont_inv s \<and> in_use s i"
  then obtain r t where t: "container_alloc i s = Inr (r, t)" "cont_inv t"
    "r = 0 \<and> t = s \<or> palloc_post (charge s i) r t" and i: "in_use s i"
    using container_alloc_ok [of s i] by blast
  then have "in_use t i" using palloc_post_frame(2) [of "charge s i" r t i] by auto
  moreover have "page_avail (charge s i) = page_avail s" by (rule ext) simp
  ultimately show "\<exists>r t. container_alloc i s = Inr (r, t) \<and> (cont_inv t \<and> in_use t i) \<and>
      (if r = 0 then page_avail t = page_avail s
       else page_avail s r \<and> page_avail t = (page_avail s)(r := False))"
    using t palloc_avail [of "charge s i" r t] by (intro exI [of _ r] exI [of _ t]) auto
next
  fix s t :: "'a cont_state_scheme" and p x b
  assume s: "cont_inv s \<and> in_use s i" and t: "container_free i p s = Inr (x, t)"
  then have "p < AT_SIZE"
    by (auto simp: container_free_def at_is_allocated_def kern_Inr_iffs split: if_splits)
  then have "t = (if allocated (AT s p) = 0 then s
     else uncharge (s\<lparr>AT := (AT s)(p := AT s p\<lparr>allocated := 0\<rparr>),
                      mem_lk := spinlock_release_A (mem_lk s)\<rparr>) i)"
    using container_free_ok [of s i p] s t by auto
  then have "in_use t i" "(page_avail t)(p := b) = (page_avail s)(p := b)"
    using s by (auto simp: in_use_def page_avail_def page_norm_def uncharge_def intro!: ext)
  then show "(cont_inv t \<and> in_use t i) \<and> (page_avail t)(p := b) = (page_avail s)(p := b)"
    using free_accounting [of s i p x t] s t by blast
qed

section \<open>Properties\<close>

text \<open>
  C28. No run of \<^verbatim>\<open>container_alloc\<close>, \<^verbatim>\<open>container_free\<close> and \<^verbatim>\<open>container_split\<close> (the last within
  its guards), in any order and on any containers in use, breaks the tree: usage stays
  within quota everywhere, and the unspent quota plus the pages handed out never grows.
\<close>

theorem container_accounting:
  assumes "cont_inv s" "pmm_step\<^sup>*\<^sup>* s t"
  shows "cont_inv t \<and> remaining t + pages_allocated t \<le> remaining s + pages_allocated s"
  using pmm_run_inv [OF assms(2,1)] .

text \<open>
  C34. \<^verbatim>\<open>container_init\<close> on a machine with a non-empty memory map and no container in use
  leaves one container, the root, whose whole quota is the number of available pages
  from page 1 to the end of memory, and the tree well formed.
\<close>

theorem container_init_correct:
  assumes "devinit mbi_addr s = Inr ((), u)" "pmmap_ok u" "pmmap_list u \<noteq> []"
    and "ks_magic (cur_kstack u) = SPIN_KSTACK_MAGIC" "last_palloc_index u < AT_SIZE"
    and "\<And>c. c < NUM_IDS \<Longrightarrow> used (CONTAINER u c) = 0"
  shows "\<exists>t. container_init devinit mbi_addr s = Inr ((), t) \<and> cont_inv t \<and>
     {c. in_use t c} = {0} \<and> usage (CONTAINER t 0) = 0 \<and>
     remaining t = card {j. 1 \<le> j \<and> j < NUM_PAGES t \<and> page_avail t j}"
  using container_init_ok [of devinit mbi_addr s u] assms by auto

text \<open>
  C33. \<^verbatim>\<open>container_split\<close> within its guards gives a child that was not in use, with the
  quota asked for, and charges it to the parent: what the tree may still hand out is
  unchanged and the tree stays well formed.
\<close>

theorem container_split_correct:
  assumes inv: "cont_inv s" and can: "can_split s i q"
  shows "\<exists>child t. container_split i q s = Inr (child, t) \<and> \<not> in_use s child \<and>
     {c. in_use t c} = insert child {c. in_use s c} \<and>
     quota (CONTAINER t child) = q \<and> usage (CONTAINER t child) = 0 \<and> parent (CONTAINER t child) = i \<and>
     usage (CONTAINER t i) = usage (CONTAINER s i) + q \<and>
     remaining t = remaining s \<and> cont_inv t"
proof -
  let ?c = "i * MAX_CHILDREN + 1 + nchildren (CONTAINER s i)"
  have i: "i < NUM_IDS" "nchildren (CONTAINER s i) < MAX_CHILDREN" "?c < NUM_IDS"
    using can by (auto simp: can_split_def in_use_def)
  show ?thesis
    using container_split_eq [OF can] next_child_fresh [OF inv can] split_state_inv [OF inv can]
      split_state_remaining [OF inv can] child_arith(4) [OF i(1,2)]
      in_use_split_state [OF i(1,3) child_arith(4) [OF i(1,2)]]
    by (auto simp: Let_def split_state_CONTAINER)
qed

text \<open>
  C35. Any number of allocations of a container in a row succeed; the pages they return
  are different from each other, were available before and are not afterwards, and no
  other page changes.
\<close>

theorem container_allocs_distinct:
  assumes "cont_inv s" "in_use s i"
  shows "\<exists>rs t. allocs (container_alloc i) n s = Inr (rs, t) \<and> cont_inv t \<and> length rs = n \<and>
     distinct (filter (\<lambda>r. r \<noteq> 0) rs) \<and> set rs - {0} \<subseteq> {p. page_avail s p} \<and>
     {p. page_avail t p} - {0} = {p. page_avail s p} - set rs - {0}"
proof -
  obtain rs t where t: "allocs (container_alloc i) n s = Inr (rs, t)" "cont_inv t" "length rs = n"
    "distinct (filter (\<lambda>r. r \<noteq> 0) rs)" "\<forall>r \<in> set rs. r \<noteq> 0 \<longrightarrow> page_avail s r"
    "\<forall>p. page_avail t p \<longleftrightarrow> page_avail s p \<and> (p \<notin> set rs \<or> p = 0)"
    using cont.allocs_distinct [of s i n] assms by blast
  moreover have "set rs - {0} \<subseteq> {p. page_avail s p}"
    "{p. page_avail t p} - {0} = {p. page_avail s p} - set rs - {0}"
    using t(5,6) by auto
  ultimately show ?thesis by blast
qed

text \<open>
  \<^verbatim>\<open>container_can_consume\<close> decides whether \<open>n\<close> more pages fit in the quota of a
  container in use, for \<open>n\<close> below \<open>2 ^ 31\<close>.
\<close>

theorem container_can_consume_correct:
  assumes "cont_inv s" "in_use s i" "n < 0x80000000"
  shows "container_can_consume i n s =
    Inr (if unat (usage (CONTAINER s i)) + unat n \<le> unat (quota (CONTAINER s i)) then 1 else 0, s)"
proof -
  have "usage (CONTAINER s i) < 0x80000000" using assms(1,2) by (auto simp: cont_inv_def)
  then have "unat (usage (CONTAINER s i) + n) = unat (usage (CONTAINER s i)) + unat n"
    using assms(3) by (intro unat_add_exact) (auto simp: word_less_nat_alt)
  then show ?thesis
    using assms(2) by (simp add: container_can_consume_def in_use_def word_less_nat_alt not_less)
qed

text \<open>A root container with two pages to give.\<close>

definition two_quota :: cont_state where
  "two_quota = mat_state.extend two_pages (cont_state.fields
     ((\<lambda>_. \<lparr>quota = 0, usage = 0, parent = 0, nchildren = 0, used = 0\<rparr>)
      (0 := \<lparr>quota = 2, usage = 0, parent = 0, nchildren = 0, used = 1\<rparr>)))"

lemmas two_quota_defs = two_quota_def two_pages_def boot_mat_defs cont_state.defs

lemma two_quota_use: "in_use two_quota c \<longleftrightarrow> c = 0"
  by (simp add: two_quota_defs in_use_def NUM_IDS_def)

lemma two_quota_inv: "cont_inv two_quota"
  by (simp add: cont_inv_def two_quota_use)
     (simp add: two_quota_defs mat_inv_def AT_SIZE_def VM_USERLO_PI_def lock_ready_def)

lemma two_quota_can_split: "can_split two_quota 0 1"
  by (simp add: can_split_def two_quota_use) (simp add: two_quota_defs MAX_CHILDREN_def NUM_IDS_def)

theorem container_split_correct_witness:
  "\<exists>child t. container_split 0 1 two_quota = Inr (child, t) \<and> \<not> in_use two_quota child \<and>
     {c. in_use t c} = insert child {c. in_use two_quota c} \<and>
     quota (CONTAINER t child) = 1 \<and> usage (CONTAINER t child) = 0 \<and> parent (CONTAINER t child) = 0 \<and>
     usage (CONTAINER t 0) = usage (CONTAINER two_quota 0) + 1 \<and>
     remaining t = remaining two_quota \<and> cont_inv t"
  by (rule container_split_correct [OF two_quota_inv two_quota_can_split])

lemma two_quota_split:
  "pmm_step two_quota (split_state two_quota 0 1 1)"
  using container_split_eq [OF two_quota_can_split] two_quota_can_split
  by (intro step_split [of two_quota 0 1 1]) (simp_all add: Let_def, simp add: two_quota_defs MAX_CHILDREN_def)

theorem container_accounting_witness:
  "cont_inv (split_state two_quota 0 1 1) \<and>
   remaining (split_state two_quota 0 1 1) + pages_allocated (split_state two_quota 0 1 1)
     \<le> remaining two_quota + pages_allocated two_quota"
  by (rule container_accounting [OF two_quota_inv]) (rule r_into_rtranclp [of pmm_step, OF two_quota_split])

theorem container_allocs_distinct_witness:
  "\<exists>rs t. allocs (container_alloc 0) 3 two_quota = Inr (rs, t) \<and> cont_inv t \<and> length rs = 3 \<and>
     distinct (filter (\<lambda>r. r \<noteq> 0) rs) \<and> set rs - {0} \<subseteq> {p. page_avail two_quota p} \<and>
     {p. page_avail t p} - {0} = {p. page_avail two_quota p} - set rs - {0}"
  by (rule container_allocs_distinct [OF two_quota_inv]) (simp add: two_quota_use)

theorem container_can_consume_correct_witness:
  "container_can_consume 0 2 two_quota = Inr (1, two_quota) \<and>
   container_can_consume 0 3 two_quota = Inr (0, two_quota)"
  using container_can_consume_correct [OF two_quota_inv, of 0 2]
    container_can_consume_correct [OF two_quota_inv, of 0 3]
  by (simp add: two_quota_use) (simp add: two_quota_defs)

definition boot_cont :: cont_state where
  "boot_cont = mat_state.extend boot_mat
     (cont_state.fields (\<lambda>_. \<lparr>quota = 0, usage = 0, parent = 0, nchildren = 0, used = 0\<rparr>))"

theorem container_init_correct_witness:
  "\<exists>t. container_init (\<lambda>_. pmmap_init e820_2GB) 0 boot_cont = Inr ((), t) \<and> cont_inv t \<and>
     {c. in_use t c} = {0} \<and> usage (CONTAINER t 0) = 0 \<and>
     remaining t = card {j. 1 \<le> j \<and> j < NUM_PAGES t \<and> page_avail t j}"
proof -
  have known: "known_types e820_2GB" by code_simp
  have len: "pmmap_slots_next_free boot_cont + length e820_2GB \<le> 128"
    by (simp add: boot_cont_def boot_mat_defs cont_state.defs e820_2GB_def)
  obtain u where u: "pmmap_init e820_2GB boot_cont = Inr ((), u)" "pmmap_list u = pmmap_final e820_2GB"
    "pmmap_nentries u = pmmap_nentries boot_cont + of_nat (length (pmmap_final e820_2GB))"
    "cur_kstack u = cur_kstack boot_cont" "mboot_state.more u = mboot_state.more boot_cont"
    using pmmap_init_ok [OF len known] by blast
  have more: "last_palloc_index u = last_palloc_index boot_cont" "CONTAINER u = CONTAINER boot_cont"
    using u(5) by (cases u, simp add: boot_cont_def boot_mat_defs cont_state.defs)+
  have "pmmap_ok u"
    using pmmap_final_sorted [of e820_2GB] pmmap_final_ranges_ok [of e820_2GB] u
    by (simp add: pmmap_ok_def pmmap_final_2GB) (simp add: boot_cont_def boot_mat_defs cont_state.defs)
  then show ?thesis
    using u more
    by (intro container_init_correct [of _ _ _ u])
       (simp_all add: boot_cont_def boot_mat_defs cont_state.defs AT_SIZE_def VM_USERLO_PI_def
          pmmap_final_2GB)
qed

text \<open>
  The sum in \<^verbatim>\<open>container_can_consume\<close> wraps: a container that has used one page of its
  quota of two is told that it can consume \<open>2 ^ 32 - 1\<close> more.
\<close>

theorem container_can_consume_wraps:
  "container_can_consume 0 0xffffffff (charge two_quota 0) = Inr (1, charge two_quota 0)"
  by (simp add: container_can_consume_def NUM_IDS_def) (simp add: two_quota_defs)

end
