(* ===== verification/Mem.thy ===== *)
theory Mem
  imports KPrelude
begin

text \<open>
  Byte-addressed memory and the routines of \<^verbatim>\<open>kern/lib/string.c\<close> that write it:
  \<^verbatim>\<open>memset\<close>, \<^verbatim>\<open>memmove\<close>, \<^verbatim>\<open>memcpy\<close> and \<^verbatim>\<open>memzero\<close>, with the string instructions of the processor as the loops they are. Main results: the word-wise fast paths write
  what the byte-wise loops would, and \<^verbatim>\<open>memmove\<close> is a copy also when the regions overlap.
\<close>

type_synonym memory = "u32 \<Rightarrow> u8"

definition load32 :: "memory \<Rightarrow> u32 \<Rightarrow> u32" where
  "load32 m a =
     ucast (m a) OR push_bit 8 (ucast (m (a + 1))) OR
     push_bit 16 (ucast (m (a + 2))) OR push_bit 24 (ucast (m (a + 3)))"

definition store32 :: "memory \<Rightarrow> u32 \<Rightarrow> u32 \<Rightarrow> memory" where
  "store32 m a v =
     m(a := ucast v, a + 1 := ucast (drop_bit 8 v), a + 2 := ucast (drop_bit 16 v),
       a + 3 := ucast (drop_bit 24 v))"

section \<open>Ranges of addresses\<close>

text \<open>
  The address \<open>a\<close> lies at offset \<open>unat (a - d)\<close> from \<open>d\<close>; the offset of the next address
  is one more, except for the last.
\<close>

lemma offset_Suc:
  fixes a d :: u32
  assumes "j + k \<le> 2 ^ 32" "k > 0"
  shows "unat (a - (d + of_nat j)) < k \<longleftrightarrow> j \<le> unat (a - d) \<and> unat (a - d) < j + k"
proof -
  have eq: "a - (d + of_nat j) = (a - d) - of_nat j" by simp
  have j: "unat (of_nat j :: u32) = j"
    using assms by (simp add: unat_of_nat)
  show ?thesis
  proof (cases "j \<le> unat (a - d)")
    case True
    then have "unat ((a - d) - of_nat j) = unat (a - d) - j"
      using j by (simp add: unat_sub_exact word_le_nat_alt)
    then show ?thesis unfolding eq using True by linarith
  next
    case False
    then have "unat ((a - d) - of_nat j) = unat (a - d) + 2 ^ 32 - j"
      using j unat_sub_if' [of "a - d" "of_nat j"] by (simp add: word_le_nat_alt)
    then show ?thesis unfolding eq using False assms by linarith
  qed
qed

text \<open>The copy of \<open>k\<close> bytes from \<open>s\<close> to \<open>d\<close>, and the filling of \<open>k\<close> bytes.\<close>

definition blit :: "memory \<Rightarrow> u32 \<Rightarrow> u32 \<Rightarrow> nat \<Rightarrow> memory" where
  "blit m d s k = (\<lambda>a. if unat (a - d) < k then m (s + (a - d)) else m a)"

definition fill :: "memory \<Rightarrow> u32 \<Rightarrow> u8 \<Rightarrow> nat \<Rightarrow> memory" where
  "fill m d c k = (\<lambda>a. if unat (a - d) < k then c else m a)"

lemma blit_0 [simp]: "blit m d s 0 = m"
  by (simp add: blit_def)

lemma fill_0 [simp]: "fill m d c 0 = m"
  by (simp add: fill_def)

lemma blit_1: "blit m d s (Suc 0) = m(d := m s)"
  by (auto simp: blit_def fun_eq_iff unat_eq_0 less_Suc_eq)

lemma fill_1: "fill m d c (Suc 0) = m(d := c)"
  by (auto simp: fill_def fun_eq_iff unat_eq_0 less_Suc_eq)

lemma fill_fill:
  assumes "j + k \<le> 2 ^ 32"
  shows "fill (fill m d c j) (d + of_nat j) c k = fill m d c (j + k)"
  using assms by (cases k) (auto simp: fill_def offset_Suc fun_eq_iff)

text \<open>Copying the first \<open>j\<close> bytes and then the next \<open>k\<close>, or the other way round.\<close>

lemma blit_up:
  assumes len: "j + k \<le> 2 ^ 32" and sep: "unat (d - s) = 0 \<or> j + k \<le> unat (d - s)"
  shows "blit (blit m d s j) (d + of_nat j) (s + of_nat j) k = blit m d s (j + k)"
proof (cases "k = 0")
  case False
  have "blit m d s j (s + (a - d)) = m (s + (a - d))"
    if a: "j \<le> unat (a - d)" "unat (a - d) < j + k" for a
  proof (cases "unat (d - s) = 0")
    case True
    then have "d = s" by (simp add: unat_eq_0)
    then show ?thesis using a by (simp add: blit_def)
  next
    case False
    then have le: "j + k \<le> unat (d - s)" using sep by simp
    have eq: "s + (a - d) - d = (a - d) - (d - s)" by simp
    have "unat ((a - d) - (d - s)) = unat (a - d) + 2 ^ 32 - unat (d - s)"
      using a le unat_sub_if' [of "a - d" "d - s"] by (simp add: word_le_nat_alt)
    also have "\<dots> \<ge> j" using a unat_lt2p [of "d - s"] by simp
    finally show ?thesis by (simp add: blit_def eq)
  qed
  moreover have "s + of_nat j + (a - (d + of_nat j)) = s + (a - d)" for a by simp
  ultimately show ?thesis
    using False len by (intro ext) (auto simp: blit_def [of _ _ _ k] blit_def [of m d s "j + k"]
        offset_Suc, auto simp: blit_def)
qed simp

lemma blit_down:
  assumes len: "j + k \<le> 2 ^ 32" and sep: "unat (s - d) = 0 \<or> j + k \<le> unat (s - d)"
  shows "blit (blit m (d + of_nat j) (s + of_nat j) k) d s j = blit m d s (j + k)"
proof (cases "k = 0")
  case False
  have "blit m (d + of_nat j) (s + of_nat j) k (s + (a - d)) = m (s + (a - d))"
    if a: "unat (a - d) < j" for a
  proof (cases "unat (s - d) = 0")
    case True
    then have "s = d" by (simp add: unat_eq_0)
    then show ?thesis using a len False by (simp add: blit_def offset_Suc)
  next
    case nz: False
    then have le: "j + k \<le> unat (s - d)" using sep by simp
    have eq: "s + (a - d) - d = (s - d) + (a - d)" by simp
    have "\<not> (j \<le> unat (s + (a - d) - d) \<and> unat (s + (a - d) - d) < j + k)"
      unfolding eq using a le unat_plus_if' [of "s - d" "a - d"] unat_lt2p [of "s - d"] by auto
    then have "\<not> unat (s + (a - d) - (d + of_nat j)) < k"
      using len False offset_Suc [of j k "s + (a - d)" d] by blast
    then show ?thesis by (simp only: blit_def if_False)
  qed
  moreover have "s + of_nat j + (a - (d + of_nat j)) = s + (a - d)" for a by simp
  ultimately show ?thesis
    using False len by (intro ext) (auto simp: blit_def [of _ _ _ j] blit_def [of m d s "j + k"],
        auto simp: blit_def offset_Suc)
qed simp

section \<open>Words in memory\<close>

definition aligned4 :: "u32 \<Rightarrow> bool" where
  "aligned4 a \<longleftrightarrow> a mod 4 = 0"

lemma load32_bytes:
  "ucast (load32 m a) = m a" "ucast (drop_bit 8 (load32 m a)) = m (a + 1)"
  "ucast (drop_bit 16 (load32 m a)) = m (a + 2)" "ucast (drop_bit 24 (load32 m a)) = m (a + 3)"
  by - (rule bit_word_eqI, auto simp: load32_def bit_simps dest: bit_imp_le_length)+

lemma bytes_load32:
  "m a = ucast v \<Longrightarrow> m (a + 1) = ucast (drop_bit 8 v) \<Longrightarrow> m (a + 2) = ucast (drop_bit 16 v) \<Longrightarrow>
   m (a + 3) = ucast (drop_bit 24 v) \<Longrightarrow> load32 m a = v"
  by (rule bit_word_eqI, rename_tac n, case_tac "24 \<le> n"; case_tac "16 \<le> n"; case_tac "8 \<le> n")
     (auto simp: load32_def bit_simps)

lemma offset_neq:
  fixes a b :: u32
  assumes "aligned4 a" "aligned4 b" "i < 4" "j < 4" "a + of_nat i = b + of_nat j"
  shows "a = b" "i = j"
proof -
  have r: "unat (c + of_nat k) mod 4 = k" if "aligned4 c" "k < 4" for c :: u32 and k
  proof -
    have "unat (c mod 4) = 0" using that(1) by (simp add: aligned4_def)
    then have "unat c mod 4 = 0" by (simp add: unat_mod)
    moreover have "unat (of_nat k :: u32) = k" using that(2) by (simp add: unat_of_nat)
    ultimately have "unat (c + of_nat k) mod 4 = (unat c + k) mod 4"
      by (simp add: unat_word_ariths mod_mod_cancel)
    then show ?thesis using \<open>unat c mod 4 = 0\<close> that(2) by presburger
  qed
  show "i = j" using r [OF assms(1,3)] r [OF assms(2,4)] assms(5) by simp
  then show "a = b" using assms(5) by simp
qed

lemma store32_at:
  "store32 m a v b =
     (if b = a + 3 then ucast (drop_bit 24 v) else if b = a + 2 then ucast (drop_bit 16 v)
      else if b = a + 1 then ucast (drop_bit 8 v) else if b = a then ucast v else m b)"
  by (simp add: store32_def)

lemma load32_store32_same [simp]: "load32 (store32 m a v) a = v"
  by (rule bytes_load32) (simp_all add: store32_at)

lemma load32_store32_other:
  assumes "aligned4 a" "aligned4 b" "a \<noteq> b"
  shows "load32 (store32 m a v) b = load32 m b"
proof -
  have ne: "b + of_nat j \<noteq> a + of_nat i" if "i < 4" "j < 4" for i j
    using offset_neq(1) [OF assms(2,1) that(2,1)] assms(3) by auto
  have "store32 m a v (b + of_nat j) = m (b + of_nat j)" if "j < 4" for j
    using ne [of 0 j] ne [of 1 j] ne [of 2 j] ne [of 3 j] that by (simp add: store32_at)
  from this [of 0] this [of 1] this [of 2] this [of 3]
  show ?thesis by (simp add: load32_def)
qed

lemma load32_store32:
  "aligned4 a \<Longrightarrow> aligned4 b \<Longrightarrow> load32 (store32 m a v) b = (if a = b then v else load32 m b)"
  by (simp add: load32_store32_other)

lemma offset_less_4:
  fixes a d :: u32
  shows "unat (a - d) < 4 \<longleftrightarrow> a = d \<or> a = d + 1 \<or> a = d + 2 \<or> a = d + 3"
proof -
  have "unat (a - d) < 4 \<longleftrightarrow> unat (a - d) = 0 \<or> unat (a - d) = 1 \<or> unat (a - d) = 2 \<or> unat (a - d) = 3"
    by auto
  also have "\<dots> \<longleftrightarrow> a - d = 0 \<or> a - d = 1 \<or> a - d = 2 \<or> a - d = 3"
    by (simp add: word_unat_eq_iff)
  finally show ?thesis by (simp add: diff_eq_eq add.commute)
qed

lemma store32_load32: "store32 m d (load32 m s) = blit m d s 4"
  by (rule ext) (auto simp: store32_at load32_bytes blit_def offset_less_4)

lemma store32_fill:
  assumes "v = ucast c OR push_bit 8 (ucast c) OR push_bit 16 (ucast c) OR push_bit 24 (ucast c)"
  shows "store32 m d v = fill m d c 4"
proof -
  have "v = load32 (\<lambda>_. c) d" using assms by (simp add: load32_def)
  then show ?thesis by (auto simp: store32_at load32_bytes fill_def offset_less_4)
qed

section \<open>The string instructions\<close>

text \<open>
  \<^verbatim>\<open>rep stos\<close> and \<^verbatim>\<open>rep movs\<close>, on bytes and on words, upwards (direction flag clear) and
  downwards (direction flag set); the count is \<^verbatim>\<open>ecx\<close>.
\<close>

primrec rep_stosb :: "nat \<Rightarrow> u32 \<Rightarrow> u8 \<Rightarrow> memory \<Rightarrow> memory" where
  "rep_stosb 0 d c m = m"
| "rep_stosb (Suc k) d c m = rep_stosb k (d + 1) c (m(d := c))"

primrec rep_stosl :: "nat \<Rightarrow> u32 \<Rightarrow> u32 \<Rightarrow> memory \<Rightarrow> memory" where
  "rep_stosl 0 d v m = m"
| "rep_stosl (Suc k) d v m = rep_stosl k (d + 4) v (store32 m d v)"

primrec rep_movsb :: "nat \<Rightarrow> u32 \<Rightarrow> u32 \<Rightarrow> memory \<Rightarrow> memory" where
  "rep_movsb 0 d s m = m"
| "rep_movsb (Suc k) d s m = rep_movsb k (d + 1) (s + 1) (m(d := m s))"

primrec rep_movsl :: "nat \<Rightarrow> u32 \<Rightarrow> u32 \<Rightarrow> memory \<Rightarrow> memory" where
  "rep_movsl 0 d s m = m"
| "rep_movsl (Suc k) d s m = rep_movsl k (d + 4) (s + 4) (store32 m d (load32 m s))"

primrec std_movsb :: "nat \<Rightarrow> u32 \<Rightarrow> u32 \<Rightarrow> memory \<Rightarrow> memory" where
  "std_movsb 0 d s m = m"
| "std_movsb (Suc k) d s m = std_movsb k (d - 1) (s - 1) (m(d := m s))"

primrec std_movsl :: "nat \<Rightarrow> u32 \<Rightarrow> u32 \<Rightarrow> memory \<Rightarrow> memory" where
  "std_movsl 0 d s m = m"
| "std_movsl (Suc k) d s m = std_movsl k (d - 4) (s - 4) (store32 m d (load32 m s))"

lemma rep_stosb_fill: "k \<le> 2 ^ 32 \<Longrightarrow> rep_stosb k d c m = fill m d c k"
proof (induction k arbitrary: d m)
  case (Suc k)
  then show ?case using fill_fill [of 1 k m d c] by (simp add: fill_1 [symmetric])
qed simp

lemma rep_stosl_fill:
  assumes v: "v = ucast c OR push_bit 8 (ucast c) OR push_bit 16 (ucast c) OR push_bit 24 (ucast c)"
  shows "4 * k \<le> 2 ^ 32 \<Longrightarrow> rep_stosl k d v m = fill m d c (4 * k)"
proof (induction k arbitrary: d m)
  case (Suc k)
  then show ?case using fill_fill [of 4 "4 * k" m d c] by (simp add: store32_fill [OF v])
qed simp

definition clear_up :: "u32 \<Rightarrow> u32 \<Rightarrow> nat \<Rightarrow> bool" where
  "clear_up d s k \<longleftrightarrow> k \<le> 2 ^ 32 \<and> (unat (d - s) = 0 \<or> k \<le> unat (d - s))"

lemma rep_movsb_blit: "clear_up d s k \<Longrightarrow> rep_movsb k d s m = blit m d s k"
proof (induction k arbitrary: d s m)
  case (Suc k)
  then have "rep_movsb k (d + 1) (s + 1) (blit m d s 1) = blit (blit m d s 1) (d + 1) (s + 1) k"
    by (intro Suc.IH) (auto simp: clear_up_def)
  moreover have "blit (blit m d s 1) (d + 1) (s + 1) k = blit m d s (Suc k)"
    using blit_up [of 1 k d s m] Suc.prems by (simp add: clear_up_def)
  ultimately show ?case by (simp add: blit_1)
qed simp

lemma rep_movsl_blit: "clear_up d s (4 * k) \<Longrightarrow> rep_movsl k d s m = blit m d s (4 * k)"
proof (induction k arbitrary: d s m)
  case (Suc k)
  then have "rep_movsl k (d + 4) (s + 4) (blit m d s 4) = blit (blit m d s 4) (d + 4) (s + 4) (4 * k)"
    by (intro Suc.IH) (auto simp: clear_up_def)
  moreover have "blit (blit m d s 4) (d + 4) (s + 4) (4 * k) = blit m d s (4 + 4 * k)"
    using blit_up [of 4 "4 * k" d s m] Suc.prems by (simp add: clear_up_def)
  ultimately show ?case by (simp add: store32_load32)
qed simp

lemma std_movsb_blit:
  "clear_up s d k \<Longrightarrow> std_movsb k (d + of_nat k - 1) (s + of_nat k - 1) m = blit m d s k"
proof (induction k arbitrary: m)
  case (Suc k)
  let ?m = "blit m (d + of_nat k) (s + of_nat k) 1"
  have "std_movsb k (d + of_nat k - 1) (s + of_nat k - 1) ?m = blit ?m d s k"
    using Suc by (auto simp: clear_up_def)
  moreover have "blit ?m d s k = blit m d s (Suc k)"
    using blit_down [of k 1 s d m] Suc.prems by (simp add: clear_up_def)
  ultimately show ?case by (simp add: blit_1 algebra_simps)
qed simp

lemma std_movsl_blit:
  "clear_up s d (4 * k) \<Longrightarrow>
     std_movsl k (d + of_nat (4 * k) - 4) (s + of_nat (4 * k) - 4) m = blit m d s (4 * k)"
proof (induction k arbitrary: m)
  case (Suc k)
  let ?m = "blit m (d + of_nat (4 * k)) (s + of_nat (4 * k)) 4"
  have "std_movsl k (d + of_nat (4 * k) - 4) (s + of_nat (4 * k) - 4) ?m = blit ?m d s (4 * k)"
    using Suc by (auto simp: clear_up_def)
  moreover have "blit ?m d s (4 * k) = blit m d s (4 * k + 4)"
    using blit_down [of "4 * k" 4 s d m] Suc.prems by (auto simp: clear_up_def)
  ultimately show ?case by (simp add: store32_load32 algebra_simps)
qed simp

section \<open>memset, memmove, memcpy, memzero\<close>

text \<open>
  The tests \<^verbatim>\<open>(int)v%4 == 0\<close> ask for divisibility by 4, which the sign does not change.
\<close>

definition memset :: "u32 \<Rightarrow> u32 \<Rightarrow> u32 \<Rightarrow> memory \<Rightarrow> memory" where
  "memset v c n m =
     (if n = 0 then m
      else if v mod 4 = 0 \<and> n mod 4 = 0 then
        let c = c AND 0xFF; c = push_bit 24 c OR push_bit 16 c OR push_bit 8 c OR c in
        rep_stosl (unat (n div 4)) v c m
      else rep_stosb (unat n) v (ucast c) m)"

definition memmove :: "u32 \<Rightarrow> u32 \<Rightarrow> u32 \<Rightarrow> memory \<Rightarrow> memory" where
  "memmove dst src n m =
     (let s = src; d = dst in
      if s < d \<and> s + n > d then
        let s = s + n; d = d + n in
        if s mod 4 = 0 \<and> d mod 4 = 0 \<and> n mod 4 = 0
        then std_movsl (unat (n div 4)) (d - 4) (s - 4) m
        else std_movsb (unat n) (d - 1) (s - 1) m
      else
        if s mod 4 = 0 \<and> d mod 4 = 0 \<and> n mod 4 = 0
        then rep_movsl (unat (n div 4)) d s m
        else rep_movsb (unat n) d s m)"

definition memcpy :: "u32 \<Rightarrow> u32 \<Rightarrow> u32 \<Rightarrow> memory \<Rightarrow> memory" where
  "memcpy dst src n m = memmove dst src n m"

definition memzero :: "u32 \<Rightarrow> u32 \<Rightarrow> memory \<Rightarrow> memory" where
  "memzero v n m = memset v 0 n m"

lemma unat_div4: "n mod 4 = 0 \<Longrightarrow> 4 * unat (n div 4) = unat n"
  for n :: u32
proof -
  assume "n mod 4 = 0"
  then have "unat (n mod 4) = 0" by simp
  then have "unat n mod 4 = 0" by (simp add: unat_mod)
  then show "4 * unat (n div 4) = unat n" by (auto simp: unat_div)
qed

lemma memset_fill: "memset v c n m = fill m v (ucast c) (unat n)"
proof -
  have ff: "(0xFF :: u32) = mask 8" by (simp add: mask_eq_exp_minus_1)
  have "c AND 0xFF = ucast (ucast c :: u8)"
    unfolding ff by (rule bit_word_eqI) (auto simp: bit_simps)
  then have fast: "rep_stosl k v (push_bit 24 (c AND 0xFF) OR push_bit 16 (c AND 0xFF) OR
      push_bit 8 (c AND 0xFF) OR (c AND 0xFF)) m = fill m v (ucast c) (4 * k)" if "4 * k \<le> 2 ^ 32" for k
    using that by (intro rep_stosl_fill) (simp_all add: ac_simps)
  have n: "unat n \<le> 2 ^ 32" using unat_lt2p [of n] by simp
  show ?thesis
  proof (cases "v mod 4 = 0 \<and> n mod 4 = 0")
    case True
    then show ?thesis
      unfolding memset_def Let_def using fast [of "unat (n div 4)"] unat_div4 [of n] n
      by (simp only: if_True True unat_0 fill_0 if_cancel split: if_split) simp
  next
    case False
    then show ?thesis
      unfolding memset_def Let_def if_not_P [OF False] using rep_stosb_fill [OF n]
      by (simp del: fill_def)
  qed
qed

lemma memzero_fill: "memzero v n m = fill m v 0 (unat n)"
  by (simp add: memzero_def memset_fill)

lemma std_movsl_words:
  assumes "clear_up s d (unat n)" "n mod 4 = 0"
  shows "std_movsl (unat (n div 4)) (d + n - 4) (s + n - 4) m = blit m d s (unat n)"
proof -
  have "of_nat (4 * unat (n div 4)) = n" unfolding unat_div4 [OF assms(2)] by simp
  then show ?thesis
    using std_movsl_blit [of s d "unat (n div 4)" m] assms(1) unat_div4 [OF assms(2)] by metis
qed

lemma memmove_blit:
  assumes "unat src + unat n < 2 ^ 32" "unat dst + unat n < 2 ^ 32"
  shows "memmove dst src n m = blit m dst src (unat n)"
proof (cases "src < dst \<and> dst < src + n")
  case True
  have "unat (src - dst) = unat src + 2 ^ 32 - unat dst"
    using True unat_sub_if' [of src dst] by (auto simp: word_le_nat_alt word_less_nat_alt)
  then have up: "clear_up src dst (unat n)"
    using assms unat_lt2p [of n] by (auto simp: clear_up_def)
  show ?thesis
    using True std_movsb_blit [OF up, of m] std_movsl_words [OF up, of m]
    by (simp add: memmove_def Let_def)
next
  case False
  have sum: "unat (src + n) = unat src + unat n" using assms(1) by (intro unat_add_exact) simp
  have "clear_up dst src (unat n)"
  proof (cases "src < dst")
    case True
    then have "unat (dst - src) = unat dst - unat src"
      by (intro unat_sub_exact) (simp add: word_le_nat_alt word_less_nat_alt)
    then show ?thesis
      using True False sum unat_lt2p [of n] by (auto simp: clear_up_def word_less_nat_alt)
  next
    case ge: False
    show ?thesis
      using ge assms(1) unat_sub_if' [of dst src] unat_lt2p [of n]
      by (auto simp: clear_up_def word_le_nat_alt word_less_nat_alt)
  qed
  then show ?thesis
    unfolding memmove_def Let_def if_not_P [OF False]
    using rep_movsb_blit [of dst src "unat n" m] rep_movsl_blit [of dst src "unat (n div 4)" m]
      unat_div4 [of n]
    by auto
qed

section \<open>Properties\<close>

text \<open>
  C18. \<^verbatim>\<open>memmove\<close> on regions that do not wrap around the address space writes at every
  offset of the destination the byte the source held before the call, whichever of its four
  copy loops runs and however the regions overlap, and changes no other byte.
\<close>

theorem memmove_correct:
  assumes "unat src + unat n < 2 ^ 32" "unat dst + unat n < 2 ^ 32"
  shows "memmove dst src n m =
     (\<lambda>a. if unat (a - dst) < unat n then m (src + (a - dst)) else m a)"
  by (simp add: memmove_blit [OF assms] blit_def)

theorem memmove_correct_witness:
  "memmove 0x1004 0x1000 8 (\<lambda>a. ucast a) 0x1008 = 4 \<and> memmove 0x1004 0x1000 8 (\<lambda>a. ucast a) 0x100C = 0x0C"
proof -
  have "memmove 0x1004 0x1000 8 (\<lambda>a. ucast a) =
      (\<lambda>a. if unat (a - 0x1004) < unat (8 :: u32) then ucast (0x1000 + (a - 0x1004) :: u32) else (ucast a :: u8))"
    using memmove_correct [of "0x1000" 8 "0x1004" "\<lambda>a. ucast a"] by simp
  then show ?thesis by simp
qed

text \<open>
  C20. \<^verbatim>\<open>memset\<close> writes what its bytewise loop alone would write, for every address, length and
  character: the wordwise path replicates the low byte of \<open>c\<close> exactly.
\<close>

theorem memset_bytewise:
  "memset v c n m = rep_stosb (unat n) v (ucast c) m"
  using rep_stosb_fill [of "unat n" v "ucast c" m] unat_lt2p [of n] by (simp add: memset_fill)

end
