(* ===== verification/PageTable.thy ===== *)
theory PageTable
  imports Container Mem
begin

text \<open>
  Virtual memory: \<^verbatim>\<open>kern/vmm\<close> (MPTIntro, MPTOp, MPTComm, MPTKern, MPTNew and MPTInit) and
  the two routines of \<^verbatim>\<open>kern/dev/mboot.c\<close> that write control registers. The state adds the
  lock \<open>pt_lk\<close>, the page directories \<open>PDirPool\<close>, physical memory with the second-level
  tables in it, the addresses the linker gives \<^verbatim>\<open>PDirPool\<close> and \<^verbatim>\<open>IDPTbl\<close>, and the control
  registers. \<^verbatim>\<open>IDPTbl\<close> is the part of memory at its address, since its entries are also
  read and written through page directory entries. The kernel runs on the identity map,
  so the addresses it dereferences are physical.
\<close>

record pt_state = cont_state +
  pt_lk :: spinlock
  PDirPool :: "u32 \<Rightarrow> u32 \<Rightarrow> u32"
  mem :: memory
  IDPTbl_addr :: u32
  PDirPool_addr :: u32
  cr0 :: u32
  cr3 :: u32
  cr4 :: u32

definition PTE_P :: u32 where "PTE_P = 0x001"
definition PTE_W :: u32 where "PTE_W = 0x002"
definition PTE_U :: u32 where "PTE_U = 0x004"
definition PTE_G :: u32 where "PTE_G = 0x100"
definition MagicNumber :: u32 where "MagicNumber = 1048577"
definition PT_PERM_UP :: u32 where "PT_PERM_UP = 0"
definition PT_PERM_PTU :: u32 where "PT_PERM_PTU = PTE_P OR PTE_W OR PTE_U"

section \<open>MPTIntro\<close>

definition pt_spinlock_init :: "('z pt_state_scheme, unit) kern" where
  "pt_spinlock_init = kmodify (\<lambda>s. s\<lparr>pt_lk := spinlock_init (pt_lk s)\<rparr>)"

definition pt_spinlock_acquire :: "('z pt_state_scheme, unit) kern" where
  "pt_spinlock_acquire = klock_op spinlock_acquire pt_lk (\<lambda>l s. s\<lparr>pt_lk := l\<rparr>)"

definition pt_spinlock_release :: "('z pt_state_scheme, unit) kern" where
  "pt_spinlock_release = klock_op spinlock_release pt_lk (\<lambda>l s. s\<lparr>pt_lk := l\<rparr>)"

definition set_cr3 :: "u32 \<Rightarrow> ('z pt_state_scheme, unit) kern" where
  "set_cr3 pdir = kmodify (\<lambda>s. s\<lparr>cr3 := pdir\<rparr>)"

definition set_pdir_base :: "u32 \<Rightarrow> ('z pt_state_scheme, unit) kern" where
  "set_pdir_base index =
     kseq (kindex NUM_IDS index)
    (kbind (kgets PDirPool_addr) (\<lambda>base. set_cr3 (base + index * 4096)))"

definition pdir_index :: "u32 \<Rightarrow> u32 \<Rightarrow> ('z pt_state_scheme, unit) kern" where
  "pdir_index proc_index pde_index = kseq (kindex NUM_IDS proc_index) (kindex 1024 pde_index)"

definition pdir_set :: "u32 \<Rightarrow> u32 \<Rightarrow> u32 \<Rightarrow> ('z pt_state_scheme, unit) kern" where
  "pdir_set proc_index pde_index v =
     kseq (pdir_index proc_index pde_index)
       (kmodify (\<lambda>s. s\<lparr>PDirPool := (PDirPool s)(proc_index := (PDirPool s proc_index)(pde_index := v))\<rparr>))"

definition get_pdir_entry :: "u32 \<Rightarrow> u32 \<Rightarrow> ('z pt_state_scheme, u32) kern" where
  "get_pdir_entry proc_index pde_index =
     kseq (pdir_index proc_index pde_index) (kgets (\<lambda>s. PDirPool s proc_index pde_index))"

definition set_pdir_entry :: "u32 \<Rightarrow> u32 \<Rightarrow> u32 \<Rightarrow> ('z pt_state_scheme, unit) kern" where
  "set_pdir_entry proc_index pde_index page_index =
     pdir_set proc_index pde_index (page_index * PAGESIZE + PT_PERM_PTU)"

definition set_pdir_entry_identity :: "u32 \<Rightarrow> u32 \<Rightarrow> ('z pt_state_scheme, unit) kern" where
  "set_pdir_entry_identity proc_index pde_index =
     kbind (kgets IDPTbl_addr) (\<lambda>base. pdir_set proc_index pde_index (base + pde_index * 4096 + PT_PERM_PTU))"

definition rmv_pdir_entry :: "u32 \<Rightarrow> u32 \<Rightarrow> ('z pt_state_scheme, unit) kern" where
  "rmv_pdir_entry proc_index pde_index = pdir_set proc_index pde_index PT_PERM_UP"

text \<open>The address of a second-level entry, from the directory entry.\<close>

definition pte_addr :: "u32 \<Rightarrow> u32 \<Rightarrow> u32" where
  "pte_addr pde pte_index = (pde AND 0xfffff000) + pte_index * 4"

definition get_ptbl_entry :: "u32 \<Rightarrow> u32 \<Rightarrow> u32 \<Rightarrow> ('z pt_state_scheme, u32) kern" where
  "get_ptbl_entry proc_index pde_index pte_index =
     kbind (get_pdir_entry proc_index pde_index) (\<lambda>pde.
       kgets (\<lambda>s. load32 (mem s) (pte_addr pde pte_index)))"

definition set_ptbl_entry :: "u32 \<Rightarrow> u32 \<Rightarrow> u32 \<Rightarrow> u32 \<Rightarrow> u32 \<Rightarrow> ('z pt_state_scheme, unit) kern" where
  "set_ptbl_entry proc_index pde_index pte_index page_index prm =
     kbind (get_pdir_entry proc_index pde_index) (\<lambda>pde.
       kmodify (\<lambda>s. s\<lparr>mem := store32 (mem s) (pte_addr pde pte_index) (page_index * PAGESIZE + prm)\<rparr>))"

definition set_ptbl_entry_identity :: "u32 \<Rightarrow> u32 \<Rightarrow> u32 \<Rightarrow> ('z pt_state_scheme, unit) kern" where
  "set_ptbl_entry_identity pde_index pte_index prm =
     kseq (kindex 1024 pde_index) (kseq (kindex 1024 pte_index)
       (kmodify (\<lambda>s. s\<lparr>mem := store32 (mem s) (IDPTbl_addr s + pde_index * 4096 + pte_index * 4)
          ((pde_index * 1024 + pte_index) * PAGESIZE + prm)\<rparr>)))"

definition rmv_ptbl_entry :: "u32 \<Rightarrow> u32 \<Rightarrow> u32 \<Rightarrow> ('z pt_state_scheme, unit) kern" where
  "rmv_ptbl_entry proc_index pde_index pte_index =
     kbind (get_pdir_entry proc_index pde_index) (\<lambda>pde.
       kmodify (\<lambda>s. s\<lparr>mem := store32 (mem s) (pte_addr pde pte_index) 0\<rparr>))"

section \<open>MPTOp\<close>

definition pdx :: "u32 \<Rightarrow> u32" where
  "pdx vaddr = vaddr div (4096 * 1024)"

definition ptx :: "u32 \<Rightarrow> u32" where
  "ptx vaddr = (vaddr div 4096) mod 1024"

definition get_ptbl_entry_by_va :: "u32 \<Rightarrow> u32 \<Rightarrow> ('z pt_state_scheme, u32) kern" where
  "get_ptbl_entry_by_va proc_index vaddr =
     kbind (get_pdir_entry proc_index (pdx vaddr)) (\<lambda>pde.
       if pde = 0 then kret 0
       else get_ptbl_entry proc_index (pdx vaddr) (ptx vaddr))"

definition get_pdir_entry_by_va :: "u32 \<Rightarrow> u32 \<Rightarrow> ('z pt_state_scheme, u32) kern" where
  "get_pdir_entry_by_va proc_index vaddr = get_pdir_entry proc_index (pdx vaddr)"

definition rmv_ptbl_entry_by_va :: "u32 \<Rightarrow> u32 \<Rightarrow> ('z pt_state_scheme, unit) kern" where
  "rmv_ptbl_entry_by_va proc_index vaddr = rmv_ptbl_entry proc_index (pdx vaddr) (ptx vaddr)"

definition rmv_pdir_entry_by_va :: "u32 \<Rightarrow> u32 \<Rightarrow> ('z pt_state_scheme, unit) kern" where
  "rmv_pdir_entry_by_va proc_index vaddr = rmv_pdir_entry proc_index (pdx vaddr)"

definition set_ptbl_entry_by_va :: "u32 \<Rightarrow> u32 \<Rightarrow> u32 \<Rightarrow> u32 \<Rightarrow> ('z pt_state_scheme, unit) kern" where
  "set_ptbl_entry_by_va proc_index vaddr page_index prm =
     set_ptbl_entry proc_index (pdx vaddr) (ptx vaddr) page_index prm"

definition set_pdir_entry_by_va :: "u32 \<Rightarrow> u32 \<Rightarrow> u32 \<Rightarrow> ('z pt_state_scheme, unit) kern" where
  "set_pdir_entry_by_va proc_index vaddr page_index = set_pdir_entry proc_index (pdx vaddr) page_index"

definition idptbl_perm :: "u32 \<Rightarrow> u32" where
  "idptbl_perm i = (if i < 256 \<or> i \<ge> 960 then PTE_P OR PTE_W OR PTE_G else PTE_P OR PTE_W)"

definition idptbl_init ::
    "(u32 \<Rightarrow> ('z pt_state_scheme, unit) kern) \<Rightarrow> u32 \<Rightarrow> ('z pt_state_scheme, unit) kern" where
  "idptbl_init devinit mbi_adr =
     kseq (container_init devinit mbi_adr)
       (kfor 0 1024 (\<lambda>i. kfor 0 1024 (\<lambda>j. set_ptbl_entry_identity i j (idptbl_perm i))))"

section \<open>MPTComm\<close>

definition pdir_init ::
    "(u32 \<Rightarrow> ('z pt_state_scheme, unit) kern) \<Rightarrow> u32 \<Rightarrow> ('z pt_state_scheme, unit) kern" where
  "pdir_init devinit mbi_adr =
     kseq (idptbl_init devinit mbi_adr)
       (kfor 0 NUM_IDS (\<lambda>i. kfor 0 1024 (\<lambda>j.
          if j < 256 \<or> j \<ge> 960 then set_pdir_entry_identity i j else rmv_pdir_entry i j)))"

definition alloc_ptbl :: "u32 \<Rightarrow> u32 \<Rightarrow> ('z pt_state_scheme, u32) kern" where
  "alloc_ptbl proc_index vadr =
     kbind (container_alloc proc_index) (\<lambda>pi.
       if pi \<noteq> 0 then
         kseq (set_pdir_entry_by_va proc_index vadr pi)
        (kseq (kfor 0 1024 (\<lambda>i. rmv_ptbl_entry proc_index (pdx vadr) i)) (kret pi))
       else kret pi)"

definition free_ptbl :: "u32 \<Rightarrow> u32 \<Rightarrow> ('z pt_state_scheme, unit) kern" where
  "free_ptbl proc_index vadr =
     kbind (get_pdir_entry_by_va proc_index vadr) (\<lambda>pde.
     kseq (rmv_pdir_entry_by_va proc_index vadr)
          (container_free proc_index (pde div PAGESIZE)))"

section \<open>MPTKern\<close>

definition pdir_init_kern ::
    "(u32 \<Rightarrow> ('z pt_state_scheme, unit) kern) \<Rightarrow> u32 \<Rightarrow> ('z pt_state_scheme, unit) kern" where
  "pdir_init_kern devinit mbi_adr =
     kseq (pdir_init devinit mbi_adr) (kfor 256 960 (\<lambda>i. set_pdir_entry_identity 0 i))"

definition map_page :: "u32 \<Rightarrow> u32 \<Rightarrow> u32 \<Rightarrow> u32 \<Rightarrow> ('z pt_state_scheme, u32) kern" where
  "map_page proc_index vadr page_index prm =
     kbind (get_pdir_entry_by_va proc_index vadr) (\<lambda>pdir_entry.
     kbind (if pdir_entry \<noteq> 0 then kret 0
            else kbind (alloc_ptbl proc_index vadr) (\<lambda>result.
                   kret (if result = 0 then MagicNumber else result))) (\<lambda>result.
       if result \<noteq> MagicNumber
       then kseq (set_ptbl_entry_by_va proc_index vadr page_index prm) (kret result)
       else kret result))"

definition unmap_page :: "u32 \<Rightarrow> u32 \<Rightarrow> ('z pt_state_scheme, u32) kern" where
  "unmap_page proc_index vadr =
     kbind (get_ptbl_entry_by_va proc_index vadr) (\<lambda>ptbl_entry.
       if ptbl_entry \<noteq> 0 then kseq (rmv_ptbl_entry_by_va proc_index vadr) (kret ptbl_entry)
       else kret ptbl_entry)"

section \<open>MPTNew\<close>

definition alloc_page :: "u32 \<Rightarrow> u32 \<Rightarrow> u32 \<Rightarrow> ('z pt_state_scheme, u32) kern" where
  "alloc_page proc_index vaddr prm =
     kseq pt_spinlock_acquire
    (kbind (container_alloc proc_index) (\<lambda>pi.
     kbind (if pi = 0 then kret MagicNumber else map_page proc_index vaddr pi prm) (\<lambda>result.
     kseq pt_spinlock_release (kret result))))"

definition alloc_mem_quota :: "u32 \<Rightarrow> u32 \<Rightarrow> ('z pt_state_scheme, u32) kern" where
  "alloc_mem_quota i q = container_split i q"

section \<open>MPTInit\<close>

definition CR4_PGE :: u32 where "CR4_PGE = 0x80"

text \<open>\<^verbatim>\<open>CR0_PE | CR0_PG | CR0_AM | CR0_WP | CR0_NE | CR0_MP\<close> and \<^verbatim>\<open>CR0_EM | CR0_TS\<close>.\<close>

definition CR0_SET :: u32 where
  "CR0_SET = 0x00000001 OR 0x80000000 OR 0x00040000 OR 0x00010000 OR 0x00000020 OR 0x00000002"

definition CR0_CLEAR :: u32 where
  "CR0_CLEAR = 0x00000004 OR 0x00000008"

definition enable_paging :: "('z pt_state_scheme, unit) kern" where
  "enable_paging =
     kseq (kmodify (\<lambda>s. s\<lparr>cr4 := cr4 s OR CR4_PGE\<rparr>))
          (kmodify (\<lambda>s. s\<lparr>cr0 := (cr0 s OR CR0_SET) AND NOT CR0_CLEAR\<rparr>))"

text \<open>The argument \<open>edx\<close> is what the instruction \<^verbatim>\<open>cpuid\<close> returns in that register for \<^verbatim>\<open>eax = 1\<close>.\<close>

definition check_pse_support :: "u32 \<Rightarrow> bool" where
  "check_pse_support edx \<longleftrightarrow> edx AND 8 \<noteq> 0"

definition enable_pse :: "u32 \<Rightarrow> ('z pt_state_scheme, unit) kern" where
  "enable_pse edx =
     kseq (kguard (check_pse_support edx) (KERN_PANIC ''Cannot enable super pages''))
          (kmodify (\<lambda>s. s\<lparr>cr4 := cr4 s OR 16\<rparr>))"

definition paging_init_ap :: "('z pt_state_scheme, unit) kern" where
  "paging_init_ap =
     kseq pt_spinlock_acquire (kseq (set_pdir_base 0) (kseq enable_paging pt_spinlock_release))"

definition paging_init ::
    "(u32 \<Rightarrow> ('z pt_state_scheme, unit) kern) \<Rightarrow> u32 \<Rightarrow> u32 \<Rightarrow> ('z pt_state_scheme, unit) kern" where
  "paging_init devinit edx mbi_addr =
     kseq pt_spinlock_init
    (kseq (pdir_init_kern devinit mbi_addr)
    (kseq (enable_pse edx)
    (kseq pt_spinlock_acquire (kseq (set_pdir_base 0) (kseq enable_paging pt_spinlock_release)))))"

section \<open>Addresses of table entries\<close>

definition frame :: "u32 \<Rightarrow> u32" where
  "frame x = x div 4096"

lemma unat_frame: "unat (frame x) = unat x div 4096"
  by (simp add: frame_def unat_div)

lemma frame_less: "frame x < 0x100000"
  using unat_lt2p [of x] by (simp add: word_less_nat_alt unat_frame)

lemma unat_page:
  fixes p x :: u32
  assumes "p < 0x100000" "x < 4096"
  shows "unat (p * 4096 + x) = unat p * 4096 + unat x"
proof -
  have p: "unat p < 0x100000" and x: "unat x < 4096" using assms by (simp_all add: word_less_nat_alt)
  then have "unat (p * 4096) = unat p * 4096" by (subst unat_mult_exact) auto
  then show ?thesis using p x by (subst unat_add_exact) auto
qed

lemma frame_page:
  assumes "p < 0x100000" "x < 4096"
  shows "frame (p * 4096 + x) = p"
proof -
  have "unat x < 4096" using assms by (simp add: word_less_nat_alt)
  then show ?thesis by (simp add: word_unat_eq_iff unat_frame unat_page [OF assms])
qed

lemma page_mask: "x AND 0xfffff000 = frame x * 4096"
proof -
  have "(0xfffff000 :: u32) = NOT (mask 12)" by (simp add: mask_eq_exp_minus_1)
  moreover have "x AND NOT (mask 12) = push_bit 12 (drop_bit 12 x)"
    by (rule bit_word_eqI) (auto simp: bit_simps)
  moreover have "drop_bit 12 x = frame x" by (simp add: frame_def drop_bit_eq_div)
  ultimately show ?thesis by (simp add: push_bit_eq_mult)
qed

lemma unat_pte_addr:
  assumes "e < 1024"
  shows "unat (pte_addr pde e) = unat (frame pde) * 4096 + unat e * 4"
proof -
  have "unat e < 1024" using assms by (simp add: word_less_nat_alt)
  then have "unat (e * 4) = unat e * 4" "e * 4 < 4096"
    by (subst unat_mult_exact, auto simp: word_less_nat_alt) (subst unat_mult_exact, auto)
  then show ?thesis
    by (simp add: pte_addr_def page_mask unat_page [OF frame_less])
qed

lemma aligned4_iff: "aligned4 a \<longleftrightarrow> unat a mod 4 = 0"
  by (simp add: aligned4_def word_unat_eq_iff unat_mod)

lemma aligned4_pte_addr [simp]: "e < 1024 \<Longrightarrow> aligned4 (pte_addr pde e)"
  by (simp add: aligned4_iff unat_pte_addr)

lemma pte_addr_eq_iff:
  assumes "e < 1024" "e' < 1024"
  shows "pte_addr a e = pte_addr b e' \<longleftrightarrow> frame a = frame b \<and> e = e'"
proof
  assume eq: "pte_addr a e = pte_addr b e'"
  have page: "frame (pte_addr c x) = frame c" if "x < 1024" for c x
  proof -
    have "unat x < 1024" using that by (simp add: word_less_nat_alt)
    then show ?thesis by (simp add: word_unat_eq_iff unat_frame unat_pte_addr [OF that])
  qed
  have "frame a = frame b" using page [OF assms(1), of a] page [OF assms(2), of b] eq by simp
  moreover have "unat e * 4 = unat e' * 4"
    using arg_cong [OF eq, of unat] \<open>frame a = frame b\<close> by (simp add: unat_pte_addr assms)
  ultimately show "frame a = frame b \<and> e = e'" by (simp add: word_unat_eq_iff)
qed (auto simp: pte_addr_def page_mask)

lemma pdx_less: "pdx va < 1024"
  using unat_lt2p [of va] by (simp add: pdx_def word_less_nat_alt unat_div)

lemma ptx_less: "ptx va < 1024"
  by (simp add: ptx_def word_less_nat_alt unat_mod)

section \<open>What each process maps\<close>

text \<open>
  A slot is a place of the page structures that refers to a physical page: an entry of a
  page directory (\<open>Tbl\<close>) or an entry of a second-level table (\<open>Pg\<close>). Slots of the user part
  of processes other than 0 are the ones the kernel allocates pages for.
\<close>

datatype slot = Tbl u32 u32 | Pg u32 u32 u32

fun entry :: "'z pt_state_scheme \<Rightarrow> slot \<Rightarrow> u32" where
  "entry s (Tbl i d) = PDirPool s i d"
| "entry s (Pg i d e) =
     (if PDirPool s i d = 0 then 0 else load32 (mem s) (pte_addr (PDirPool s i d) e))"

definition user_pde :: "u32 \<Rightarrow> bool" where
  "user_pde d \<longleftrightarrow> 256 \<le> d \<and> d < 960"

fun user_slot :: "slot \<Rightarrow> bool" where
  "user_slot (Tbl i d) \<longleftrightarrow> i \<noteq> 0 \<and> i < NUM_IDS \<and> user_pde d"
| "user_slot (Pg i d e) \<longleftrightarrow> i \<noteq> 0 \<and> i < NUM_IDS \<and> user_pde d \<and> e < 1024"

lemma user_pde_less: "user_pde d \<Longrightarrow> d < 1024"
  by (auto simp: user_pde_def word_less_nat_alt)

lemma get_pdir_entry_ok [simp]:
  "i < NUM_IDS \<Longrightarrow> d < 1024 \<Longrightarrow> get_pdir_entry i d s = Inr (PDirPool s i d, s)"
  by (simp add: get_pdir_entry_def pdir_index_def)

lemma pdir_set_ok [simp]:
  "i < NUM_IDS \<Longrightarrow> d < 1024 \<Longrightarrow>
     pdir_set i d v s = Inr ((), s\<lparr>PDirPool := (PDirPool s)(i := (PDirPool s i)(d := v))\<rparr>)"
  by (simp add: pdir_set_def pdir_index_def)

lemma get_ptbl_entry_by_va_ok [simp]:
  "i < NUM_IDS \<Longrightarrow> get_ptbl_entry_by_va i va s = Inr (entry s (Pg i (pdx va) (ptx va)), s)"
  by (simp add: get_ptbl_entry_by_va_def get_ptbl_entry_def pdx_less)

lemma set_ptbl_entry_ok [simp]:
  "i < NUM_IDS \<Longrightarrow> d < 1024 \<Longrightarrow>
     set_ptbl_entry i d e p prm s =
       Inr ((), s\<lparr>mem := store32 (mem s) (pte_addr (PDirPool s i d) e) (p * PAGESIZE + prm)\<rparr>)"
  by (simp add: set_ptbl_entry_def)

lemma rmv_ptbl_entry_ok [simp]:
  "i < NUM_IDS \<Longrightarrow> d < 1024 \<Longrightarrow>
     rmv_ptbl_entry i d e s = Inr ((), s\<lparr>mem := store32 (mem s) (pte_addr (PDirPool s i d) e) 0\<rparr>)"
  by (simp add: rmv_ptbl_entry_def)

section \<open>The invariant\<close>

text \<open>
  \<open>pt_inv\<close>: every user slot that is set refers to an allocated page, and no two of them
  refer to the same page. \<open>kmap_inv\<close>: process 0 and the kernel part of every process map
  through \<^verbatim>\<open>IDPTbl\<close>, which holds the identity map and lies below the pages for users.
\<close>

definition live :: "'z pt_state_scheme \<Rightarrow> u32 \<Rightarrow> bool" where
  "live s p \<longleftrightarrow> p \<noteq> 0 \<and> p < NUM_PAGES s \<and> page_norm s p \<and> allocated (AT s p) \<noteq> 0"

definition pt_inv :: "'z pt_state_scheme \<Rightarrow> bool" where
  "pt_inv s \<longleftrightarrow>
     cont_inv s \<and> lock_ready (cur_kstack s) (pt_lk s) \<and>
     (\<forall>x. user_slot x \<longrightarrow> entry s x \<noteq> 0 \<longrightarrow> live s (frame (entry s x))) \<and>
     (\<forall>x y. user_slot x \<longrightarrow> user_slot y \<longrightarrow> entry s x \<noteq> 0 \<longrightarrow> entry s y \<noteq> 0 \<longrightarrow>
        frame (entry s x) = frame (entry s y) \<longrightarrow> x = y)"

definition kmap_inv :: "'z pt_state_scheme \<Rightarrow> bool" where
  "kmap_inv s \<longleftrightarrow>
     IDPTbl_addr s mod 4096 = 0 \<and> unat (IDPTbl_addr s) + 0x400000 \<le> unat VM_USERLO \<and>
     (\<forall>p < NUM_PAGES s. page_norm s p \<longrightarrow> VM_USERLO_PI \<le> p \<and> p < VM_USERHI_PI) \<and>
     (\<forall>i < NUM_IDS. \<forall>d < 1024. i = 0 \<or> \<not> user_pde d \<longrightarrow>
        PDirPool s i d = IDPTbl_addr s + d * 4096 + PT_PERM_PTU) \<and>
     (\<forall>d < 1024. \<forall>e < 1024.
        load32 (mem s) (IDPTbl_addr s + d * 4096 + e * 4) = (d * 1024 + e) * PAGESIZE + idptbl_perm d)"

text \<open>An allocated page no slot refers to.\<close>

definition unref :: "'z pt_state_scheme \<Rightarrow> u32 \<Rightarrow> bool" where
  "unref s p \<longleftrightarrow> live s p \<and> (\<forall>x. user_slot x \<longrightarrow> entry s x \<noteq> 0 \<longrightarrow> frame (entry s x) \<noteq> p)"

lemma pt_inv_update:
  assumes s: "pt_inv s" and t: "cont_inv t" "lock_ready (cur_kstack t) (pt_lk t)"
    and ent: "\<And>x. user_slot x \<Longrightarrow> x \<noteq> x0 \<Longrightarrow> entry t x = entry s x \<or> entry t x = 0"
    and old: "\<And>x. user_slot x \<Longrightarrow> x \<noteq> x0 \<Longrightarrow> entry t x \<noteq> 0 \<Longrightarrow> live t (frame (entry s x))"
    and new: "entry t x0 \<noteq> 0 \<Longrightarrow> user_slot x0 \<Longrightarrow> live t (frame (entry t x0))"
    and fresh: "\<And>x. entry t x0 \<noteq> 0 \<Longrightarrow> user_slot x0 \<Longrightarrow> user_slot x \<Longrightarrow> entry s x \<noteq> 0 \<Longrightarrow> x \<noteq> x0 \<Longrightarrow>
      frame (entry s x) \<noteq> frame (entry t x0)"
  shows "pt_inv t"
proof -
  have inj: "\<And>x y. user_slot x \<Longrightarrow> user_slot y \<Longrightarrow> entry s x \<noteq> 0 \<Longrightarrow> entry s y \<noteq> 0 \<Longrightarrow>
      frame (entry s x) = frame (entry s y) \<Longrightarrow> x = y"
    using s unfolding pt_inv_def by blast
  have live: "live t (frame (entry t x))" if "user_slot x" "entry t x \<noteq> 0" for x
    using that ent [of x] old [of x] new by (cases "x = x0") auto
  have "x = y" if xy: "user_slot x" "user_slot y" "entry t x \<noteq> 0" "entry t y \<noteq> 0"
      "frame (entry t x) = frame (entry t y)" for x y
  proof -
    have e: "z \<noteq> x0 \<Longrightarrow> user_slot z \<Longrightarrow> entry t z \<noteq> 0 \<Longrightarrow> entry t z = entry s z" for z
      using ent [of z] by auto
    consider "x = x0" "y = x0" | "x = x0" "y \<noteq> x0" | "x \<noteq> x0" "y = x0" | "x \<noteq> x0" "y \<noteq> x0" by blast
    then show ?thesis
    proof cases
      case 2 then show ?thesis using xy e [of y] fresh [of y] by auto
    next
      case 3 then show ?thesis using xy e [of x] fresh [of x] by auto
    next
      case 4 then show ?thesis using xy e [of x] e [of y] inj [of x y] by auto
    qed simp
  qed
  then show ?thesis unfolding pt_inv_def using t live by blast
qed

lemma pt_inv_same:
  assumes "pt_inv s" "cont_inv t" "lock_ready (cur_kstack t) (pt_lk t)"
    and "\<And>x. entry t x = entry s x" "\<And>p. live s p \<Longrightarrow> live t p"
  shows "pt_inv t"
  using assms(1,2,3,5) unfolding pt_inv_def assms(4) by blast

lemma unat_4096: "unat (4096 :: u32) = 4096"
  by simp

lemma unat_VM_USERLO: "unat VM_USERLO = 0x40000000"
  by (simp add: VM_USERLO_def)

lemma unat_mod_zero: "a mod n = 0 \<Longrightarrow> unat a mod unat n = 0"
  by (metis unat_0 unat_mod)

lemma mod4_add: "b mod 4096 = 0 \<Longrightarrow> (b + d * 4096 + e * 4) mod 4 = 0"
  for b d e :: nat
proof -
  assume "b mod 4096 = 0"
  then have "4096 dvd b" by (rule mod_0_imp_dvd)
  moreover have "4 dvd (4096 :: nat)" by simp
  ultimately have "4 dvd b" by (rule dvd_trans [rotated])
  moreover have "4 dvd d * 4096" "4 dvd e * 4" by simp_all
  ultimately show ?thesis by (intro dvd_imp_mod_0 dvd_add)
qed

lemma unat_idptbl:
  fixes b d e :: u32
  assumes b: "unat b + 0x400000 \<le> 0x40000000" and "d < 1024" "e < 1024"
  shows "unat (b + d * 4096 + e * 4) = unat b + unat d * 4096 + unat e * 4"
proof -
  have n: "unat d < 1024" "unat e < 1024" using assms by (simp_all add: word_less_nat_alt)
  have m: "unat (d * 4096) = unat d * 4096" "unat (e * 4) = unat e * 4"
    using n by (subst unat_mult_exact; simp)+
  have u: "unat (b + d * 4096) = unat b + unat d * 4096"
    using unat_add_exact [of b "d * 4096"] n b by (simp add: m)
  then show ?thesis
    using unat_add_exact [of "b + d * 4096" "e * 4"] n b by (simp add: m)
qed

lemma kmap_inv_update:
  assumes s: "kmap_inv s"
    and "IDPTbl_addr t = IDPTbl_addr s" "NUM_PAGES t = NUM_PAGES s"
    and "\<And>p. page_norm t p = page_norm s p"
    and dir: "\<And>i d. i = 0 \<or> \<not> user_pde d \<Longrightarrow> PDirPool t i d = PDirPool s i d"
    and mem: "\<And>a. aligned4 a \<Longrightarrow> frame a < VM_USERLO_PI \<Longrightarrow> load32 (mem t) a = load32 (mem s) a"
  shows "kmap_inv t"
proof -
  have "load32 (mem t) (IDPTbl_addr s + d * 4096 + e * 4) = load32 (mem s) (IDPTbl_addr s + d * 4096 + e * 4)"
    if de: "d < 1024" "e < 1024" for d e
  proof (rule mem)
    have n: "unat d < 1024" "unat e < 1024" using de by (simp_all add: word_less_nat_alt)
    have al: "IDPTbl_addr s mod 4096 = 0" and lo: "unat (IDPTbl_addr s) + 0x400000 \<le> unat VM_USERLO"
      using s unfolding kmap_inv_def by blast+
    have b: "unat (IDPTbl_addr s) mod 4096 = 0" "unat (IDPTbl_addr s) + 0x400000 \<le> 0x40000000"
      using unat_mod_zero [OF al] lo by (simp_all only: unat_VM_USERLO unat_4096)
    note u = unat_idptbl [OF b(2) de]
    show "aligned4 (IDPTbl_addr s + d * 4096 + e * 4)"
      unfolding aligned4_iff u by (rule mod4_add [OF b(1)])
    show "frame (IDPTbl_addr s + d * 4096 + e * 4) < VM_USERLO_PI"
      using b(2) n by (simp add: word_less_nat_alt unat_frame u VM_USERLO_PI_def)
  qed
  then show ?thesis using s assms(2,3,4) dir by (simp add: kmap_inv_def)
qed

definition vm_inv :: "'z pt_state_scheme \<Rightarrow> bool" where
  "vm_inv s \<longleftrightarrow> pt_inv s \<and> kmap_inv s"

section \<open>Allocation keeps the invariant\<close>

lemma pt_more:
  fixes s t :: "'z pt_state_scheme"
  assumes "cont_state.more t = cont_state.more s"
  shows "PDirPool t = PDirPool s" "mem t = mem s" "pt_lk t = pt_lk s" "IDPTbl_addr t = IDPTbl_addr s"
    "PDirPool_addr t = PDirPool_addr s" "pt_state.more t = pt_state.more s"
  using assms by (cases s, cases t, simp)+

lemma entry_cong: "PDirPool t = PDirPool s \<Longrightarrow> mem t = mem s \<Longrightarrow> entry t x = entry s x"
  by (cases x) simp_all

lemma vm_inv_cont: "vm_inv s \<Longrightarrow> cont_inv s"
  by (simp add: vm_inv_def pt_inv_def)

lemma vm_inv_entry: "vm_inv s \<Longrightarrow> user_slot x \<Longrightarrow> entry s x \<noteq> 0 \<Longrightarrow> live s (frame (entry s x))"
  unfolding vm_inv_def pt_inv_def by blast

lemma vm_inv_inj:
  "vm_inv s \<Longrightarrow> user_slot x \<Longrightarrow> user_slot y \<Longrightarrow> entry s x \<noteq> 0 \<Longrightarrow> entry s y \<noteq> 0 \<Longrightarrow>
   frame (entry s x) = frame (entry s y) \<Longrightarrow> x = y"
  unfolding vm_inv_def pt_inv_def by blast

lemma vm_inv_lock: "vm_inv s \<Longrightarrow> lock_ready (cur_kstack s) (pt_lk s)"
  by (simp add: vm_inv_def pt_inv_def)

lemma live_user: "vm_inv s \<Longrightarrow> live s p \<Longrightarrow> VM_USERLO_PI \<le> p"
  unfolding vm_inv_def kmap_inv_def live_def by blast

lemma live_user_hi: "vm_inv s \<Longrightarrow> live s p \<Longrightarrow> p < VM_USERHI_PI"
  unfolding vm_inv_def kmap_inv_def live_def by blast

lemma live_less: "vm_inv s \<Longrightarrow> live s p \<Longrightarrow> p < 0x100000"
  using mat_inv_NUM_PAGES [of s] by (auto simp: live_def vm_inv_def pt_inv_def cont_inv_def AT_SIZE_def)

lemma container_alloc_vm:
  assumes inv: "vm_inv s" and i: "in_use s i"
  obtains r t where "container_alloc i s = Inr (r, t)" "vm_inv t" "in_use t i"
    "cont_state.more t = cont_state.more s" "\<And>x. entry t x = entry s x"
    "r \<noteq> 0 \<Longrightarrow> page_avail s r \<and> unref t r"
    "\<And>p. unref s p \<Longrightarrow> unref t p \<and> p \<noteq> r"
    "\<And>p. page_avail t p \<Longrightarrow> page_avail s p"
proof -
  obtain r t where t: "container_alloc i s = Inr (r, t)" "cont_inv t" "in_use t i = in_use s i"
      "NUM_PAGES t = NUM_PAGES s" "cur_kstack t = cur_kstack s" "cont_state.more t = cont_state.more s"
    and res: "r = 0 \<and> AT t = AT s \<or> r \<noteq> 0 \<and> r < NUM_PAGES s \<and> page_avail s r \<and>
       AT t = (AT s)(r := AT s r\<lparr>allocated := 1\<rparr>)"
    using container_alloc_cases [OF vm_inv_cont [OF inv] i] by metis
  note more = pt_more [OF t(6)]
  have ent: "entry t x = entry s x" for x using more(1,2) by (rule entry_cong)
  have norm: "page_norm t p = page_norm s p" for p
    using res by (auto simp: page_norm_def split: if_splits)
  have al: "allocated (AT t p) = (if r \<noteq> 0 \<and> p = r then 1 else allocated (AT s p))" for p
    using res by auto
  have r: "r < NUM_PAGES s" "page_avail s r" if "r \<noteq> 0" using res that by auto
  have live: "live t p" if "live s p" for p
    using that t(4) norm by (simp add: live_def al)
  have "lock_ready (cur_kstack t) (pt_lk t)" using vm_inv_lock [OF inv] t(5) more(3) by simp
  moreover have "pt_inv s" using inv by (simp add: vm_inv_def)
  ultimately have "pt_inv t" by (intro pt_inv_same [OF _ t(2) _ ent live])
  moreover have "kmap_inv s" using inv by (simp add: vm_inv_def)
  then have "kmap_inv t"
    by (rule kmap_inv_update) (simp_all add: more t(4) norm)
  moreover have "page_avail s r \<and> unref t r" if "r \<noteq> 0"
  proof -
    have "page_avail s r" "live t r" using that r t(4) norm by (auto simp: live_def page_avail_def al)
    moreover have "frame (entry s x) \<noteq> r" if "user_slot x" "entry s x \<noteq> 0" for x
      using vm_inv_entry [OF inv that] \<open>page_avail s r\<close> by (auto simp: live_def page_avail_def)
    ultimately show ?thesis by (simp add: unref_def ent)
  qed
  moreover have "unref t p \<and> p \<noteq> r" if "unref s p" for p
    using that live r by (auto simp: unref_def ent) (auto simp: live_def page_avail_def)
  moreover have "page_avail t p \<Longrightarrow> page_avail s p" for p
    using norm by (auto simp: page_avail_def al split: if_splits)
  ultimately show thesis
    using that [OF t(1) _ _ t(6) ent] t(3) i by (simp add: vm_inv_def)
qed

text \<open>Writing an entry of a user table changes that slot only.\<close>

lemma entry_store:
  assumes inv: "vm_inv s" and x: "user_slot (Pg i d e)" "PDirPool s i d \<noteq> 0" and y: "user_slot y"
  shows "entry (s\<lparr>mem := store32 (mem s) (pte_addr (PDirPool s i d) e) v\<rparr>) y =
    (if y = Pg i d e then v else entry s y)"
proof (cases y)
  case (Pg j d' e')
  have "frame (PDirPool s j d') = frame (PDirPool s i d) \<longleftrightarrow> j = i \<and> d' = d" if "PDirPool s j d' \<noteq> 0"
    using vm_inv_inj [OF inv, of "Tbl j d'" "Tbl i d"] x y Pg that by auto
  then show ?thesis
    using x y Pg by (auto simp: load32_store32 pte_addr_eq_iff)
qed simp

lemma vm_inv_store:
  assumes inv: "vm_inv s" and x: "user_slot (Pg i d e)" "PDirPool s i d \<noteq> 0"
    and v: "v = 0 \<or> unref s (frame v)"
  shows "vm_inv (s\<lparr>mem := store32 (mem s) (pte_addr (PDirPool s i d) e) v\<rparr>)" (is "vm_inv ?t")
proof -
  note ent = entry_store [OF inv x, where v = v]
  have sel: "cont_inv ?t = cont_inv s" "live ?t p = live s p" "page_norm ?t p = page_norm s p" for p
    by (simp_all add: cont_inv_def mat_inv_def in_use_def live_def page_norm_def)
  have "pt_inv ?t"
  proof (rule pt_inv_update [of s ?t "Pg i d e"])
    show "pt_inv s" "cont_inv ?t" using inv sel by (simp_all add: vm_inv_def pt_inv_def)
    show "lock_ready (cur_kstack ?t) (pt_lk ?t)" using vm_inv_lock [OF inv] by simp
    fix y assume y: "user_slot y"
    show "entry ?t y = entry s y \<or> entry ?t y = 0" if "y \<noteq> Pg i d e" using ent [OF y] that by simp
    show "live ?t (frame (entry s y))" if "y \<noteq> Pg i d e" "entry ?t y \<noteq> 0"
      using ent [OF y] that vm_inv_entry [OF inv y] sel(2) by simp
  next
    show "live ?t (frame (entry ?t (Pg i d e)))" if "entry ?t (Pg i d e) \<noteq> 0"
      using that ent [OF x(1)] v sel(2) by (auto simp: unref_def simp del: entry.simps)
    show "frame (entry s y) \<noteq> frame (entry ?t (Pg i d e))"
      if "entry ?t (Pg i d e) \<noteq> 0" "user_slot y" "entry s y \<noteq> 0" for y
      using that ent [OF x(1)] v by (auto simp: unref_def simp del: entry.simps)
  qed
  moreover have "kmap_inv ?t"
  proof (rule kmap_inv_update [of s])
    show "kmap_inv s" using inv by (simp add: vm_inv_def)
    have "live s (frame (PDirPool s i d))" using vm_inv_entry [OF inv, of "Tbl i d"] x by simp
    then have hi: "VM_USERLO_PI \<le> frame (PDirPool s i d)" by (rule live_user [OF inv])
    have e: "e < 1024" using x by simp
    have fr: "frame (pte_addr (PDirPool s i d) e) = frame (PDirPool s i d)"
      using e by (simp add: word_unat_eq_iff unat_frame unat_pte_addr word_less_nat_alt)
    show "load32 (mem ?t) a = load32 (mem s) a" if "aligned4 a" "frame a < VM_USERLO_PI" for a
      using that e fr hi by (auto simp: load32_store32)
  qed (simp_all add: sel)
  ultimately show ?thesis by (simp add: vm_inv_def)
qed

lemma zero_ptbl:
  assumes i: "i < NUM_IDS" "d < 1024"
  shows "\<exists>M. kfor 0 1024 (rmv_ptbl_entry i d) s = Inr ((), s\<lparr>mem := M\<rparr>) \<and>
     (\<forall>e < 1024. load32 M (pte_addr (PDirPool s i d) e) = 0) \<and>
     (\<forall>a. aligned4 a \<longrightarrow> frame a \<noteq> frame (PDirPool s i d) \<longrightarrow> load32 M a = load32 (mem s) a)"
proof -
  let ?P = "PDirPool s i d"
  let ?I = "\<lambda>j t. j \<le> 1024 \<and> (\<exists>M. t = s\<lparr>mem := M\<rparr> \<and> (\<forall>e < j. load32 M (pte_addr ?P e) = 0) \<and>
     (\<forall>a. aligned4 a \<longrightarrow> frame a \<noteq> frame ?P \<longrightarrow> load32 M a = load32 (mem s) a))"
  have "\<exists>t. kfor 0 1024 (rmv_ptbl_entry i d) s = Inr ((), t) \<and> ?I 1024 t"
  proof (rule kfor_rule [where Inv = ?I])
    show "?I 0 s" by (auto intro: exI [of _ "mem s"])
    fix j t assume j: "j < 1024" and "?I j t"
    then obtain M where t: "t = s\<lparr>mem := M\<rparr>" and M: "\<forall>e < j. load32 M (pte_addr ?P e) = 0"
      and other: "\<forall>a. aligned4 a \<longrightarrow> frame a \<noteq> frame ?P \<longrightarrow> load32 M a = load32 (mem s) a" by blast
    let ?M = "store32 M (pte_addr ?P j) 0"
    have "rmv_ptbl_entry i d j t = Inr ((), s\<lparr>mem := ?M\<rparr>)" using i by (simp add: t)
    moreover have "load32 ?M (pte_addr ?P e) = 0" if "e < j + 1" for e
    proof -
      have "e < j \<or> e = j" using that by (simp add: word_less_Suc_iff [OF j])
      moreover then have "e < 1024" using j by auto
      ultimately show ?thesis using M j by (auto simp: load32_store32)
    qed
    moreover have "load32 ?M a = load32 (mem s) a" if "aligned4 a" "frame a \<noteq> frame ?P" for a
    proof -
      have "frame (pte_addr ?P j) = frame ?P"
        using j by (simp add: word_unat_eq_iff unat_frame unat_pte_addr word_less_nat_alt)
      then show ?thesis using that j other by (auto simp: load32_store32)
    qed
    moreover have "j + 1 \<le> 1024" using j by (rule Suc_le_of_less)
    ultimately show "\<exists>u. rmv_ptbl_entry i d j t = Inr ((), u) \<and> ?I (j + 1) u" by blast
  qed simp
  then show ?thesis by blast
qed

text \<open>Installing a cleared table in an empty directory entry.\<close>

definition install :: "'z pt_state_scheme \<Rightarrow> u32 \<Rightarrow> u32 \<Rightarrow> u32 \<Rightarrow> memory \<Rightarrow> 'z pt_state_scheme" where
  "install s i d v M = s\<lparr>PDirPool := (PDirPool s)(i := (PDirPool s i)(d := v)), mem := M\<rparr>"

lemma entry_install:
  assumes inv: "vm_inv s" and x: "user_slot (Tbl i d)" "PDirPool s i d = 0"
    and v: "v \<noteq> 0" "unref s (frame v)"
    and M: "\<And>e. e < 1024 \<Longrightarrow> load32 M (pte_addr v e) = 0"
      "\<And>a. aligned4 a \<Longrightarrow> frame a \<noteq> frame v \<Longrightarrow> load32 M a = load32 (mem s) a"
    and y: "user_slot y"
  shows "entry (install s i d v M) y = (if y = Tbl i d then v else entry s y)"
proof (cases y)
  case (Pg j d' e)
  then have e: "e < 1024" using y by simp
  have fr: "frame (pte_addr w e) = frame w" for w
    using e by (simp add: word_unat_eq_iff unat_frame unat_pte_addr word_less_nat_alt)
  show ?thesis
  proof (cases "j = i \<and> d' = d")
    case True
    then show ?thesis using Pg M(1) [OF e] x v by (simp add: install_def)
  next
    case False
    have "frame (PDirPool s j d') \<noteq> frame v" if "PDirPool s j d' \<noteq> 0"
      using v(2) y Pg that by (auto simp: unref_def dest!: spec [of _ "Tbl j d'"])
    then show ?thesis using Pg False M(2) e fr by (auto simp: install_def)
  qed
qed (auto simp: install_def)

lemma vm_inv_install:
  assumes inv: "vm_inv s" and x: "user_slot (Tbl i d)" "PDirPool s i d = 0"
    and v: "v \<noteq> 0" "unref s (frame v)"
    and M: "\<And>e. e < 1024 \<Longrightarrow> load32 M (pte_addr v e) = 0"
      "\<And>a. aligned4 a \<Longrightarrow> frame a \<noteq> frame v \<Longrightarrow> load32 M a = load32 (mem s) a"
  shows "vm_inv (install s i d v M)" (is "vm_inv ?t")
proof -
  note ent = entry_install [OF inv x v M, simplified]
  have sel: "cont_inv ?t = cont_inv s" "live ?t p = live s p" "page_norm ?t p = page_norm s p" for p
    by (simp_all add: cont_inv_def mat_inv_def in_use_def live_def page_norm_def install_def)
  have new: "entry ?t (Tbl i d) = v" by (simp add: install_def)
  have "pt_inv ?t"
  proof (rule pt_inv_update [of s ?t "Tbl i d"])
    show "pt_inv s" "cont_inv ?t" using inv sel by (simp_all add: vm_inv_def pt_inv_def)
    show "lock_ready (cur_kstack ?t) (pt_lk ?t)" using vm_inv_lock [OF inv] by (simp add: install_def)
    fix y assume y: "user_slot y"
    show "entry ?t y = entry s y \<or> entry ?t y = 0" if "y \<noteq> Tbl i d" using ent [OF y] that by simp
    show "live ?t (frame (entry s y))" if "y \<noteq> Tbl i d" "entry ?t y \<noteq> 0"
      using ent [OF y] that vm_inv_entry [OF inv y] sel(2) by simp
  next
    show "live ?t (frame (entry ?t (Tbl i d)))" using v sel(2) new by (simp add: unref_def)
    show "frame (entry s y) \<noteq> frame (entry ?t (Tbl i d))" if "user_slot y" "entry s y \<noteq> 0" for y
      using that v new by (simp add: unref_def)
  qed
  moreover have "kmap_inv ?t"
  proof (rule kmap_inv_update [of s])
    show "kmap_inv s" using inv by (simp add: vm_inv_def)
    have "VM_USERLO_PI \<le> frame v" using v(2) by (intro live_user [OF inv]) (simp add: unref_def)
    then show "load32 (mem ?t) a = load32 (mem s) a" if "aligned4 a" "frame a < VM_USERLO_PI" for a
      using that M(2) by (auto simp: install_def)
    show "PDirPool ?t j d' = PDirPool s j d'" if "j = 0 \<or> \<not> user_pde d'" for j d'
      using that x(1) by (auto simp: install_def)
  qed (simp_all add: sel, simp_all add: install_def)
  ultimately show ?thesis by (simp add: vm_inv_def)
qed

lemma frame_ptu:
  assumes "p < 0x100000" "x < 4096" "p \<noteq> 0"
  shows "frame (p * PAGESIZE + x) = p" "p * PAGESIZE + x \<noteq> 0"
proof -
  show fr: "frame (p * PAGESIZE + x) = p" using frame_page [OF assms(1,2)] by (simp add: PAGESIZE_def)
  show "p * PAGESIZE + x \<noteq> 0"
  proof
    assume "p * PAGESIZE + x = 0"
    then show False using fr assms(3) by (simp add: frame_def)
  qed
qed

lemma PT_PERM_PTU_eq: "PT_PERM_PTU = 7"
  by (simp add: PT_PERM_PTU_def PTE_P_def PTE_W_def PTE_U_def)

lemma alloc_ptbl_vm:
  assumes inv: "vm_inv s" and use: "in_use s i" and x: "user_slot (Tbl i (pdx va))" "PDirPool s i (pdx va) = 0"
  obtains r t where "alloc_ptbl i va s = Inr (r, t)" "vm_inv t" "in_use t i" "r < 0x100000"
    "\<And>y. user_slot y \<Longrightarrow> entry t y = (if y = Tbl i (pdx va) \<and> r \<noteq> 0 then r * PAGESIZE + PT_PERM_PTU else entry s y)"
    "\<And>p. unref s p \<Longrightarrow> unref t p"
proof -
  let ?d = "pdx va"
  obtain r t where t: "container_alloc i s = Inr (r, t)" "vm_inv t" "in_use t i"
    "cont_state.more t = cont_state.more s" "\<And>x. entry t x = entry s x"
    "r \<noteq> 0 \<Longrightarrow> page_avail s r \<and> unref t r" "\<And>p. unref s p \<Longrightarrow> unref t p \<and> p \<noteq> r"
    using container_alloc_vm [OF inv use] by metis
  note more = pt_more [OF t(4)]
  show thesis
  proof (cases "r = 0")
    case True
    then have "alloc_ptbl i va s = Inr (0, t)" using t(1) by (simp add: alloc_ptbl_def)
    then show thesis using that [of 0 t] t True by (simp del: entry.simps)
  next
    case False
    let ?v = "r * PAGESIZE + PT_PERM_PTU"
    have un: "unref t r" using t(6) False by simp
    have r: "r < 0x100000" using un by (intro live_less [OF t(2)]) (simp add: unref_def)
    note v = frame_ptu [OF r _ False, of PT_PERM_PTU, unfolded PT_PERM_PTU_eq, simplified, folded PT_PERM_PTU_eq]
    have i: "i < NUM_IDS" "?d < 1024" using x(1) pdx_less by auto
    let ?t1 = "t\<lparr>PDirPool := (PDirPool t)(i := (PDirPool t i)(?d := ?v))\<rparr>"
    obtain M where M: "kfor 0 1024 (rmv_ptbl_entry i ?d) ?t1 = Inr ((), ?t1\<lparr>mem := M\<rparr>)"
      "\<And>e. e < 1024 \<Longrightarrow> load32 M (pte_addr ?v e) = 0"
      "\<And>a. aligned4 a \<Longrightarrow> frame a \<noteq> frame ?v \<Longrightarrow> load32 M a = load32 (mem t) a"
      using zero_ptbl [OF i, of ?t1] by auto
    have run: "alloc_ptbl i va s = Inr (r, install t i ?d ?v M)"
      using t(1) False M(1) i
      by (simp add: alloc_ptbl_def set_pdir_entry_by_va_def set_pdir_entry_def install_def)
    have pd: "PDirPool t i ?d = 0" using x(2) more(1) by simp
    have un': "unref t (frame ?v)" using un v(1) by simp
    note ent = entry_install [OF t(2) x(1) pd v(2) un' M(2,3), simplified]
    have "unref (install t i ?d ?v M) p" if "unref s p" for p
    proof -
      have p: "unref t p" "p \<noteq> r" using t(7) [OF that] by auto
      have "live (install t i ?d ?v M) p = live t p" by (simp add: live_def install_def page_norm_def)
      then show ?thesis using p v(1) ent by (auto simp: unref_def split: if_splits)
    qed
    moreover have "in_use (install t i ?d ?v M) i" using t(3) by (simp add: in_use_def install_def)
    ultimately show thesis
      using that [OF run vm_inv_install [OF t(2) x(1) pd v(2) un' M(2,3), simplified]] r ent t(5) False
      by (simp del: entry.simps)
  qed
qed

lemma map_page_vm:
  assumes inv: "vm_inv s" and use: "in_use s i" and x: "user_slot (Tbl i (pdx va))"
    and q: "unref s q" and prm: "prm < 4096"
  obtains r t where "map_page i va q prm s = Inr (r, t)" "vm_inv t" "in_use t i"
    "\<And>y. user_slot y \<Longrightarrow> y \<noteq> Tbl i (pdx va) \<Longrightarrow>
       entry t y = (if y = Pg i (pdx va) (ptx va) \<and> r \<noteq> MagicNumber then q * PAGESIZE + prm else entry s y)"
    "r = 0 \<longleftrightarrow> PDirPool s i (pdx va) \<noteq> 0"
proof -
  note result = that
  let ?d = "pdx va" and ?e = "ptx va"
  have i: "i < NUM_IDS" "?d < 1024" using x pdx_less by auto
  have slot: "user_slot (Pg i ?d ?e)" using x ptx_less by simp
  have q': "q < 0x100000" "q \<noteq> 0" using q by (auto intro: live_less [OF inv] simp: unref_def live_def)
  note v = frame_ptu [OF q'(1) prm q'(2)]
  have fin: thesis
    if u: "vm_inv u" "in_use u i" "PDirPool u i ?d \<noteq> 0" "unref u q" "r \<noteq> MagicNumber"
      and ent: "\<And>y. user_slot y \<Longrightarrow> y \<noteq> Tbl i ?d \<Longrightarrow> entry u y = entry s y"
      and run: "map_page i va q prm s = Inr (r, u\<lparr>mem := store32 (mem u) (pte_addr (PDirPool u i ?d) ?e) (q * PAGESIZE + prm)\<rparr>)"
      and r: "r = 0 \<longleftrightarrow> PDirPool s i ?d \<noteq> 0"
    for u r
    using u v ent
    by (intro result [OF run vm_inv_store [OF u(1) slot u(3)]])
       (simp_all add: in_use_def entry_store [OF u(1) slot u(3)] r del: entry.simps)
  show thesis
  proof (cases "PDirPool s i ?d = 0")
    case False
    then have "map_page i va q prm s =
       Inr (0, s\<lparr>mem := store32 (mem s) (pte_addr (PDirPool s i ?d) ?e) (q * PAGESIZE + prm)\<rparr>)"
      using i by (simp add: map_page_def get_pdir_entry_by_va_def set_ptbl_entry_by_va_def MagicNumber_def)
    then show thesis using fin [of s 0] inv use q False by (simp add: MagicNumber_def)
  next
    case True
    obtain r t where t: "alloc_ptbl i va s = Inr (r, t)" "vm_inv t" "in_use t i" "r < 0x100000"
      "\<And>y. user_slot y \<Longrightarrow> entry t y = (if y = Tbl i ?d \<and> r \<noteq> 0 then r * PAGESIZE + PT_PERM_PTU else entry s y)"
      "\<And>p. unref s p \<Longrightarrow> unref t p"
      using alloc_ptbl_vm [OF inv use x True] by metis
    show thesis
    proof (cases "r = 0")
      case r: True
      then have "map_page i va q prm s = Inr (MagicNumber, t)"
        using i True t(1) by (simp add: map_page_def get_pdir_entry_by_va_def)
      then show thesis
        using that [of MagicNumber t] t r True by (simp add: MagicNumber_def del: entry.simps)
    next
      case r: False
      have pd: "PDirPool t i ?d \<noteq> 0"
        using t(5) [OF x] r frame_ptu(2) [OF t(4), of PT_PERM_PTU] by (simp add: PT_PERM_PTU_eq)
      have "r \<noteq> MagicNumber" using t(4) by (auto simp: MagicNumber_def)
      then have "map_page i va q prm s =
         Inr (r, t\<lparr>mem := store32 (mem t) (pte_addr (PDirPool t i ?d) ?e) (q * PAGESIZE + prm)\<rparr>)"
        using i True t(1) r by (simp add: map_page_def get_pdir_entry_by_va_def set_ptbl_entry_by_va_def)
      then show thesis
        using fin [of t r] t pd q \<open>r \<noteq> MagicNumber\<close> True r by (simp del: entry.simps)
    qed
  qed
qed

lemma vm_inv_lk:
  "vm_inv s \<Longrightarrow> lock_ready (cur_kstack s) l \<Longrightarrow> vm_inv (s\<lparr>pt_lk := l\<rparr>)"
proof -
  assume a: "vm_inv s" "lock_ready (cur_kstack s) l"
  let ?t = "s\<lparr>pt_lk := l\<rparr>"
  have ent: "entry ?t x = entry s x" for x by (rule entry_cong) simp_all
  have "live ?t p = live s p" "cont_inv ?t = cont_inv s" "kmap_inv ?t = kmap_inv s" for p
    by (simp_all add: live_def page_norm_def cont_inv_def mat_inv_def in_use_def kmap_inv_def)
  then show "vm_inv ?t"
    using a pt_inv_same [of s ?t] ent by (simp add: vm_inv_def) (simp add: pt_inv_def)
qed

lemma alloc_page_vm:
  assumes inv: "vm_inv s" and use: "in_use s i" and x: "user_slot (Tbl i (pdx va))" and prm: "prm < 4096"
  obtains r t where "alloc_page i va prm s = Inr (r, t)" "vm_inv t" "in_use t i"
    "\<And>y. r = MagicNumber \<Longrightarrow> user_slot y \<Longrightarrow> y \<noteq> Tbl i (pdx va) \<Longrightarrow> entry t y = entry s y"
    "r \<noteq> MagicNumber \<Longrightarrow> (\<exists>p. p \<noteq> 0 \<and> page_avail s p \<and>
       (\<forall>y. user_slot y \<longrightarrow> y \<noteq> Tbl i (pdx va) \<longrightarrow>
          entry t y = (if y = Pg i (pdx va) (ptx va) then p * PAGESIZE + prm else entry s y)))"
proof -
  define s1 where "s1 = s\<lparr>pt_lk := taken (cur_kstack s) (pt_lk s)\<rparr>"
  have lk: "lock_ready (cur_kstack s) (pt_lk s)" using inv by (rule vm_inv_lock)
  have acq: "pt_spinlock_acquire s = Inr ((), s1)" using lk by (simp add: pt_spinlock_acquire_def s1_def)
  have s1: "vm_inv s1" using vm_inv_lk [OF inv] lk by (simp add: s1_def)
  have "in_use s1 i" using use by (simp add: s1_def in_use_def)
  then obtain p t where t: "container_alloc i s1 = Inr (p, t)" "vm_inv t" "in_use t i"
      "cont_state.more t = cont_state.more s1" "\<And>x. entry t x = entry s1 x"
      "p \<noteq> 0 \<Longrightarrow> page_avail s1 p \<and> unref t p"
    using container_alloc_vm [OF s1] by metis
  have e1: "entry s1 y = entry s y" for y by (rule entry_cong) (simp_all add: s1_def)
  have av: "page_avail s1 p = page_avail s p" by (simp add: s1_def page_avail_def page_norm_def)
  define rel where "rel u = u\<lparr>pt_lk := spinlock_release_A (pt_lk u)\<rparr>" for u :: "'a pt_state_scheme"
  have rel: "vm_inv (rel u)" "in_use (rel u) i = in_use u i" "entry (rel u) y = entry u y"
    "pt_spinlock_release u = Inr ((), rel u)" if "vm_inv u" for u y
  proof -
    show "vm_inv (rel u)"
      unfolding rel_def using vm_inv_lk [OF that] vm_inv_lock [OF that] by (auto dest: lock_ready_magic)
    show "entry (rel u) y = entry u y" by (rule entry_cong) (simp_all add: rel_def)
  qed (simp_all add: rel_def in_use_def pt_spinlock_release_def)
  show thesis
  proof (cases "p = 0")
    case True
    then have "alloc_page i va prm s = Inr (MagicNumber, rel t)"
      using acq t(1) rel [OF t(2)] by (simp add: alloc_page_def)
    then show thesis using that [OF _ rel(1) [OF t(2)]] rel(2,3) [OF t(2)] t(3,5) e1 by simp
  next
    case False
    then have p: "page_avail s p" "unref t p" using t(6) av by auto
    obtain r u where u: "map_page i va p prm t = Inr (r, u)" "vm_inv u" "in_use u i"
      "\<And>y. user_slot y \<Longrightarrow> y \<noteq> Tbl i (pdx va) \<Longrightarrow>
         entry u y = (if y = Pg i (pdx va) (ptx va) \<and> r \<noteq> MagicNumber then p * PAGESIZE + prm else entry t y)"
      using map_page_vm [OF t(2,3) x p(2) prm] by metis
    have "alloc_page i va prm s = Inr (r, rel u)"
      using acq t(1) False u(1) rel [OF u(2)] by (simp add: alloc_page_def)
    moreover have "entry (rel u) y =
        (if y = Pg i (pdx va) (ptx va) \<and> r \<noteq> MagicNumber then p * PAGESIZE + prm else entry s y)"
      if "user_slot y" "y \<noteq> Tbl i (pdx va)" for y
      using u(4) [OF that] rel(3) [OF u(2)] t(5) e1 by simp
    ultimately show thesis
      using that [of r "rel u"] rel(1,2) [OF u(2)] u(3) p(1) False by auto
  qed
qed

lemma unmap_page_vm:
  assumes inv: "vm_inv s" and x: "user_slot (Pg i (pdx va) (ptx va))"
  obtains t where "unmap_page i va s = Inr (entry s (Pg i (pdx va) (ptx va)), t)" "vm_inv t"
    "\<And>y. user_slot y \<Longrightarrow> entry t y = (if y = Pg i (pdx va) (ptx va) then 0 else entry s y)"
    "\<And>c. in_use t c = in_use s c"
proof (cases "entry s (Pg i (pdx va) (ptx va)) = 0")
  case True
  then have "unmap_page i va s = Inr (0, s)" using x by (simp add: unmap_page_def del: entry.simps)
  then show thesis using that [of s] True inv by (simp del: entry.simps)
next
  case False
  let ?t = "s\<lparr>mem := store32 (mem s) (pte_addr (PDirPool s i (pdx va)) (ptx va)) 0\<rparr>"
  have pd: "PDirPool s i (pdx va) \<noteq> 0" using False by (auto split: if_splits)
  have "unmap_page i va s = Inr (entry s (Pg i (pdx va) (ptx va)), ?t)"
    using x False pdx_less by (simp add: unmap_page_def rmv_ptbl_entry_by_va_def del: entry.simps)
  then show thesis
    using that [of ?t] vm_inv_store [OF inv x pd, of 0] entry_store [OF inv x pd, of _ 0]
    by (simp add: in_use_def del: entry.simps)
qed

lemma free_ptbl_vm:
  assumes inv: "vm_inv s" and use: "in_use s i" and x: "user_slot (Tbl i (pdx va))"
  obtains t where "free_ptbl i va s = Inr ((), t)" "vm_inv t" "\<And>c. in_use t c = in_use s c"
    "\<And>y. user_slot y \<Longrightarrow> entry t y =
       (if y = Tbl i (pdx va) \<or> (\<exists>e. y = Pg i (pdx va) e) then 0 else entry s y)"
proof -
  let ?d = "pdx va" and ?p = "PDirPool s i (pdx va) div PAGESIZE"
  let ?u = "s\<lparr>PDirPool := (PDirPool s)(i := (PDirPool s i)(?d := 0))\<rparr>"
  have i: "i < NUM_IDS" "?d < 1024" using x pdx_less by auto
  have p: "?p = frame (PDirPool s i ?d)" by (simp add: frame_def PAGESIZE_def)
  have "cont_inv ?u" "in_use ?u i"
    using vm_inv_cont [OF inv] use by (simp_all add: cont_inv_def mat_inv_def in_use_def)
  moreover have "?p < AT_SIZE" using frame_less by (simp add: p AT_SIZE_def)
  ultimately obtain t where t: "container_free i ?p ?u = Inr ((), t)" "cont_inv t"
      "\<And>c. in_use t c = in_use ?u c" "NUM_PAGES t = NUM_PAGES ?u" "cur_kstack t = cur_kstack ?u"
      "cont_state.more t = cont_state.more ?u" "AT t = (AT ?u)(?p := AT ?u ?p\<lparr>allocated := 0\<rparr>)"
    using container_free_cases [of ?u i ?p] by blast
  note more = pt_more [OF t(6)]
  have run: "free_ptbl i va s = Inr ((), t)"
    using i t(1)
    by (simp add: free_ptbl_def get_pdir_entry_by_va_def rmv_pdir_entry_by_va_def rmv_pdir_entry_def
        PT_PERM_UP_def)
  have ent: "entry t y = (if y = Tbl i ?d \<or> (\<exists>e. y = Pg i ?d e) then 0 else entry s y)" for y
    using more(1,2) by (cases y) auto
  have norm: "page_norm t q = page_norm s q" for q using t(7) by (simp add: page_norm_def)
  have live: "live t q" if "live s q" "q \<noteq> ?p" for q
    using that t(4,7) norm by (simp add: live_def)
  have apart: "frame (entry s y) \<noteq> ?p" if y: "user_slot y" "entry s y \<noteq> 0" "y \<noteq> Tbl i ?d" for y
  proof (cases "PDirPool s i ?d = 0")
    case True
    then show ?thesis using vm_inv_entry [OF inv y(1,2)] by (auto simp: live_def)
  next
    case False
    then show ?thesis using vm_inv_inj [OF inv y(1) x y(2)] y(3) p by auto
  qed
  have "pt_inv t"
  proof (rule pt_inv_update [of s t "Tbl i ?d"])
    show "pt_inv s" using inv by (simp add: vm_inv_def)
    show "lock_ready (cur_kstack t) (pt_lk t)" using vm_inv_lock [OF inv] t(5) more(3) by simp
    show "live t (frame (entry s y))" if "user_slot y" "y \<noteq> Tbl i ?d" "entry t y \<noteq> 0" for y
    proof -
      have "entry s y \<noteq> 0" using that(3) ent [of y] by (auto split: if_splits)
      then show ?thesis using live vm_inv_entry [OF inv that(1)] apart [OF that(1) _ that(2)] by blast
    qed
  qed (use t(2) ent ent [of "Tbl i ?d"] in auto)
  moreover have "kmap_inv s" using inv by (simp add: vm_inv_def)
  then have "kmap_inv t"
    by (rule kmap_inv_update) (use more t(4) norm x in auto)
  ultimately show thesis using that [OF run] t(3) ent by (simp add: vm_inv_def in_use_def del: entry.simps)
qed

end
