(* ===== verification/VMInit.thy ===== *)
theory VMInit
  imports PageTable
begin

text \<open>
  The page structures after initialisation (\<^verbatim>\<open>idptbl_init\<close>, \<^verbatim>\<open>pdir_init\<close>, \<^verbatim>\<open>pdir_init_kern\<close>,
  \<^verbatim>\<open>paging_init\<close>), the runs of the operations on them, and the properties: the kernel part of
  every address space is the identity map and the user parts are disjoint, in every
  state the operations reach.
\<close>

section \<open>Initialisation\<close>

definition id_addr :: "u32 \<Rightarrow> u32 \<Rightarrow> u32 \<Rightarrow> u32" where
  "id_addr b d e = b + d * 4096 + e * 4"

definition id_entry :: "u32 \<Rightarrow> u32 \<Rightarrow> u32" where
  "id_entry d e = (d * 1024 + e) * PAGESIZE + idptbl_perm d"

definition idptbl_placed :: "u32 \<Rightarrow> bool" where
  "idptbl_placed b \<longleftrightarrow> b mod 4096 = 0 \<and> unat b + 0x400000 \<le> unat VM_USERLO"

lemma id_addr_facts:
  assumes "idptbl_placed b" "d < 1024" "e < 1024"
  shows "aligned4 (id_addr b d e)" "unat (id_addr b d e) = unat b + unat d * 4096 + unat e * 4"
proof -
  have b: "unat b mod 4096 = 0" "unat b + 0x400000 \<le> 0x40000000"
    using unat_mod_zero [of b 4096] assms(1) by (simp_all only: idptbl_placed_def unat_VM_USERLO unat_4096)
  show u: "unat (id_addr b d e) = unat b + unat d * 4096 + unat e * 4"
    unfolding id_addr_def by (rule unat_idptbl [OF b(2) assms(2,3)])
  show "aligned4 (id_addr b d e)"
    unfolding aligned4_iff u by (rule mod4_add [OF b(1)])
qed

lemma page_offset_inj:
  fixes a b x y :: nat
  assumes "a * 4096 + x * 4 = b * 4096 + y * 4" "x < 1024" "y < 1024"
  shows "a = b \<and> x = y"
proof -
  have "(a * 4096 + x * 4) div 4096 = a" "(b * 4096 + y * 4) div 4096 = b" using assms(2,3) by simp_all
  then show ?thesis using assms(1) by auto
qed

lemma id_addr_eq_iff:
  assumes "idptbl_placed b" "d < 1024" "e < 1024" "d' < 1024" "e' < 1024"
  shows "id_addr b d e = id_addr b d' e' \<longleftrightarrow> d = d' \<and> e = e'"
proof
  assume "id_addr b d e = id_addr b d' e'"
  then have "unat d * 4096 + unat e * 4 = unat d' * 4096 + unat e' * 4"
    using id_addr_facts(2) [OF assms(1-3)] id_addr_facts(2) [OF assms(1,4,5)] by simp
  moreover have "unat e < 1024" "unat e' < 1024" using assms by (simp_all add: word_less_nat_alt)
  ultimately have "unat d = unat d' \<and> unat e = unat e'" by (rule page_offset_inj)
  then show "d = d' \<and> e = e'" by (simp add: word_unat_eq_iff)
qed simp

lemma idptbl_row:
  assumes b: "idptbl_placed (IDPTbl_addr s)" and d: "d < 1024"
  shows "\<exists>M. kfor 0 1024 (\<lambda>j. set_ptbl_entry_identity d j (idptbl_perm d)) s = Inr ((), s\<lparr>mem := M\<rparr>) \<and>
     (\<forall>e < 1024. load32 M (id_addr (IDPTbl_addr s) d e) = id_entry d e) \<and>
     (\<forall>d' < 1024. \<forall>e < 1024. d' \<noteq> d \<longrightarrow>
        load32 M (id_addr (IDPTbl_addr s) d' e) = load32 (mem s) (id_addr (IDPTbl_addr s) d' e))"
proof -
  let ?b = "IDPTbl_addr s" and ?F = "\<lambda>j. set_ptbl_entry_identity d j (idptbl_perm d)"
  let ?I = "\<lambda>j t. \<exists>M. t = s\<lparr>mem := M\<rparr> \<and> (\<forall>e < j. load32 M (id_addr ?b d e) = id_entry d e) \<and>
     (\<forall>d' < 1024. \<forall>e < 1024. d' \<noteq> d \<longrightarrow> load32 M (id_addr ?b d' e) = load32 (mem s) (id_addr ?b d' e))"
  have "\<exists>t. kfor 0 1024 ?F s = Inr ((), t) \<and> ?I 1024 t"
  proof (rule kfor_rule [where Inv = ?I])
    show "?I 0 s" by (auto intro: exI [of _ "mem s"])
    fix j t assume j: "j < 1024" and "?I j t"
    then obtain M where t: "t = s\<lparr>mem := M\<rparr>" and M: "\<forall>e < j. load32 M (id_addr ?b d e) = id_entry d e"
      and other: "\<forall>d' < 1024. \<forall>e < 1024. d' \<noteq> d \<longrightarrow>
        load32 M (id_addr ?b d' e) = load32 (mem s) (id_addr ?b d' e)" by blast
    let ?M = "store32 M (id_addr ?b d j) (id_entry d j)"
    have ld: "load32 ?M (id_addr ?b d' e) =
        (if d' = d \<and> e = j then id_entry d j else load32 M (id_addr ?b d' e))"
      if "d' < 1024" "e < 1024" for d' e
      using id_addr_eq_iff [OF b d j that] id_addr_facts(1) [OF b d j] id_addr_facts(1) [OF b that]
      by (auto simp: load32_store32)
    have "?F j t = Inr ((), s\<lparr>mem := ?M\<rparr>)"
      using d j by (simp add: t set_ptbl_entry_identity_def id_addr_def id_entry_def)
    moreover have "load32 ?M (id_addr ?b d e) = id_entry d e" if "e < j + 1" for e
    proof -
      have "e < j \<or> e = j" using that by (simp add: word_less_Suc_iff [OF j])
      moreover then have "e < 1024" using j by auto
      ultimately show ?thesis using M ld [OF d] by auto
    qed
    moreover have "\<forall>d' < 1024. \<forall>e < 1024. d' \<noteq> d \<longrightarrow>
        load32 ?M (id_addr ?b d' e) = load32 (mem s) (id_addr ?b d' e)" using ld other by simp
    ultimately show "\<exists>u. ?F j t = Inr ((), u) \<and> ?I (j + 1) u" by blast
  qed simp
  then show ?thesis by blast
qed

lemma idptbl_loops:
  assumes b: "idptbl_placed (IDPTbl_addr s)"
  shows "\<exists>M. kfor 0 1024 (\<lambda>i. kfor 0 1024 (\<lambda>j. set_ptbl_entry_identity i j (idptbl_perm i))) s =
       Inr ((), s\<lparr>mem := M\<rparr>) \<and>
     (\<forall>d < 1024. \<forall>e < 1024. load32 M (id_addr (IDPTbl_addr s) d e) = id_entry d e)"
proof -
  let ?b = "IDPTbl_addr s" and ?F = "\<lambda>i. kfor 0 1024 (\<lambda>j. set_ptbl_entry_identity i j (idptbl_perm i))"
  let ?I = "\<lambda>i t. \<exists>M. t = s\<lparr>mem := M\<rparr> \<and> (\<forall>d < i. \<forall>e < 1024. load32 M (id_addr ?b d e) = id_entry d e)"
  have "\<exists>t. kfor 0 1024 ?F s = Inr ((), t) \<and> ?I 1024 t"
  proof (rule kfor_rule [where Inv = ?I])
    show "?I 0 s" by (auto intro: exI [of _ "mem s"])
    fix i t assume i: "i < 1024" and "?I i t"
    then obtain M where t: "t = s\<lparr>mem := M\<rparr>" and M: "\<forall>d < i. \<forall>e < 1024. load32 M (id_addr ?b d e) = id_entry d e"
      by blast
    have "idptbl_placed (IDPTbl_addr t)" using b by (simp add: t)
    from idptbl_row [OF this i] obtain M' where M': "?F i t = Inr ((), s\<lparr>mem := M'\<rparr>)"
      "\<forall>e < 1024. load32 M' (id_addr ?b i e) = id_entry i e"
      "\<forall>d' < 1024. \<forall>e < 1024. d' \<noteq> i \<longrightarrow> load32 M' (id_addr ?b d' e) = load32 M (id_addr ?b d' e)"
      by (auto simp: t)
    have "load32 M' (id_addr ?b d e) = id_entry d e" if "d < i + 1" "e < 1024" for d e
    proof (cases "d = i")
      case False
      then have "d < i" using that(1) by (simp add: word_less_Suc_iff [OF i])
      then show ?thesis using M M'(3) i that(2) by auto
    qed (use M'(2) that(2) in simp)
    then show "\<exists>u. ?F i t = Inr ((), u) \<and> ?I (i + 1) u" using M'(1) by blast
  qed simp
  then show ?thesis by blast
qed


text \<open>The directories: identity in the kernel part, empty in the user part.\<close>

definition init_pde :: "u32 \<Rightarrow> u32 \<Rightarrow> u32" where
  "init_pde b d = (if d < 256 \<or> d \<ge> 960 then b + d * 4096 + PT_PERM_PTU else PT_PERM_UP)"

lemma init_pde_user: "init_pde b d = (if user_pde d then 0 else b + d * 4096 + PT_PERM_PTU)"
  by (auto simp: init_pde_def user_pde_def PT_PERM_UP_def)

abbreviation pdir_body :: "u32 \<Rightarrow> u32 \<Rightarrow> ('z pt_state_scheme, unit) kern" where
  "pdir_body i j \<equiv> (if j < 256 \<or> j \<ge> 960 then set_pdir_entry_identity i j else rmv_pdir_entry i j)"

lemma pdir_row:
  assumes i: "i < NUM_IDS"
  shows "\<exists>P. kfor 0 1024 (pdir_body i) s = Inr ((), s\<lparr>PDirPool := (PDirPool s)(i := P)\<rparr>) \<and>
     (\<forall>d < 1024. P d = init_pde (IDPTbl_addr s) d)"
proof -
  let ?I = "\<lambda>j t. \<exists>P. t = s\<lparr>PDirPool := (PDirPool s)(i := P)\<rparr> \<and> (\<forall>d < j. P d = init_pde (IDPTbl_addr s) d)"
  have "\<exists>t. kfor 0 1024 (pdir_body i) s = Inr ((), t) \<and> ?I 1024 t"
  proof (rule kfor_rule [where Inv = ?I])
    show "?I 0 s" by (auto intro: exI [of _ "PDirPool s i"])
    fix j t assume j: "j < 1024" and "?I j t"
    then obtain P where t: "t = s\<lparr>PDirPool := (PDirPool s)(i := P)\<rparr>"
      and P: "\<forall>d < j. P d = init_pde (IDPTbl_addr s) d" by blast
    let ?P = "P(j := init_pde (IDPTbl_addr s) j)"
    have "pdir_body i j t = Inr ((), s\<lparr>PDirPool := (PDirPool s)(i := ?P)\<rparr>)"
      using i j by (simp add: t set_pdir_entry_identity_def rmv_pdir_entry_def init_pde_def)
    moreover have "\<forall>d < j + 1. ?P d = init_pde (IDPTbl_addr s) d"
      using P by (simp add: word_less_Suc_iff [OF j])
    ultimately show "\<exists>u. pdir_body i j t = Inr ((), u) \<and> ?I (j + 1) u" by blast
  qed simp
  then show ?thesis by blast
qed

lemma pdir_loops:
  "\<exists>P. kfor 0 NUM_IDS (\<lambda>i. kfor 0 1024 (pdir_body i)) s = Inr ((), s\<lparr>PDirPool := P\<rparr>) \<and>
     (\<forall>i < NUM_IDS. \<forall>d < 1024. P i d = init_pde (IDPTbl_addr s) d)"
proof -
  let ?F = "\<lambda>i. kfor 0 1024 (pdir_body i)"
  let ?I = "\<lambda>i t. \<exists>P. t = s\<lparr>PDirPool := P\<rparr> \<and> (\<forall>j < i. \<forall>d < 1024. P j d = init_pde (IDPTbl_addr s) d)"
  have "\<exists>t. kfor 0 NUM_IDS ?F s = Inr ((), t) \<and> ?I NUM_IDS t"
  proof (rule kfor_rule [where Inv = ?I])
    show "?I 0 s" by (auto intro: exI [of _ "PDirPool s"])
    fix i t assume i: "i < NUM_IDS" and "?I i t"
    then obtain P where t: "t = s\<lparr>PDirPool := P\<rparr>" and P: "\<forall>j < i. \<forall>d < 1024. P j d = init_pde (IDPTbl_addr s) d"
      by blast
    obtain Q where Q: "?F i t = Inr ((), s\<lparr>PDirPool := P(i := Q)\<rparr>)" "\<forall>d < 1024. Q d = init_pde (IDPTbl_addr s) d"
      using pdir_row [OF i, of t] by (auto simp: t)
    have "\<forall>j < i + 1. \<forall>d < 1024. (P(i := Q)) j d = init_pde (IDPTbl_addr s) d"
      using P Q(2) by (simp add: word_less_Suc_iff [OF i])
    then show "\<exists>u. ?F i t = Inr ((), u) \<and> ?I (i + 1) u" using Q(1) by blast
  qed (simp add: NUM_IDS_def)
  then show ?thesis by blast
qed

lemma pdir_kern_loop:
  "\<exists>P. kfor 256 960 (\<lambda>i. set_pdir_entry_identity 0 i) s = Inr ((), s\<lparr>PDirPool := (PDirPool s)(0 := P)\<rparr>) \<and>
     (\<forall>d. P d = (if user_pde d then IDPTbl_addr s + d * 4096 + PT_PERM_PTU else PDirPool s 0 d))"
proof -
  let ?v = "\<lambda>d. IDPTbl_addr s + d * 4096 + PT_PERM_PTU"
  let ?I = "\<lambda>j t. \<exists>P. t = s\<lparr>PDirPool := (PDirPool s)(0 := P)\<rparr> \<and>
     (\<forall>d. P d = (if 256 \<le> d \<and> d < j then ?v d else PDirPool s 0 d))"
  have "\<exists>t. kfor 256 960 (\<lambda>i. set_pdir_entry_identity 0 i) s = Inr ((), t) \<and> ?I 960 t"
  proof (rule kfor_rule [where Inv = ?I])
    have "\<not> (256 \<le> d \<and> d < (256 :: u32))" for d by auto
    then show "?I 256 s" by (auto intro: exI [of _ "PDirPool s 0"])
    fix j t assume j: "256 \<le> j" "j < 960" and "?I j t"
    then obtain P where t: "t = s\<lparr>PDirPool := (PDirPool s)(0 := P)\<rparr>"
      and P: "\<forall>d. P d = (if 256 \<le> d \<and> d < j then ?v d else PDirPool s 0 d)" by blast
    have "j < 1024" using j by (auto simp: word_less_nat_alt)
    then have "set_pdir_entry_identity 0 j t = Inr ((), s\<lparr>PDirPool := (PDirPool s)(0 := P(j := ?v j))\<rparr>)"
      by (simp add: t set_pdir_entry_identity_def NUM_IDS_def)
    moreover have "\<forall>d. (P(j := ?v j)) d = (if 256 \<le> d \<and> d < j + 1 then ?v d else PDirPool s 0 d)"
      using P j by (auto simp: word_less_Suc_iff [OF j(2)])
    ultimately show "\<exists>u. set_pdir_entry_identity 0 j t = Inr ((), u) \<and> ?I (j + 1) u" by blast
  qed simp
  then show ?thesis by (auto simp: user_pde_def)
qed

text \<open>What \<^verbatim>\<open>devinit\<close> leaves: a memory map, a kernel stack, no container, and \<^verbatim>\<open>IDPTbl\<close> in place.\<close>

definition boot_ready :: "'z pt_state_scheme \<Rightarrow> bool" where
  "boot_ready u \<longleftrightarrow>
     pmmap_ok u \<and> pmmap_list u \<noteq> [] \<and> lock_ready (cur_kstack u) (pt_lk u) \<and>
     last_palloc_index u < AT_SIZE \<and> (\<forall>c < NUM_IDS. used (CONTAINER u c) = 0) \<and>
     idptbl_placed (IDPTbl_addr u)"

lemma page_class_user:
  "page_class slots i \<noteq> 0 \<Longrightarrow> page_class slots i \<noteq> 1 \<Longrightarrow> VM_USERLO_PI \<le> i \<and> i < VM_USERHI_PI"
  by (auto simp: page_class_def not_less split: if_splits)

lemma fresh_vm_inv:
  assumes c: "cont_inv t" and lk: "lock_ready (cur_kstack t) (pt_lk t)"
    and b: "idptbl_placed (IDPTbl_addr t)"
    and norm: "\<forall>p < NUM_PAGES t. page_norm t p \<longrightarrow> VM_USERLO_PI \<le> p \<and> p < VM_USERHI_PI"
    and pd: "\<forall>i < NUM_IDS. \<forall>d < 1024. PDirPool t i d =
       (if i \<noteq> 0 \<and> user_pde d then 0 else IDPTbl_addr t + d * 4096 + PT_PERM_PTU)"
    and ids: "\<forall>d < 1024. \<forall>e < 1024. load32 (mem t) (id_addr (IDPTbl_addr t) d e) = id_entry d e"
  shows "vm_inv t" and "user_slot x \<Longrightarrow> entry t x = 0"
proof -
  show zero: "entry t x = 0" if "user_slot x" for x
    using that pd by (cases x) (simp_all add: user_pde_less)
  have "pt_inv t" using c lk zero by (simp add: pt_inv_def)
  moreover have "kmap_inv t"
    using b norm pd ids
    by (simp add: kmap_inv_def idptbl_placed_def id_addr_def id_entry_def)
  ultimately show "vm_inv t" by (simp add: vm_inv_def)
qed

lemma pdir_init_kern_ok:
  assumes dev: "devinit a s = Inr ((), u)" and ready: "boot_ready u"
  shows "\<exists>t. pdir_init_kern devinit a s = Inr ((), t) \<and> vm_inv t \<and> (\<forall>x. user_slot x \<longrightarrow> entry t x = 0) \<and>
     (\<forall>c. in_use t c \<longleftrightarrow> c = 0) \<and> cur_kstack t = cur_kstack u \<and> pt_lk t = pt_lk u \<and>
     PDirPool_addr t = PDirPool_addr u \<and> cr0 t = cr0 u \<and> cr4 t = cr4 u \<and>
     pcpu_tbl t = pcpu_tbl u \<and> pt_state.more t = pt_state.more u"
proof -
  have hyp: "pmmap_ok u" "pmmap_list u \<noteq> []" "last_palloc_index u < AT_SIZE"
    "\<And>c. c < NUM_IDS \<Longrightarrow> used (CONTAINER u c) = 0" "idptbl_placed (IDPTbl_addr u)"
    and lk: "lock_ready (cur_kstack u) (pt_lk u)"
    using ready unfolding boot_ready_def by blast+
  obtain v where v: "container_init devinit a s = Inr ((), v)" "cont_inv v" "\<forall>c. in_use v c \<longleftrightarrow> c = 0"
    "\<forall>j < NUM_PAGES v. AT v j = \<lparr>perm = page_class (pmmap_list u) j, allocated = 0\<rparr>"
    "cur_kstack v = cur_kstack u" "cont_state.more v = cont_state.more u" "pcpu_tbl v = pcpu_tbl u"
    using container_init_ok [of devinit, OF dev hyp(1,2) lock_ready_magic [OF lk] hyp(3,4)] by blast
  note more = pt_more [OF v(6)]
  have regs: "cr0 v = cr0 u" "cr4 v = cr4 u" "pt_state.more v = pt_state.more u"
    using v(6) by (cases u, cases v, simp)+
  obtain M where M: "idptbl_init devinit a s = Inr ((), v\<lparr>mem := M\<rparr>)"
    "\<forall>d < 1024. \<forall>e < 1024. load32 M (id_addr (IDPTbl_addr u) d e) = id_entry d e"
    using idptbl_loops [of v] hyp(5) v(1) more(4) by (auto simp: idptbl_init_def)
  obtain P where P: "pdir_init devinit a s = Inr ((), v\<lparr>mem := M, PDirPool := P\<rparr>)"
    "\<forall>i < NUM_IDS. \<forall>d < 1024. P i d = init_pde (IDPTbl_addr u) d"
    using pdir_loops [of "v\<lparr>mem := M\<rparr>"] M(1) more(4) by (auto simp: pdir_init_def)
  obtain Q where Q: "pdir_init_kern devinit a s = Inr ((), v\<lparr>mem := M, PDirPool := P(0 := Q)\<rparr>)"
    "\<forall>d. Q d = (if user_pde d then IDPTbl_addr u + d * 4096 + PT_PERM_PTU else P 0 d)"
    using pdir_kern_loop [of "v\<lparr>mem := M, PDirPool := P\<rparr>"] P(1) more(4) by (auto simp: pdir_init_kern_def)
  let ?t = "v\<lparr>mem := M, PDirPool := P(0 := Q)\<rparr>"
  have "\<forall>i < NUM_IDS. \<forall>d < 1024. PDirPool ?t i d =
       (if i \<noteq> 0 \<and> user_pde d then 0 else IDPTbl_addr ?t + d * 4096 + PT_PERM_PTU)"
    using P(2) Q(2) more(4) by (simp add: init_pde_user NUM_IDS_def)
  moreover have "\<forall>p < NUM_PAGES ?t. page_norm ?t p \<longrightarrow> VM_USERLO_PI \<le> p \<and> p < VM_USERHI_PI"
    using v(4) page_class_user [of "pmmap_list u"] by (auto simp: page_norm_def)
  moreover have "cont_inv ?t" using v(2) by (simp add: cont_inv_def mat_inv_def in_use_def)
  moreover have "lock_ready (cur_kstack ?t) (pt_lk ?t)" using lk v(5) more(3) by simp
  moreover have "idptbl_placed (IDPTbl_addr ?t)"
    "\<forall>d < 1024. \<forall>e < 1024. load32 (mem ?t) (id_addr (IDPTbl_addr ?t) d e) = id_entry d e"
    using hyp(5) M(2) more(4) by simp_all
  ultimately have "vm_inv ?t" "\<And>x. user_slot x \<Longrightarrow> entry ?t x = 0"
    using fresh_vm_inv [of ?t] by blast+
  moreover have "in_use ?t c \<longleftrightarrow> c = 0" for c using v(3) by (simp add: in_use_def)
  ultimately show ?thesis
    using Q(1) v(5,7) more regs by (intro exI [of _ ?t]) (simp del: entry.simps)
qed

section \<open>Runs\<close>

inductive vm_step :: "'z pt_state_scheme \<Rightarrow> 'z pt_state_scheme \<Rightarrow> bool" where
  vm_alloc: "in_use s i \<Longrightarrow> user_slot (Tbl i (pdx va)) \<Longrightarrow> prm < 4096 \<Longrightarrow>
     alloc_page i va prm s = Inr (r, t) \<Longrightarrow> vm_step s t"
| vm_unmap: "user_slot (Tbl i (pdx va)) \<Longrightarrow> unmap_page i va s = Inr (r, t) \<Longrightarrow> vm_step s t"
| vm_free: "in_use s i \<Longrightarrow> user_slot (Tbl i (pdx va)) \<Longrightarrow> free_ptbl i va s = Inr (x, t) \<Longrightarrow> vm_step s t"
| vm_split: "can_split s i q \<Longrightarrow> alloc_mem_quota i q s = Inr (c, t) \<Longrightarrow> vm_step s t"

lemma split_vm:
  assumes inv: "vm_inv s" and can: "can_split s i q"
  shows "vm_inv (split_state s i q (i * MAX_CHILDREN + 1 + nchildren (CONTAINER s i)))" (is "vm_inv ?t")
proof -
  have "cont_inv ?t" using split_state_inv [OF vm_inv_cont [OF inv] can] .
  have ent: "entry ?t x = entry s x" for x by (rule entry_cong) (simp_all add: split_state_def)
  have sel: "live ?t p = live s p" "kmap_inv ?t = kmap_inv s" "cur_kstack ?t = cur_kstack s" "pt_lk ?t = pt_lk s" for p
    by (simp_all add: live_def page_norm_def kmap_inv_def split_state_def)
  have "pt_inv ?t"
    by (rule pt_inv_same [OF _ \<open>cont_inv ?t\<close> _ ent]) (use inv sel in \<open>simp_all add: vm_inv_def pt_inv_def\<close>)
  then show ?thesis using inv sel by (simp add: vm_inv_def)
qed

lemma vm_step_inv: "vm_step s t \<Longrightarrow> vm_inv s \<Longrightarrow> vm_inv t"
proof (induction rule: vm_step.induct)
  case (vm_alloc s i va prm r t)
  obtain r' t' where "alloc_page i va prm s = Inr (r', t')" "vm_inv t'"
    using alloc_page_vm [OF vm_alloc.prems vm_alloc.hyps(1-3)] by metis
  then show ?case using vm_alloc.hyps(4) by simp
next
  case (vm_unmap i va s r t)
  have "user_slot (Pg i (pdx va) (ptx va))" using vm_unmap.hyps(1) ptx_less by simp
  from unmap_page_vm [OF vm_unmap.prems this] obtain t' where
    "unmap_page i va s = Inr (entry s (Pg i (pdx va) (ptx va)), t')" "vm_inv t'" by metis
  then show ?case using vm_unmap.hyps(2) by simp
next
  case (vm_free s i va x t)
  obtain t' where "free_ptbl i va s = Inr ((), t')" "vm_inv t'"
    using free_ptbl_vm [OF vm_free.prems vm_free.hyps(1,2)] by metis
  then show ?case using vm_free.hyps(3) by simp
next
  case (vm_split s i q c t)
  then have "t = split_state s i q (i * MAX_CHILDREN + 1 + nchildren (CONTAINER s i))"
    by (auto simp: alloc_mem_quota_def container_split_eq Let_def)
  then show ?case using split_vm [OF vm_split.prems vm_split.hyps(1)] by simp
qed

lemma vm_run_inv: "vm_step\<^sup>*\<^sup>* s t \<Longrightarrow> vm_inv s \<Longrightarrow> vm_inv t"
  by (induction rule: rtranclp_induct) (auto dest: vm_step_inv)

section \<open>Reading the kernel map\<close>

definition user_va :: "u32 \<Rightarrow> bool" where
  "user_va va \<longleftrightarrow> VM_USERLO \<le> va \<and> va < VM_USERHI"

lemma user_va_pde: "user_pde (pdx va) \<longleftrightarrow> user_va va"
proof -
  have "256 \<le> unat va div 4194304 \<longleftrightarrow> 1073741824 \<le> unat va" by auto
  moreover have "unat va div 4194304 < 960 \<longleftrightarrow> unat va < 4026531840" by auto
  ultimately show ?thesis
    by (simp add: user_pde_def user_va_def pdx_def VM_USERLO_def VM_USERHI_def word_le_nat_alt
        word_less_nat_alt unat_div)
qed

lemma pdx_ptx: "pdx va * 1024 + ptx va = frame va"
proof -
  have "unat (pdx va * 1024 + ptx va) = unat va div 4194304 * 1024 + (unat va div 4096) mod 1024"
  proof -
    have lt: "unat va div 4194304 < 1024" using unat_lt2p [of va] by simp
    have m: "unat (pdx va * 1024) = unat va div 4194304 * 1024"
      using lt by (subst unat_mult_exact) (simp_all add: pdx_def unat_div)
    have p: "unat (ptx va) = (unat va div 4096) mod 1024" by (simp add: ptx_def unat_div unat_mod)
    show ?thesis
      using lt unat_add_exact [of "pdx va * 1024" "ptx va"] by (simp add: m p)
  qed
  also have "\<dots> = unat va div 4096"
  proof -
    have "unat va div 4194304 = (unat va div 4096) div 1024" by (simp add: div_mult2_eq [symmetric])
    then show ?thesis by simp
  qed
  finally show ?thesis by (simp add: word_unat_eq_iff unat_frame)
qed

lemma id_pde:
  assumes b: "idptbl_placed b" and d: "d < 1024" and e: "e < 1024"
  shows "pte_addr (b + d * 4096 + PT_PERM_PTU) e = id_addr b d e" "b + d * 4096 + PT_PERM_PTU \<noteq> 0"
proof -
  have bn: "unat b mod 4096 = 0" "unat b + 0x400000 \<le> 0x40000000"
    using unat_mod_zero [of b 4096] b by (simp_all only: idptbl_placed_def unat_VM_USERLO unat_4096)
  have u: "unat (b + d * 4096) = unat b + unat d * 4096"
    using unat_idptbl [OF bn(2) d, of 0] by simp
  have dn: "unat d < 1024" using d by (simp add: word_less_nat_alt)
  have v: "unat (b + d * 4096 + PT_PERM_PTU) = unat b + unat d * 4096 + 7"
    using unat_add_exact [of "b + d * 4096" 7] bn(2) dn by (simp add: u PT_PERM_PTU_eq)
  have "(unat b + unat d * 4096 + 7) div 4096 * 4096 = unat b + unat d * 4096"
  proof -
    obtain k where "unat b = k * 4096" using bn(1) by (metis mod_0_imp_dvd dvd_def mult.commute)
    then have "unat b + unat d * 4096 + 7 = 7 + (k + unat d) * 4096" by simp
    moreover have "(7 + (k + unat d) * 4096) div 4096 = k + unat d" by (subst div_mult_self1) simp_all
    ultimately have "(unat b + unat d * 4096 + 7) div 4096 = k + unat d" by (simp only:)
    then show ?thesis using \<open>unat b = k * 4096\<close> by simp
  qed
  then have "unat (frame (b + d * 4096 + PT_PERM_PTU)) * 4096 = unat b + unat d * 4096"
    by (simp add: unat_frame v)
  then show "pte_addr (b + d * 4096 + PT_PERM_PTU) e = id_addr b d e"
    by (simp add: word_unat_eq_iff [of "pte_addr _ e"] unat_pte_addr [OF e] id_addr_facts(2) [OF b d e])
  show "b + d * 4096 + PT_PERM_PTU \<noteq> 0" using v by (auto simp: word_unat_eq_iff)
qed

lemma kernel_entry:
  assumes inv: "vm_inv s" and i: "i < NUM_IDS" and va: "i = 0 \<or> \<not> user_va va"
  shows "get_ptbl_entry_by_va i va s = Inr ((va AND 0xfffff000) + idptbl_perm (pdx va), s)"
proof -
  have k: "kmap_inv s" using inv by (simp add: vm_inv_def)
  then have b: "idptbl_placed (IDPTbl_addr s)" unfolding kmap_inv_def idptbl_placed_def by blast
  have pd: "PDirPool s i (pdx va) = IDPTbl_addr s + pdx va * 4096 + PT_PERM_PTU"
    using k i va pdx_less [of va] user_va_pde [of va] unfolding kmap_inv_def by blast
  have "load32 (mem s) (id_addr (IDPTbl_addr s) (pdx va) (ptx va)) =
      (pdx va * 1024 + ptx va) * PAGESIZE + idptbl_perm (pdx va)"
    using k pdx_less [of va] ptx_less [of va] unfolding kmap_inv_def id_addr_def by blast
  then have "entry s (Pg i (pdx va) (ptx va)) = frame va * PAGESIZE + idptbl_perm (pdx va)"
    using id_pde [OF b pdx_less ptx_less] by (simp add: pd pdx_ptx)
  then show ?thesis using i by (simp add: page_mask PAGESIZE_def del: entry.simps)
qed

section \<open>Properties\<close>


text \<open>
  C13. The kernel map: in every such state process 0 sees all addresses, and every other
  process the addresses outside the user range, through the identity map with the
  kernel's permissions.
\<close>

theorem vm_kernel_identity:
  assumes "vm_inv s" "vm_step\<^sup>*\<^sup>* s t" "i < NUM_IDS" "i = 0 \<or> \<not> user_va va"
  shows "get_ptbl_entry_by_va i va t = Inr ((va AND 0xfffff000) + idptbl_perm (pdx va), t)"
  using kernel_entry [OF vm_run_inv [OF assms(2,1)] assms(3,4)] .


lemma paging_init_ok:
  assumes dev: "devinit a (s\<lparr>pt_lk := spinlock_init (pt_lk s)\<rparr>) = Inr ((), u)" and ready: "boot_ready u"
  shows "\<exists>t. paging_init devinit edx a s =
      (if check_pse_support edx then Inr ((), t) else Inl (KERN_PANIC ''Cannot enable super pages'')) \<and>
    vm_inv t \<and> {c. in_use t c} = {0} \<and> (\<forall>x. user_slot x \<longrightarrow> entry t x = 0) \<and>
    cr3 t = PDirPool_addr u \<and> cr0 t AND 0x80010001 = 0x80010001 \<and> cr4 t = cr4 u OR 0x90 \<and>
    cur_kstack t = cur_kstack u \<and> pcpu_tbl t = pcpu_tbl u \<and> pt_state.more t = pt_state.more u"
proof -
  obtain v where v: "pdir_init_kern devinit a (s\<lparr>pt_lk := spinlock_init (pt_lk s)\<rparr>) = Inr ((), v)"
    "vm_inv v" "\<forall>x. user_slot x \<longrightarrow> entry v x = 0" "\<forall>c. in_use v c \<longleftrightarrow> c = 0"
    "PDirPool_addr v = PDirPool_addr u" "cr4 v = cr4 u"
    "cur_kstack v = cur_kstack u" "pcpu_tbl v = pcpu_tbl u" "pt_state.more v = pt_state.more u"
    using pdir_init_kern_ok [of devinit, OF dev ready] by blast
  let ?t0 = "v\<lparr>cr3 := PDirPool_addr u, cr4 := cr4 u OR 0x90, cr0 := (cr0 v OR CR0_SET) AND NOT CR0_CLEAR\<rparr>"
  let ?t = "?t0\<lparr>pt_lk := spinlock_release_A (pt_lk v)\<rparr>"
  have lk: "lock_ready (cur_kstack v) (pt_lk v)" by (rule vm_inv_lock [OF v(2)])
  have or: "(x OR 16) OR 128 = x OR 144" for x :: u32
    by (simp add: or.assoc)
  have run: "paging_init devinit edx a s =
      (if check_pse_support edx then Inr ((), ?t) else Inl (KERN_PANIC ''Cannot enable super pages''))"
    using v(1,5,6) lk
    by (simp add: paging_init_def pt_spinlock_init_def enable_pse_def pt_spinlock_acquire_def or
        set_pdir_base_def set_cr3_def enable_paging_def pt_spinlock_release_def NUM_IDS_def CR4_PGE_def)
  have sel: "entry ?t0 x = entry v x" for x by (rule entry_cong) simp_all
  have "pt_inv ?t0"
    by (rule pt_inv_same [of v, OF _ _ _ sel])
       (use v(2) lk in \<open>simp_all add: lock_ready_magic vm_inv_def pt_inv_def cont_inv_def mat_inv_def in_use_def live_def page_norm_def\<close>)
  moreover have "kmap_inv ?t0"
    using v(2) by (simp add: vm_inv_def kmap_inv_def page_norm_def)
  ultimately have "vm_inv ?t0" by (simp add: vm_inv_def)
  then have "vm_inv ?t"
    using vm_inv_lk [of ?t0 "spinlock_release_A (pt_lk v)"] lock_ready_magic [OF lk] by simp
  moreover have "entry ?t x = entry v x" for x by (rule entry_cong) simp_all
  moreover have "in_use ?t c = in_use v c" for c by (simp add: in_use_def)
  moreover have "((cr0 v OR CR0_SET) AND NOT CR0_CLEAR) AND 0x80010001 = 0x80010001"
    by (simp add: CR0_SET_def CR0_CLEAR_def and.assoc bit.conj_disj_distrib2)
  ultimately show ?thesis
    using run v(3,4,7-9) by (intro exI [of _ ?t]) (simp del: entry.simps)
qed

text \<open>
  C11. \<^verbatim>\<open>paging_init\<close>, given what \<^verbatim>\<open>devinit\<close> leaves: without page size extensions it panics;
  otherwise it builds well-formed page structures with empty user parts, loads the
  directory of process 0 and turns on paging, protection and write protection.
\<close>

theorem paging_init_correct:
  assumes dev: "devinit a (s\<lparr>pt_lk := spinlock_init (pt_lk s)\<rparr>) = Inr ((), u)" and ready: "boot_ready u"
  shows "\<exists>t. paging_init devinit edx a s =
      (if check_pse_support edx then Inr ((), t) else Inl (KERN_PANIC ''Cannot enable super pages'')) \<and>
    vm_inv t \<and> {c. in_use t c} = {0} \<and> (\<forall>x. user_slot x \<longrightarrow> entry t x = 0) \<and>
    cr3 t = PDirPool_addr u \<and> cr0 t AND 0x80010001 = 0x80010001 \<and> cr4 t = cr4 u OR 0x90"
  using paging_init_ok [of devinit, OF assms] by blast

section \<open>Concrete machines\<close>

definition boot_pt :: pt_state where
  "boot_pt = cont_state.extend boot_cont
     (pt_state.fields (spinlock_init \<lparr>lock = 0, lock_holder = 0\<rparr>) (\<lambda>_ _. 0) (\<lambda>_. 0) 0x200000 0x600000 0x11 0 0)"

lemmas boot_pt_defs = boot_pt_def boot_cont_def boot_mat_defs cont_state.defs pt_state.defs

lemma boot_pt_lock: "boot_pt\<lparr>pt_lk := spinlock_init (pt_lk boot_pt)\<rparr> = boot_pt"
  by (simp add: boot_pt_defs spinlock_init_def)

lemma boot_2GB_ready:
  fixes s :: "'z pt_state_scheme"
  assumes s: "pt_state.truncate s = boot_pt"
  obtains u where "pmmap_init e820_2GB s = Inr ((), u)" "boot_ready u" "PDirPool_addr u = 0x600000" "cr4 u = 0"
    "cur_kstack u = cur_kstack s" "pcpu_tbl u = pcpu_tbl s" "pt_state.more u = pt_state.more s"
proof -
  have known: "known_types e820_2GB" by code_simp
  have init: "pmmap_slots_next_free s = 0" "pmmap_nentries s = 0" "lock_ready (cur_kstack s) (pt_lk s)"
    "PDirPool_addr s = 0x600000" "cr4 s = 0" "last_palloc_index s = VM_USERLO_PI"
    "\<forall>c. used (CONTAINER s c) = 0" "IDPTbl_addr s = 0x200000"
    using s by (auto simp: boot_pt_defs lock_ready_def spinlock_init_def)
  have len: "pmmap_slots_next_free s + length e820_2GB \<le> 128"
    using init by (simp add: e820_2GB_def)
  obtain u where u: "pmmap_init e820_2GB s = Inr ((), u)" "pmmap_list u = pmmap_final e820_2GB"
    "pmmap_nentries u = pmmap_nentries s + of_nat (length (pmmap_final e820_2GB))"
    "cur_kstack u = cur_kstack s" "pcpu_tbl u = pcpu_tbl s" "mboot_state.more u = mboot_state.more s"
    using pmmap_init_ok [OF len known] by blast
  have more: "last_palloc_index u = last_palloc_index s" "CONTAINER u = CONTAINER s"
    "pt_lk u = pt_lk s" "IDPTbl_addr u = IDPTbl_addr s" "PDirPool_addr u = PDirPool_addr s" "cr4 u = cr4 s"
    "pt_state.more u = pt_state.more s"
    using u(6) by (cases u, cases s, simp)+
  have "pmmap_ok u"
    using pmmap_final_sorted [of e820_2GB] pmmap_final_ranges_ok [of e820_2GB] u init
    by (simp add: pmmap_ok_def pmmap_final_2GB)
  then have "boot_ready u"
    using u(2,4) more init
    by (simp add: boot_ready_def idptbl_placed_def unat_VM_USERLO pmmap_final_2GB AT_SIZE_def VM_USERLO_PI_def)
  then show thesis using that u more init by auto
qed

theorem paging_init_correct_witness:
  "\<exists>t. paging_init (\<lambda>_. pmmap_init e820_2GB) 8 0 boot_pt = Inr ((), t) \<and> vm_inv t \<and>
     {c. in_use t c} = {0} \<and> cr3 t = 0x600000 \<and> cr0 t AND 0x80010001 = 0x80010001 \<and> cr4 t = 0x90"
proof -
  obtain u where u: "pmmap_init e820_2GB (boot_pt\<lparr>pt_lk := spinlock_init (pt_lk boot_pt)\<rparr>) = Inr ((), u)"
    "boot_ready u" "PDirPool_addr u = 0x600000" "cr4 u = 0"
    using boot_2GB_ready [of boot_pt] by (auto simp: boot_pt_lock pt_state.defs)
  have "check_pse_support 8" by (simp add: check_pse_support_def)
  then show ?thesis
    using paging_init_correct [of "\<lambda>_. pmmap_init e820_2GB" 0 boot_pt u 8, OF u(1,2)] u(3,4) by auto
qed

text \<open>
  A machine with the root container and two children, of which both have a page table and
  one page mapped at the start of the user range.
\<close>

definition tree3 :: "u32 \<Rightarrow> SContainer" where
  "tree3 = (\<lambda>_. \<lparr>quota = 0, usage = 0, parent = 0, nchildren = 0, used = 0\<rparr>)
     (0 := \<lparr>quota = 30, usage = 20, parent = 0, nchildren = 2, used = 1\<rparr>,
      1 := \<lparr>quota = 10, usage = 2, parent = 0, nchildren = 0, used = 1\<rparr>,
      2 := \<lparr>quota = 10, usage = 2, parent = 0, nchildren = 0, used = 1\<rparr>)"

definition taken4 :: "u32 \<Rightarrow> ATStruct" where
  "taken4 i = \<lparr>perm = if 0x40001 \<le> i then 2 else 0,
     allocated = if i \<in> {0x40001, 0x40002, 0x40003, 0x40004} then 1 else 0\<rparr>"

lemma tree3_inv:
  assumes "cont_inv s" "cur_kstack t = cur_kstack s" "mem_lk t = mem_lk s" "CONTAINER t = tree3"
    "NUM_PAGES t = 0x40010" "last_palloc_index t = 0x40004"
  shows "cont_inv t" "in_use t 1" "in_use t 2"
proof -
  have use: "in_use t c \<longleftrightarrow> c = 0 \<or> c = 1 \<or> c = 2" for c
    using assms(4) by (auto simp: in_use_def tree3_def NUM_IDS_def)
  have up: "up 1 = 0" "up 2 = 0" "nth_child 1 = 0" "nth_child 2 = 1"
    by (simp_all add: up_def nth_child_def MAX_CHILDREN_def)
  have "mat_inv t" using assms by (simp add: cont_inv_def mat_inv_def AT_SIZE_def)
  then show "cont_inv t" using up unfolding cont_inv_def use by (auto simp: assms(4) tree3_def)
  show "in_use t 1" "in_use t 2" by (simp_all add: use)
qed

lemma put_page:
  fixes s :: "'z pt_state_scheme"
  assumes i: "user_slot (Tbl i 256)" "entry s (Tbl i 256) = 0" "vm_inv s" "unref s p" "unref s q" "p \<noteq> q"
  obtains t :: "'z pt_state_scheme" where "vm_inv t" "\<forall>c. in_use t c = in_use s c"
    "\<forall>y. user_slot y \<longrightarrow> entry t y = (if y = Tbl i 256 then p * 4096 + 7
         else if y = Pg i 256 0 then q * 4096 + 7 else entry s y)"
    "\<forall>r. unref s r \<longrightarrow> r \<noteq> p \<longrightarrow> r \<noteq> q \<longrightarrow> unref t r"
proof -
  note result = that
  have p: "p < 0x100000" "p \<noteq> 0" "q < 0x100000" "q \<noteq> 0"
    using i live_less [OF i(3)] by (auto simp: unref_def live_def)
  have f: "frame (p * 4096 + 7) = p" "p * 4096 + 7 \<noteq> 0" "frame (q * 4096 + 7) = q" "q * 4096 + 7 \<noteq> 0"
    using frame_ptu [OF p(1) _ p(2), of 7] frame_ptu [OF p(3) _ p(4), of 7] by (simp_all add: PAGESIZE_def)
  let ?s1 = "s\<lparr>PDirPool := (PDirPool s)(i := (PDirPool s i)(256 := p * 4096 + 7))\<rparr>"
  obtain M where M: "\<forall>e < 1024. load32 M (pte_addr (p * 4096 + 7) e) = 0"
    "\<forall>a. aligned4 a \<longrightarrow> frame a \<noteq> frame (p * 4096 + 7) \<longrightarrow> load32 M a = load32 (mem s) a"
    using zero_ptbl [of i 256 ?s1] i(1) by auto
  let ?t1 = "install s i 256 (p * 4096 + 7) M"
  have pre: "user_slot (Tbl i 256)" "PDirPool s i 256 = 0" "p * 4096 + 7 \<noteq> 0"
    "unref s (frame (p * 4096 + 7))" using i f by auto
  have e1: "entry ?t1 y = (if y = Tbl i 256 then p * 4096 + 7 else entry s y)" if "user_slot y" for y
    using entry_install [OF i(3) pre _ _ that, of M] M by blast
  have v1: "vm_inv ?t1" using vm_inv_install [OF i(3) pre, of M] M by blast
  have keep: "unref ?t1 r" if "unref s r" "r \<noteq> p" for r
    using that e1 f(1) by (auto simp: unref_def live_def install_def page_norm_def simp del: entry.simps)
  have slot: "user_slot (Pg i 256 0)" "PDirPool ?t1 i 256 \<noteq> 0"
    using i(1) f(2) by (simp_all add: install_def)
  let ?t = "?t1\<lparr>mem := store32 (mem ?t1) (pte_addr (PDirPool ?t1 i 256) 0) (q * 4096 + 7)\<rparr>"
  have v2: "vm_inv ?t" using vm_inv_store [OF v1 slot, of "q * 4096 + 7"] keep [OF i(5)] i(6) f by simp
  have e2: "entry ?t y = (if y = Pg i 256 0 then q * 4096 + 7 else entry ?t1 y)" if "user_slot y" for y
    using entry_store [OF v1 slot that] .
  have "unref ?t r" if "unref s r" "r \<noteq> p" "r \<noteq> q" for r
    using keep [OF that(1,2)] that e2 f(3)
    by (auto simp: unref_def live_def page_norm_def simp del: entry.simps)
  moreover have "in_use ?t c = in_use s c" for c by (simp add: in_use_def install_def)
  moreover have "entry ?t y = (if y = Tbl i 256 then p * 4096 + 7
         else if y = Pg i 256 0 then q * 4096 + 7 else entry s y)" if "user_slot y" for y
    using e1 [OF that] e2 [OF that] by (auto simp del: entry.simps)
  ultimately show thesis using result [OF v2] by blast
qed

lemma two_procs:
  obtains s :: pt_state where "vm_inv s" "in_use s 1" "in_use s 2"
    "get_ptbl_entry_by_va 1 VM_USERLO s = Inr (0x40003007, s)"
    "get_ptbl_entry_by_va 2 VM_USERLO s = Inr (0x40004007, s)"
proof -
  obtain u where u: "pmmap_init e820_2GB boot_pt = Inr ((), u)" "boot_ready u"
    using boot_2GB_ready [of boot_pt] by (auto simp: pt_state.defs)
  obtain v :: pt_state where v: "vm_inv v" "\<forall>x. user_slot x \<longrightarrow> entry v x = 0"
    using pdir_init_kern_ok [of "\<lambda>_. pmmap_init e820_2GB" 0, OF u] by blast
  define s0 where "s0 = v\<lparr>CONTAINER := tree3, AT := taken4, NUM_PAGES := 0x40010, last_palloc_index := 0x40004\<rparr>"
  have c0: "cont_inv s0" "in_use s0 1" "in_use s0 2"
    using tree3_inv [OF vm_inv_cont [OF v(1)], of s0] by (simp_all add: s0_def)
  have e0: "entry s0 x = entry v x" for x by (rule entry_cong) (simp_all add: s0_def)
  have "pt_inv s0" using c0 v e0 vm_inv_lock [OF v(1)] by (simp add: pt_inv_def, simp add: s0_def)
  moreover have "kmap_inv s0"
    using v(1) by (auto simp: vm_inv_def kmap_inv_def s0_def page_norm_def taken4_def VM_USERLO_PI_def
        VM_USERHI_PI_def word_le_nat_alt word_less_nat_alt split: if_splits)
  ultimately have i0: "vm_inv s0" by (simp add: vm_inv_def)
  have un0: "unref s0 p" if "p \<in> {0x40001, 0x40002, 0x40003, 0x40004}" for p
    using that v(2) e0 by (auto simp: unref_def live_def page_norm_def s0_def taken4_def)
  have lo: "pdx VM_USERLO = 256" "ptx VM_USERLO = 0" by (simp_all add: pdx_def ptx_def VM_USERLO_def)
  have z: "entry s0 x = 0" if "user_slot x" for x using v(2) e0 that by simp
  have sl: "user_slot (Tbl 1 256)" "user_slot (Tbl 2 256)" "user_slot (Pg 1 256 0)" "user_slot (Pg 2 256 0)"
    by (simp_all add: user_pde_def NUM_IDS_def)
  have un1: "unref s0 0x40001" "unref s0 0x40003" "(0x40001 :: u32) \<noteq> 0x40003"
    "(0x40002 :: u32) \<noteq> 0x40004" using un0 by simp_all
  obtain s1 :: pt_state where s1: "vm_inv s1" "\<forall>c. in_use s1 c = in_use s0 c"
    "\<forall>y. user_slot y \<longrightarrow> entry s1 y = (if y = Tbl 1 256 then 0x40001 * 4096 + 7
         else if y = Pg 1 256 0 then 0x40003 * 4096 + 7 else entry s0 y)"
    "\<forall>r. unref s0 r \<longrightarrow> r \<noteq> 0x40001 \<longrightarrow> r \<noteq> 0x40003 \<longrightarrow> unref s1 r"
    by (rule put_page [OF sl(1) z [OF sl(1)] i0 un1(1-3)]) (rule that; assumption)
  have un2: "unref s1 0x40002" "unref s1 0x40004" using s1(4) un0 by simp_all
  have z2: "entry s1 (Tbl 2 256) = 0" using s1(3) sl(2) z [OF sl(2)] by (simp del: entry.simps user_slot.simps)
  obtain s2 :: pt_state where s2: "vm_inv s2"
    "\<forall>c. in_use s2 c = in_use s1 c"
    "\<forall>y. user_slot y \<longrightarrow> entry s2 y = (if y = Tbl 2 256 then 0x40002 * 4096 + 7
         else if y = Pg 2 256 0 then 0x40004 * 4096 + 7 else entry s1 y)"
    by (rule put_page [OF sl(2) z2 s1(1) un2 un1(4)]) (rule that; assumption)
  have "entry s2 (Pg 1 256 0) = 0x40003007" "entry s2 (Pg 2 256 0) = 0x40004007"
    using s2(3) s1(3) sl by (simp_all del: entry.simps user_slot.simps)
  then show thesis
    using that [of s2] s2(1,2) s1(2) c0(2,3) lo by (simp add: NUM_IDS_def del: entry.simps)
qed


theorem vm_kernel_identity_witness:
  "\<exists>s :: pt_state. vm_inv s \<and> vm_step\<^sup>*\<^sup>* s s \<and>
     get_ptbl_entry_by_va 1 0x1234 s = Inr ((0x1234 AND 0xfffff000) + idptbl_perm (pdx 0x1234), s)"
proof -
  obtain s :: pt_state where s: "vm_inv s" using two_procs by metis
  have "get_ptbl_entry_by_va 1 0x1234 s = Inr ((0x1234 AND 0xfffff000) + idptbl_perm (pdx 0x1234), s)"
    using vm_kernel_identity [OF s rtranclp.rtrancl_refl, of 1 "0x1234"]
    by (simp add: NUM_IDS_def user_va_def VM_USERLO_def)
  then show ?thesis using s by blast
qed


end
