(* ===== verification/DList.thy ===== *)
theory DList
  imports KPrelude
begin

text \<open>
  Doubly linked lists held in two link maps. \<open>dls nx pv p xs n\<close> says that \<open>xs\<close> is
  chained forwards by \<open>nx\<close> and backwards by \<open>pv\<close>, that the predecessor of its first
  node is \<open>p\<close> and the successor of its last node is \<open>n\<close>. The index queues of the
  kernel (thread queues, message queue) end in a null index, \<open>dlq\<close>; the lists with
  a sentinel (buffer cache, free lists) are circular, \<open>dlc\<close>.
\<close>

primrec dls :: "('n \<Rightarrow> 'n) \<Rightarrow> ('n \<Rightarrow> 'n) \<Rightarrow> 'n \<Rightarrow> 'n list \<Rightarrow> 'n \<Rightarrow> bool" where
  "dls nx pv p [] n = True"
| "dls nx pv p (x # xs) n =
     (pv x = p \<and> nx x = (case xs of [] \<Rightarrow> n | y # _ \<Rightarrow> y) \<and> dls nx pv x xs n)"

definition fst_or :: "'n \<Rightarrow> 'n list \<Rightarrow> 'n" where
  "fst_or n xs = (case xs of [] \<Rightarrow> n | x # _ \<Rightarrow> x)"

definition lst_or :: "'n \<Rightarrow> 'n list \<Rightarrow> 'n" where
  "lst_or n xs = (if xs = [] then n else last xs)"

lemma fst_or_simps [simp]:
  "fst_or n [] = n" "fst_or n (x # xs) = x"
  by (simp_all add: fst_or_def)

lemma lst_or_simps [simp]:
  "lst_or n [] = n" "lst_or n (xs @ [x]) = x"
  by (simp_all add: lst_or_def)

lemma lst_or_Cons: "lst_or n (x # xs) = lst_or x xs"
  by (simp add: lst_or_def)

lemma fst_or_append: "fst_or n (xs @ ys) = fst_or (fst_or n ys) xs"
  by (cases xs) auto

lemma fst_or_in: "xs \<noteq> [] \<Longrightarrow> fst_or n xs \<in> set xs"
  by (cases xs) auto

lemma lst_or_in: "xs \<noteq> [] \<Longrightarrow> lst_or n xs \<in> set xs"
  by (auto simp: lst_or_def)

lemma fst_or_null: "n \<notin> set xs \<Longrightarrow> fst_or n xs = n \<longleftrightarrow> xs = []"
  by (cases xs) auto

lemma lst_or_null: "n \<notin> set xs \<Longrightarrow> lst_or n xs = n \<longleftrightarrow> xs = []"
  by (auto simp: lst_or_def)

lemma dls_Cons: "dls nx pv p (x # xs) n \<longleftrightarrow> pv x = p \<and> nx x = fst_or n xs \<and> dls nx pv x xs n"
  by (simp add: fst_or_def)

declare dls.simps(2) [simp del]
declare dls_Cons [simp]

lemma dls_append:
  "dls nx pv p (xs @ ys) n \<longleftrightarrow>
     dls nx pv p xs (fst_or n ys) \<and> dls nx pv (lst_or p xs) ys n"
  by (induction xs arbitrary: p) (auto simp: fst_or_append lst_or_Cons)

text \<open>Links of nodes outside the list do not matter.\<close>

lemma dls_nx_other [simp]: "a \<notin> set xs \<Longrightarrow> dls (nx(a := v)) pv p xs n = dls nx pv p xs n"
  by (induction xs arbitrary: p) auto

lemma dls_pv_other [simp]: "a \<notin> set xs \<Longrightarrow> dls nx (pv(a := v)) p xs n = dls nx pv p xs n"
  by (induction xs arbitrary: p) auto

lemma dls_cong:
  "(\<And>x. x \<in> set xs \<Longrightarrow> nx x = nx' x \<and> pv x = pv' x) \<Longrightarrow> dls nx pv p xs n = dls nx' pv' p xs n"
  by (induction xs arbitrary: p) auto

text \<open>Relinking the two ends of a list.\<close>

lemma dls_set_first:
  "dls nx pv p (x # xs) n \<Longrightarrow> x \<notin> set xs \<Longrightarrow> dls nx (pv(x := q)) q (x # xs) n"
  by simp

lemma dls_set_last:
  assumes "dls nx pv p (xs @ [x]) n" "x \<notin> set xs"
  shows "dls (nx(x := m)) pv p (xs @ [x]) m"
  using assms by (auto simp: dls_append)

text \<open>A list determined by its links: two chains from the same first node agree.\<close>

lemma dls_unique:
  assumes "dls nx pv p xs n" "dls nx pv q ys n" "n \<notin> set xs" "n \<notin> set ys"
    and "fst_or n xs = fst_or n ys"
  shows "xs = ys"
  using assms
proof (induction xs arbitrary: p q ys)
  case Nil
  then show ?case by (cases ys) auto
next
  case (Cons x xs)
  then obtain zs where "ys = x # zs" by (cases ys) auto
  with Cons show ?case by auto
qed

section \<open>Null-terminated index queues\<close>

definition dlq :: "'n \<Rightarrow> ('n \<Rightarrow> 'n) \<Rightarrow> ('n \<Rightarrow> 'n) \<Rightarrow> 'n \<Rightarrow> 'n \<Rightarrow> 'n list \<Rightarrow> bool" where
  "dlq N nx pv h t xs \<longleftrightarrow>
     dls nx pv N xs N \<and> distinct xs \<and> N \<notin> set xs \<and> h = fst_or N xs \<and> t = lst_or N xs"

lemma dlq_unique: "dlq N nx pv h t xs \<Longrightarrow> dlq N nx pv h t' ys \<Longrightarrow> xs = ys"
  unfolding dlq_def by (metis dls_unique)

lemma dlq_empty [simp]: "dlq N nx pv N N []"
  by (simp add: dlq_def)

lemma dlq_head_null: "dlq N nx pv h t xs \<Longrightarrow> h = N \<longleftrightarrow> xs = []"
  by (auto simp: dlq_def fst_or_null)

lemma dlq_tail_null: "dlq N nx pv h t xs \<Longrightarrow> t = N \<longleftrightarrow> xs = []"
  by (auto simp: dlq_def lst_or_null)

lemma dlq_cong:
  "(\<And>x. x \<in> set xs \<Longrightarrow> nx x = nx' x \<and> pv x = pv' x) \<Longrightarrow> dlq N nx pv h t xs = dlq N nx' pv' h t xs"
  unfolding dlq_def using dls_cong [of xs nx nx' pv pv'] by blast

lemma dlq_enqueue_empty:
  assumes "dlq N nx pv h t []" "x \<noteq> N"
  shows "dlq N (nx(x := N)) (pv(x := N)) x x [x]"
  using assms by (simp add: dlq_def lst_or_def)

lemma dlq_enqueue:
  assumes "dlq N nx pv h t xs" "xs \<noteq> []" "x \<notin> set xs" "x \<noteq> N"
  shows "dlq N (nx(t := x, x := N)) (pv(x := t)) h x (xs @ [x])"
proof -
  obtain ys y where xs: "xs = ys @ [y]" using assms(2) by (cases xs rule: rev_cases) auto
  with assms show ?thesis by (auto simp: dlq_def dls_append fst_or_append lst_or_def)
qed

lemma dlq_dequeue_single:
  assumes "dlq N nx pv h t xs" "xs \<noteq> []" "nx h = N"
  shows "xs = [h]"
proof -
  obtain ys where xs: "xs = h # ys" using assms by (cases xs) (auto simp: dlq_def)
  moreover have "ys = []" using assms xs by (cases ys) (auto simp: dlq_def)
  ultimately show ?thesis by simp
qed

lemma dlq_dequeue:
  assumes "dlq N nx pv h t xs" "xs \<noteq> []" "nx h \<noteq> N"
  shows "\<exists>ys. xs = h # nx h # ys \<and>
     dlq N (nx(h := N)) (pv(nx h := N, h := N)) (nx h) t (nx h # ys)"
proof -
  obtain zs where xs: "xs = h # zs" using assms by (cases xs) (auto simp: dlq_def)
  moreover obtain ys where zs: "zs = nx h # ys" using assms xs by (cases zs) (auto simp: dlq_def)
  ultimately show ?thesis using assms by (auto simp: dlq_def lst_or_Cons)
qed

text \<open>The position of a node of the queue, read off its links.\<close>

lemma dlq_split:
  assumes "dlq N nx pv h t xs" "x \<in> set xs"
  obtains ys zs where "xs = ys @ x # zs" "pv x = lst_or N ys" "nx x = fst_or N zs"
    "x \<notin> set ys" "x \<notin> set zs"
proof -
  obtain ys zs where xs: "xs = ys @ x # zs" using assms(2) by (auto simp: in_set_conv_decomp)
  show thesis
    by (rule that [OF xs]) (use assms(1) xs in \<open>auto simp: dlq_def dls_append\<close>)
qed

lemma dlq_remove:
  assumes q: "dlq N nx pv h t xs" and x: "x \<in> set xs"
    and nx': "nx' = (if pv x = N then nx else nx(pv x := nx x))(x := N)"
    and pv': "pv' = (if nx x = N then pv else pv(nx x := pv x))(x := N)"
    and h': "h' = (if pv x = N then nx x else h)"
    and t': "t' = (if nx x = N then pv x else t)"
  shows "dlq N nx' pv' h' t' (remove1 x xs)"
proof -
  obtain ys zs where s: "xs = ys @ x # zs" "pv x = lst_or N ys" "nx x = fst_or N zs"
    "x \<notin> set ys" "x \<notin> set zs" using dlq_split [OF q x] .
  have r: "remove1 x xs = ys @ zs" using s by (simp add: remove1_append)
  have N: "N \<notin> set ys" "N \<notin> set zs" using q s(1) by (auto simp: dlq_def)
  consider "ys = []" "zs = []" | (first) z zs' where "ys = []" "zs = z # zs'"
    | (last) ys' y where "ys = ys' @ [y]" "zs = []"
    | (mid) ys' y z zs' where "ys = ys' @ [y]" "zs = z # zs'"
    by (cases ys rule: rev_cases; cases zs) auto
  then show ?thesis
  proof cases
    case 1
    with q s r N nx' pv' h' t' show ?thesis by (simp add: dlq_def)
  next
    case first
    with q s r N nx' pv' h' t' show ?thesis by (auto simp: dlq_def lst_or_Cons)
  next
    case last
    with q s r N nx' pv' h' t' show ?thesis
      by (auto simp: dlq_def dls_append fst_or_append lst_or_def)
  next
    case mid
    with q s r N nx' pv' h' t' show ?thesis
      by (auto simp: dlq_def dls_append fst_or_append lst_or_def)
  qed
qed

section \<open>Circular lists with a sentinel\<close>

definition dlc :: "'n \<Rightarrow> ('n \<Rightarrow> 'n) \<Rightarrow> ('n \<Rightarrow> 'n) \<Rightarrow> 'n list \<Rightarrow> bool" where
  "dlc h nx pv xs \<longleftrightarrow>
     dls nx pv h xs h \<and> distinct xs \<and> h \<notin> set xs \<and> nx h = fst_or h xs \<and> pv h = lst_or h xs"

lemma dlc_insert:
  assumes "dlc h nx pv xs" "x \<notin> set xs" "x \<noteq> h"
    and "nx' = nx(x := nx h, h := x)" "pv' = (pv(x := h))(nx h := x)"
  shows "dlc h nx' pv' (x # xs)"
proof (cases xs)
  case Nil
  with assms show ?thesis by (auto simp: dlc_def lst_or_def)
next
  case (Cons y ys)
  with assms show ?thesis by (auto simp: dlc_def lst_or_Cons lst_or_def)
qed

lemma dlc_remove:
  assumes "dlc h nx pv (ys @ x # zs)"
  shows "dlc h (nx(pv x := nx x)) (pv(nx x := pv x)) (ys @ zs)"
proof -
  have x: "pv x = lst_or h ys" "nx x = fst_or h zs" and d: "dls nx pv h ys x" "dls nx pv x zs h"
    using assms by (auto simp: dlc_def dls_append)
  have e: "nx h = fst_or (fst_or h (x # zs)) ys" "pv h = lst_or h (ys @ x # zs)" "h \<notin> set ys" "h \<notin> set zs" "x \<noteq> h"
    "distinct ys" "distinct zs" "set ys \<inter> set zs = {}" "x \<notin> set ys" "x \<notin> set zs"
    using assms by (auto simp: dlc_def fst_or_append)
  consider "ys = []" "zs = []" | (first) z zs' where "ys = []" "zs = z # zs'"
    | (last) ys' y where "ys = ys' @ [y]" "zs = []"
    | (mid) ys' y z zs' where "ys = ys' @ [y]" "zs = z # zs'"
    by (cases ys rule: rev_cases; cases zs) auto
  then show ?thesis
  proof cases
    case 1
    with x e show ?thesis by (simp add: dlc_def)
  next
    case first
    with x d e show ?thesis by (auto simp: dlc_def lst_or_def)
  next
    case last
    with x d e show ?thesis by (auto simp: dlc_def dls_append fst_or_append lst_or_def)
  next
    case mid
    with x d e show ?thesis by (auto simp: dlc_def dls_append fst_or_append lst_or_def)
  qed
qed

lemma dlc_cong:
  "(\<And>x. x \<in> set xs \<or> x = h \<Longrightarrow> nx x = nx' x \<and> pv x = pv' x) \<Longrightarrow> dlc h nx pv xs = dlc h nx' pv' xs"
  unfolding dlc_def using dls_cong [of xs nx nx' pv pv'] by auto

end
