(* ===== verification/Thread.thy ===== *)
theory Thread
  imports VMInit DList
begin

text \<open>
  Threads: \<^verbatim>\<open>kern/thread\<close> (PTCBIntro, PTCBInit, PTQueueIntro, PTQueueInit, PCurID, PKCtxIntro,
  PKCtxNew and PThread). The state adds the thread control blocks \<open>TCBPool\<close>, the thread queues
  \<open>TQueuePool\<close> of every processor, the running threads \<open>CURID\<close>, the saved kernel contexts
  \<open>kctx_pool\<close> with the registers of the running processor, the scheduler lock and the tick
  counters. A routine that switches contexts is modelled up to the switch, and
  \<^verbatim>\<open>thread_sleep\<close> has a second part for what it does when its thread runs again.
  Main results: the queues are lists linked through the control blocks, and the queue
  operations are those of lists.
\<close>

record TCB =
  t_state :: u32
  t_prev :: u32
  t_next :: u32
  t_channel :: u32
  t_openfiles :: "u32 \<Rightarrow> u32"
  t_cwd :: u32

record TQueue =
  q_head :: u32
  q_tail :: u32

record kctx =
  kx_esp :: u32
  kx_edi :: u32
  kx_esi :: u32
  kx_ebx :: u32
  kx_ebp :: u32
  kx_eip :: u32

record thr_state = pt_state +
  TCBPool :: "u32 \<Rightarrow> TCB"
  TQueuePool :: "u32 \<Rightarrow> u32 \<Rightarrow> TQueue"
  CURID :: "u32 \<Rightarrow> u32"
  kctx_pool :: "u32 \<Rightarrow> kctx"
  cpu_regs :: kctx
  sched_lk :: spinlock
  sched_ticks :: "u32 \<Rightarrow> u32"
  proc_kstack_addr :: u32

definition TSTATE_READY :: u32 where "TSTATE_READY = 0"
definition TSTATE_RUN :: u32 where "TSTATE_RUN = 1"
definition TSTATE_SLEEP :: u32 where "TSTATE_SLEEP = 2"
definition TSTATE_DEAD :: u32 where "TSTATE_DEAD = 3"
definition SCHED_SLICE :: u32 where "SCHED_SLICE = 5"
definition LAPIC_TIMER_INTR_FREQ :: u32 where "LAPIC_TIMER_INTR_FREQ = 1000"
definition NOFILE :: u32 where "NOFILE = 16"
definition KSTACK_SIZE :: u32 where "KSTACK_SIZE = 4096"

section \<open>PTCBIntro\<close>

definition tcb_get :: "(TCB \<Rightarrow> 'a) \<Rightarrow> u32 \<Rightarrow> ('z thr_state_scheme, 'a) kern" where
  "tcb_get f pid = kseq (kindex NUM_IDS pid) (kgets (\<lambda>s. f (TCBPool s pid)))"

definition tcb_put :: "(TCB \<Rightarrow> TCB) \<Rightarrow> u32 \<Rightarrow> ('z thr_state_scheme, unit) kern" where
  "tcb_put f pid =
     kseq (kindex NUM_IDS pid) (kmodify (\<lambda>s. s\<lparr>TCBPool := (TCBPool s)(pid := f (TCBPool s pid))\<rparr>))"

definition tcb_get_state :: "u32 \<Rightarrow> ('z thr_state_scheme, u32) kern" where
  "tcb_get_state pid = tcb_get t_state pid"

definition tcb_set_state :: "u32 \<Rightarrow> u32 \<Rightarrow> ('z thr_state_scheme, unit) kern" where
  "tcb_set_state pid st = tcb_put (\<lambda>t. t\<lparr>t_state := st\<rparr>) pid"

definition tcb_get_prev :: "u32 \<Rightarrow> ('z thr_state_scheme, u32) kern" where
  "tcb_get_prev pid = tcb_get t_prev pid"

definition tcb_set_prev :: "u32 \<Rightarrow> u32 \<Rightarrow> ('z thr_state_scheme, unit) kern" where
  "tcb_set_prev pid prev_pid = tcb_put (\<lambda>t. t\<lparr>t_prev := prev_pid\<rparr>) pid"

definition tcb_get_next :: "u32 \<Rightarrow> ('z thr_state_scheme, u32) kern" where
  "tcb_get_next pid = tcb_get t_next pid"

definition tcb_set_next :: "u32 \<Rightarrow> u32 \<Rightarrow> ('z thr_state_scheme, unit) kern" where
  "tcb_set_next pid next_pid = tcb_put (\<lambda>t. t\<lparr>t_next := next_pid\<rparr>) pid"

definition tcb_get_chan :: "u32 \<Rightarrow> ('z thr_state_scheme, u32) kern" where
  "tcb_get_chan pid = tcb_get t_channel pid"

definition tcb_set_chan :: "u32 \<Rightarrow> u32 \<Rightarrow> ('z thr_state_scheme, unit) kern" where
  "tcb_set_chan pid chan = tcb_put (\<lambda>t. t\<lparr>t_channel := chan\<rparr>) pid"

definition tcb_get_openfiles :: "u32 \<Rightarrow> ('z thr_state_scheme, u32 \<Rightarrow> u32) kern" where
  "tcb_get_openfiles pid = tcb_get t_openfiles pid"

definition tcb_set_openfiles :: "u32 \<Rightarrow> u32 \<Rightarrow> u32 \<Rightarrow> ('z thr_state_scheme, unit) kern" where
  "tcb_set_openfiles pid fd f =
     kseq (kindex NOFILE fd) (tcb_put (\<lambda>t. t\<lparr>t_openfiles := (t_openfiles t)(fd := f)\<rparr>) pid)"

definition tcb_get_cwd :: "u32 \<Rightarrow> ('z thr_state_scheme, u32) kern" where
  "tcb_get_cwd pid = tcb_get t_cwd pid"

definition tcb_set_cwd :: "u32 \<Rightarrow> u32 \<Rightarrow> ('z thr_state_scheme, unit) kern" where
  "tcb_set_cwd pid d = tcb_put (\<lambda>t. t\<lparr>t_cwd := d\<rparr>) pid"

text \<open>
  \<^verbatim>\<open>memzero(openfiles, sizeof *openfiles)\<close> clears the first slot only. The argument
  \<open>namei\<close> is the lookup of a path in the file system.
\<close>

definition tcb_init_at_id ::
    "(string \<Rightarrow> ('z thr_state_scheme, u32) kern) \<Rightarrow> u32 \<Rightarrow> ('z thr_state_scheme, unit) kern" where
  "tcb_init_at_id namei pid =
     kseq (tcb_set_state pid TSTATE_DEAD)
    (kseq (tcb_set_prev pid NUM_IDS)
    (kseq (tcb_set_next pid NUM_IDS)
    (kseq (tcb_set_chan pid 0)
    (kseq (tcb_put (\<lambda>t. t\<lparr>t_openfiles := (t_openfiles t)(0 := 0)\<rparr>) pid)
    (kbind (namei ''/'') (\<lambda>d. tcb_set_cwd pid d))))))"

section \<open>PTCBInit\<close>

definition tcb_init ::
    "(u32 \<Rightarrow> ('z thr_state_scheme, unit) kern) \<Rightarrow> u32 \<Rightarrow> (string \<Rightarrow> ('z thr_state_scheme, u32) kern) \<Rightarrow>
     u32 \<Rightarrow> ('z thr_state_scheme, unit) kern" where
  "tcb_init devinit edx namei mbi_addr =
     kseq (paging_init devinit edx mbi_addr) (kfor 0 NUM_IDS (tcb_init_at_id namei))"

section \<open>PTQueueIntro\<close>

definition tq_index :: "u32 \<Rightarrow> u32 \<Rightarrow> ('z thr_state_scheme, unit) kern" where
  "tq_index cpu chid = kseq (kindex NUM_CPUS cpu) (kindex (NUM_IDS + 1) chid)"

definition tq_get :: "(TQueue \<Rightarrow> u32) \<Rightarrow> u32 \<Rightarrow> ('z thr_state_scheme, u32) kern" where
  "tq_get f chid =
     kbind get_pcpu_idx (\<lambda>cpu. kseq (tq_index cpu chid) (kgets (\<lambda>s. f (TQueuePool s cpu chid))))"

definition tq_put :: "(TQueue \<Rightarrow> TQueue) \<Rightarrow> u32 \<Rightarrow> u32 \<Rightarrow> ('z thr_state_scheme, unit) kern" where
  "tq_put f cpu chid =
     kseq (tq_index cpu chid)
       (kmodify (\<lambda>s. s\<lparr>TQueuePool := (TQueuePool s)(cpu := (TQueuePool s cpu)(chid := f (TQueuePool s cpu chid)))\<rparr>))"

definition tqueue_get_head :: "u32 \<Rightarrow> ('z thr_state_scheme, u32) kern" where
  "tqueue_get_head chid = tq_get q_head chid"

definition tqueue_set_head :: "u32 \<Rightarrow> u32 \<Rightarrow> ('z thr_state_scheme, unit) kern" where
  "tqueue_set_head chid head = kbind get_pcpu_idx (\<lambda>cpu. tq_put (\<lambda>q. q\<lparr>q_head := head\<rparr>) cpu chid)"

definition tqueue_get_tail :: "u32 \<Rightarrow> ('z thr_state_scheme, u32) kern" where
  "tqueue_get_tail chid = tq_get q_tail chid"

definition tqueue_set_tail :: "u32 \<Rightarrow> u32 \<Rightarrow> ('z thr_state_scheme, unit) kern" where
  "tqueue_set_tail chid tail = kbind get_pcpu_idx (\<lambda>cpu. tq_put (\<lambda>q. q\<lparr>q_tail := tail\<rparr>) cpu chid)"

definition tqueue_init_at_id :: "u32 \<Rightarrow> u32 \<Rightarrow> ('z thr_state_scheme, unit) kern" where
  "tqueue_init_at_id cpu chid =
     kseq (tq_put (\<lambda>q. q\<lparr>q_head := NUM_IDS\<rparr>) cpu chid) (tq_put (\<lambda>q. q\<lparr>q_tail := NUM_IDS\<rparr>) cpu chid)"

section \<open>PTQueueInit\<close>

definition tqueue_init ::
    "(u32 \<Rightarrow> ('z thr_state_scheme, unit) kern) \<Rightarrow> u32 \<Rightarrow> (string \<Rightarrow> ('z thr_state_scheme, u32) kern) \<Rightarrow>
     u32 \<Rightarrow> ('z thr_state_scheme, unit) kern" where
  "tqueue_init devinit edx namei mbi_addr =
     kseq (tcb_init devinit edx namei mbi_addr)
       (kfor 0 NUM_CPUS (\<lambda>cpu. kfor 0 (NUM_IDS + 1) (\<lambda>chid. tqueue_init_at_id cpu chid)))"

definition tqueue_enqueue :: "u32 \<Rightarrow> u32 \<Rightarrow> ('z thr_state_scheme, unit) kern" where
  "tqueue_enqueue chid pid =
     kbind (tqueue_get_tail chid) (\<lambda>tail.
       if tail = NUM_IDS then
         kseq (tcb_set_prev pid NUM_IDS)
        (kseq (tcb_set_next pid NUM_IDS)
        (kseq (tqueue_set_head chid pid) (tqueue_set_tail chid pid)))
       else
         kseq (tcb_set_next tail pid)
        (kseq (tcb_set_prev pid tail)
        (kseq (tcb_set_next pid NUM_IDS) (tqueue_set_tail chid pid))))"

definition tqueue_dequeue :: "u32 \<Rightarrow> ('z thr_state_scheme, u32) kern" where
  "tqueue_dequeue chid =
     kbind (tqueue_get_head chid) (\<lambda>head.
       if head \<noteq> NUM_IDS then
         kbind (tcb_get_next head) (\<lambda>next.
         kseq (if next = NUM_IDS
               then kseq (tqueue_set_head chid NUM_IDS) (tqueue_set_tail chid NUM_IDS)
               else kseq (tcb_set_prev next NUM_IDS) (tqueue_set_head chid next))
        (kseq (tcb_set_prev head NUM_IDS)
        (kseq (tcb_set_next head NUM_IDS) (kret head))))
       else kret NUM_IDS)"

definition tqueue_remove :: "u32 \<Rightarrow> u32 \<Rightarrow> ('z thr_state_scheme, unit) kern" where
  "tqueue_remove chid pid =
     kbind (tcb_get_prev pid) (\<lambda>prev. kbind (tcb_get_next pid) (\<lambda>next.
     kseq (if prev = NUM_IDS then
             if next = NUM_IDS
             then kseq (tqueue_set_head chid NUM_IDS) (tqueue_set_tail chid NUM_IDS)
             else kseq (tcb_set_prev next NUM_IDS) (tqueue_set_head chid next)
           else
             if next = NUM_IDS
             then kseq (tcb_set_next prev NUM_IDS) (tqueue_set_tail chid prev)
             else kseq (if prev \<noteq> next then tcb_set_next prev next else kret ()) (tcb_set_prev next prev))
    (kseq (tcb_set_prev pid NUM_IDS) (tcb_set_next pid NUM_IDS))))"

section \<open>PCurID, PKCtxIntro and PKCtxNew\<close>

definition get_curid :: "('z thr_state_scheme, u32) kern" where
  "get_curid = kbind get_pcpu_idx (\<lambda>c. kseq (kindex NUM_CPUS c) (kgets (\<lambda>s. CURID s c)))"

definition set_curid :: "u32 \<Rightarrow> ('z thr_state_scheme, unit) kern" where
  "set_curid curid =
     kbind get_pcpu_idx (\<lambda>c. kseq (kindex NUM_CPUS c) (kmodify (\<lambda>s. s\<lparr>CURID := (CURID s)(c := curid)\<rparr>)))"

definition kctx_set_esp :: "u32 \<Rightarrow> u32 \<Rightarrow> ('z thr_state_scheme, unit) kern" where
  "kctx_set_esp pid esp =
     kseq (kindex NUM_IDS pid)
       (kmodify (\<lambda>s. s\<lparr>kctx_pool := (kctx_pool s)(pid := kctx_pool s pid\<lparr>kx_esp := esp\<rparr>)\<rparr>))"

definition kctx_set_eip :: "u32 \<Rightarrow> u32 \<Rightarrow> ('z thr_state_scheme, unit) kern" where
  "kctx_set_eip pid eip =
     kseq (kindex NUM_IDS pid)
       (kmodify (\<lambda>s. s\<lparr>kctx_pool := (kctx_pool s)(pid := kctx_pool s pid\<lparr>kx_eip := eip\<rparr>)\<rparr>))"

text \<open>
  \<^verbatim>\<open>cswitch.S\<close>, from its entry to the instruction \<^verbatim>\<open>ret\<close>: the return address is taken from the
  top of the old stack and the saved one is put on top of the new stack, from where \<^verbatim>\<open>ret\<close>
  loads it. The fields of the kernel stack that name the processor are those of the
  processor that runs, before and after the switch.
\<close>

definition cswitch :: "u32 \<Rightarrow> u32 \<Rightarrow> ('z thr_state_scheme, unit) kern" where
  "cswitch from to = kmodify (\<lambda>s.
     let r = cpu_regs s;
         pool = (kctx_pool s)(from := r\<lparr>kx_eip := load32 (mem s) (kx_esp r)\<rparr>);
         n = pool to in
     s\<lparr>kctx_pool := pool, cpu_regs := n, mem := store32 (mem s) (kx_esp n) (kx_eip n)\<rparr>)"

definition kctx_switch :: "u32 \<Rightarrow> u32 \<Rightarrow> ('z thr_state_scheme, unit) kern" where
  "kctx_switch from_pid to_pid =
     kseq (kindex NUM_IDS from_pid) (kseq (kindex NUM_IDS to_pid) (cswitch from_pid to_pid))"

text \<open>\<^verbatim>\<open>kstack_hi\<close> is an empty array aligned to the stack size at the end of the structure.\<close>

definition kctx_new :: "u32 \<Rightarrow> u32 \<Rightarrow> u32 \<Rightarrow> ('z thr_state_scheme, u32) kern" where
  "kctx_new start i q =
     kbind (alloc_mem_quota i q) (\<lambda>pid.
     kbind (kgets proc_kstack_addr) (\<lambda>base.
     kseq (kctx_set_esp pid (base + pid * KSTACK_SIZE + KSTACK_SIZE))
    (kseq (kctx_set_eip pid start) (kret pid))))"

section \<open>PThread\<close>

definition sched_acquire :: "('z thr_state_scheme, unit) kern" where
  "sched_acquire = klock_op spinlock_acquire sched_lk (\<lambda>l s. s\<lparr>sched_lk := l\<rparr>)"

definition sched_release :: "('z thr_state_scheme, unit) kern" where
  "sched_release = klock_op spinlock_release sched_lk (\<lambda>l s. s\<lparr>sched_lk := l\<rparr>)"

definition thread_init ::
    "(u32 \<Rightarrow> ('z thr_state_scheme, unit) kern) \<Rightarrow> u32 \<Rightarrow> (string \<Rightarrow> ('z thr_state_scheme, u32) kern) \<Rightarrow>
     u32 \<Rightarrow> ('z thr_state_scheme, unit) kern" where
  "thread_init devinit edx namei mbi_addr =
     kseq (kfor 0 NUM_CPUS (\<lambda>i. kmodify (\<lambda>s. s\<lparr>sched_ticks := (sched_ticks s)(i := 0)\<rparr>)))
    (kseq (kmodify (\<lambda>s. s\<lparr>sched_lk := spinlock_init (sched_lk s)\<rparr>))
    (kseq (tqueue_init devinit edx namei mbi_addr)
    (kseq (set_curid 0) (tcb_set_state 0 TSTATE_RUN))))"

definition thread_spawn :: "u32 \<Rightarrow> u32 \<Rightarrow> u32 \<Rightarrow> ('z thr_state_scheme, u32) kern" where
  "thread_spawn start i q =
     kseq sched_acquire
    (kbind (kctx_new start i q) (\<lambda>pid.
     kseq (tcb_set_state pid TSTATE_READY)
    (kseq (tqueue_enqueue NUM_IDS pid)
    (kseq sched_release (kret pid)))))"

definition thread_yield :: "('z thr_state_scheme, unit) kern" where
  "thread_yield =
     kseq sched_acquire
    (kbind get_curid (\<lambda>old_cur_pid.
     kseq (tcb_set_state old_cur_pid TSTATE_READY)
    (kseq (tqueue_enqueue NUM_IDS old_cur_pid)
    (kbind (tqueue_dequeue NUM_IDS) (\<lambda>new_cur_pid.
     kseq (tcb_set_state new_cur_pid TSTATE_RUN)
    (kseq (set_curid new_cur_pid)
    (if old_cur_pid \<noteq> new_cur_pid
     then kseq sched_release (kctx_switch old_cur_pid new_cur_pid)
     else sched_release)))))))"

definition sched_update :: "('z thr_state_scheme, unit) kern" where
  "sched_update =
     kseq sched_acquire
    (kbind get_pcpu_idx (\<lambda>c. kseq (kindex NUM_CPUS c)
    (kseq (kmodify (\<lambda>s. s\<lparr>sched_ticks := (sched_ticks s)(c := sched_ticks s c + 1000 div LAPIC_TIMER_INTR_FREQ)\<rparr>))
    (kbind (kgets (\<lambda>s. sched_ticks s c)) (\<lambda>ticks.
       if ticks > SCHED_SLICE then
         kseq (kmodify (\<lambda>s. s\<lparr>sched_ticks := (sched_ticks s)(c := 0)\<rparr>)) (kseq sched_release thread_yield)
       else sched_release)))))"

text \<open>
  The lock passed to \<^verbatim>\<open>thread_sleep\<close> is given by the operations that read and write it, \<open>None\<close>
  for a null pointer. \<open>thread_sleep\<close> ends in the switch to the next thread;
  \<open>thread_sleep_resume\<close> is what follows when thread \<open>curid\<close> runs again.
\<close>

type_synonym 's lockref = "('s \<Rightarrow> spinlock) \<times> (spinlock \<Rightarrow> 's \<Rightarrow> 's)"

definition thread_sleep :: "u32 \<Rightarrow> 'z thr_state_scheme lockref option \<Rightarrow> ('z thr_state_scheme, unit) kern" where
  "thread_sleep chan lk =
     kbind get_curid (\<lambda>curid.
     case lk of None \<Rightarrow> kfail (KERN_PANIC ''sleep without lock'') | Some (get, put) \<Rightarrow>
     kseq sched_acquire
    (kseq (klock_op spinlock_release get put)
    (kseq (tcb_set_state curid TSTATE_SLEEP)
    (kseq (tcb_set_chan curid chan)
    (kbind (tqueue_dequeue NUM_IDS) (\<lambda>new_cur_pid.
     kseq (tcb_set_state new_cur_pid TSTATE_RUN)
    (kseq (set_curid new_cur_pid)
    (kseq sched_release (kctx_switch curid new_cur_pid)))))))))"

definition thread_sleep_resume :: "u32 \<Rightarrow> 'z thr_state_scheme lockref \<Rightarrow> ('z thr_state_scheme, unit) kern" where
  "thread_sleep_resume curid lk =
     kseq sched_acquire
    (kseq (tcb_set_chan curid 0)
    (kseq sched_release (klock_op spinlock_acquire (fst lk) (snd lk))))"

definition wakeup_one :: "u32 \<Rightarrow> u32 \<Rightarrow> ('z thr_state_scheme, unit) kern" where
  "wakeup_one chan pid =
     kbind (tcb_get_chan pid) (\<lambda>ch. kbind (tcb_get_state pid) (\<lambda>st.
       if ch = chan \<and> st = TSTATE_SLEEP then
         kseq (tcb_set_state pid TSTATE_READY)
        (kseq (tcb_set_chan pid 0) (tqueue_enqueue NUM_IDS pid))
       else kret ()))"

definition thread_wakeup :: "u32 \<Rightarrow> ('z thr_state_scheme, unit) kern" where
  "thread_wakeup chan =
     kseq sched_acquire (kseq (kfor 1 NUM_IDS (wakeup_one chan)) sched_release)"

section \<open>Thread queues as lists\<close>

lemma thr_cpu_ok [simp]:
  "cpu_ok (s\<lparr>TCBPool := a\<rparr>) c = cpu_ok s c" "cpu_ok (s\<lparr>TQueuePool := b\<rparr>) c = cpu_ok s c"
  "cpu_ok (s\<lparr>CURID := d\<rparr>) c = cpu_ok s c" "cpu_ok (s\<lparr>kctx_pool := e\<rparr>) c = cpu_ok s c"
  "cpu_ok (s\<lparr>cpu_regs := f\<rparr>) c = cpu_ok s c" "cpu_ok (s\<lparr>sched_lk := g\<rparr>) c = cpu_ok s c"
  "cpu_ok (s\<lparr>sched_ticks := h\<rparr>) c = cpu_ok s c"
  by (simp_all add: cpu_ok_def)

lemma tcb_get_ok [simp]: "p < NUM_IDS \<Longrightarrow> tcb_get f p s = Inr (f (TCBPool s p), s)"
  by (simp add: tcb_get_def)

lemma tcb_put_ok [simp]:
  "p < NUM_IDS \<Longrightarrow> tcb_put f p s = Inr ((), s\<lparr>TCBPool := (TCBPool s)(p := f (TCBPool s p))\<rparr>)"
  by (simp add: tcb_put_def)

lemma tq_get_ok [simp]:
  "cpu_ok s c \<Longrightarrow> q < NUM_IDS + 1 \<Longrightarrow> tq_get f q s = Inr (f (TQueuePool s c q), s)"
  by (simp add: tq_get_def tq_index_def cpu_ok_less)

lemma tq_put_ok [simp]:
  "c < NUM_CPUS \<Longrightarrow> q < NUM_IDS + 1 \<Longrightarrow>
   tq_put f c q s = Inr ((), s\<lparr>TQueuePool := (TQueuePool s)(c := (TQueuePool s c)(q := f (TQueuePool s c q)))\<rparr>)"
  by (simp add: tq_put_def tq_index_def)

lemmas tcb_ops = tcb_get_state_def tcb_set_state_def tcb_get_prev_def tcb_set_prev_def tcb_get_next_def
  tcb_set_next_def tcb_get_chan_def tcb_set_chan_def tcb_get_cwd_def tcb_set_cwd_def

lemmas tq_ops = tqueue_get_head_def tqueue_set_head_def tqueue_get_tail_def tqueue_set_tail_def

definition nexts :: "'z thr_state_scheme \<Rightarrow> u32 \<Rightarrow> u32" where
  "nexts s = (\<lambda>p. t_next (TCBPool s p))"

definition prevs :: "'z thr_state_scheme \<Rightarrow> u32 \<Rightarrow> u32" where
  "prevs s = (\<lambda>p. t_prev (TCBPool s p))"

lemmas links_defs = nexts_def prevs_def fun_eq_iff

text \<open>The list that queue \<open>q\<close> of processor \<open>c\<close> holds.\<close>

definition tq :: "'z thr_state_scheme \<Rightarrow> u32 \<Rightarrow> u32 \<Rightarrow> u32 list \<Rightarrow> bool" where
  "tq s c q xs \<longleftrightarrow>
     dlq NUM_IDS (nexts s) (prevs s) (q_head (TQueuePool s c q)) (q_tail (TQueuePool s c q)) xs \<and>
     (\<forall>x \<in> set xs. x < NUM_IDS)"

text \<open>
  What the queue operations leave alone: everything but the links of the threads in \<open>A\<close> and
  the ends of queue \<open>q\<close> of processor \<open>c\<close>.
\<close>

definition unlinked :: "TCB \<Rightarrow> TCB" where
  "unlinked t = t\<lparr>t_prev := 0, t_next := 0\<rparr>"

definition relink :: "u32 \<Rightarrow> u32 \<Rightarrow> u32 set \<Rightarrow> 'z thr_state_scheme \<Rightarrow> 'z thr_state_scheme \<Rightarrow> bool" where
  "relink c q A s t \<longleftrightarrow> (\<exists>tp qp. t = s\<lparr>TCBPool := tp, TQueuePool := qp\<rparr> \<and>
     (\<forall>p. unlinked (tp p) = unlinked (TCBPool s p)) \<and> (\<forall>p. p \<notin> A \<longrightarrow> tp p = TCBPool s p) \<and>
     (\<forall>c' q'. (c', q') \<noteq> (c, q) \<longrightarrow> qp c' q' = TQueuePool s c' q'))"

lemma unlinked_sel:
  "unlinked a = unlinked b \<Longrightarrow> t_state a = t_state b \<and> t_channel a = t_channel b \<and>
     t_openfiles a = t_openfiles b \<and> t_cwd a = t_cwd b"
  by (cases a; cases b) (simp add: unlinked_def)

lemma unlinked_simps [simp]:
  "unlinked (t\<lparr>t_prev := a\<rparr>) = unlinked t" "unlinked (t\<lparr>t_next := a\<rparr>) = unlinked t"
  by (simp_all add: unlinked_def)

lemma tq_null: "tq s c q xs \<Longrightarrow> NUM_IDS \<notin> set xs"
  by (auto simp: tq_def)

lemma tq_frame:
  assumes "relink c q A s t" "tq s c' q' ys" "(c', q') \<noteq> (c, q)" "set ys \<inter> A = {}"
  shows "tq t c' q' ys"
proof -
  obtain tp qp where t: "t = s\<lparr>TCBPool := tp, TQueuePool := qp\<rparr>" and
    same: "\<And>p. p \<notin> A \<Longrightarrow> tp p = TCBPool s p" "qp c' q' = TQueuePool s c' q'"
    using assms(1,3) unfolding relink_def by blast
  have "dlq NUM_IDS (nexts t) (prevs t) h l ys = dlq NUM_IDS (nexts s) (prevs s) h l ys" for h l
  proof (rule dlq_cong)
    fix x assume "x \<in> set ys"
    then have "tp x = TCBPool s x" using assms(4) by (intro same(1)) blast
    then show "nexts t x = nexts s x \<and> prevs t x = prevs s x" by (simp add: nexts_def prevs_def t)
  qed
  then show ?thesis using assms(2) same(2) t by (simp add: tq_def)
qed

lemma tqueue_enqueue_ok:
  assumes cpu: "cpu_ok s c" and q: "q < NUM_IDS + 1" and l: "tq s c q xs"
    and p: "pid < NUM_IDS" "pid \<notin> set xs"
  shows "\<exists>t. tqueue_enqueue q pid s = Inr ((), t) \<and> tq t c q (xs @ [pid]) \<and> relink c q (set xs \<union> {pid}) s t"
proof (cases "xs = []")
  case True
  let ?tp = "(TCBPool s)(pid := TCBPool s pid\<lparr>t_prev := NUM_IDS, t_next := NUM_IDS\<rparr>)"
  let ?qp = "(TQueuePool s)(c := (TQueuePool s c)(q := TQueuePool s c q\<lparr>q_head := pid, q_tail := pid\<rparr>))"
  let ?t = "s\<lparr>TCBPool := ?tp, TQueuePool := ?qp\<rparr>"
  have d: "dlq NUM_IDS (nexts s) (prevs s) (q_head (TQueuePool s c q)) (q_tail (TQueuePool s c q)) []"
    using l True by (simp add: tq_def)
  then have tail: "q_tail (TQueuePool s c q) = NUM_IDS" by (simp add: dlq_def)
  have "tqueue_enqueue q pid s = Inr ((), ?t)"
    using cpu q p cpu_ok_less [OF cpu] tail by (simp add: tqueue_enqueue_def tcb_ops tq_ops)
  moreover have "nexts ?t = (nexts s)(pid := NUM_IDS)" "prevs ?t = (prevs s)(pid := NUM_IDS)"
    by (auto simp: links_defs)
  moreover have "tq ?t c q (xs @ [pid])"
    using dlq_enqueue_empty [OF d, of pid] p True calculation(2,3) by (auto simp: tq_def)
  moreover have "relink c q (set xs \<union> {pid}) s ?t"
    unfolding relink_def by (intro exI [of _ ?tp] exI [of _ ?qp]) auto
  ultimately show ?thesis by blast
next
  case False
  define tail where "tail = q_tail (TQueuePool s c q)"
  have d: "dlq NUM_IDS (nexts s) (prevs s) (q_head (TQueuePool s c q)) tail xs"
    using l by (simp add: tq_def tail_def)
  have t: "tail \<in> set xs" using d False by (simp add: dlq_def lst_or_in)
  then have tl: "tail < NUM_IDS" "tail \<noteq> NUM_IDS" "tail \<noteq> pid" using l p by (auto simp: tq_def)
  let ?tp = "(TCBPool s)(tail := TCBPool s tail\<lparr>t_next := pid\<rparr>, pid := TCBPool s pid\<lparr>t_prev := tail, t_next := NUM_IDS\<rparr>)"
  let ?qp = "(TQueuePool s)(c := (TQueuePool s c)(q := TQueuePool s c q\<lparr>q_tail := pid\<rparr>))"
  let ?t = "s\<lparr>TCBPool := ?tp, TQueuePool := ?qp\<rparr>"
  have "tqueue_enqueue q pid s = Inr ((), ?t)"
    using cpu q p cpu_ok_less [OF cpu] tl by (simp add: tqueue_enqueue_def tcb_ops tq_ops tail_def [symmetric])
  moreover have "nexts ?t = (nexts s)(tail := pid, pid := NUM_IDS)" "prevs ?t = (prevs s)(pid := tail)"
    using tl by (auto simp: links_defs)
  moreover have "tq ?t c q (xs @ [pid])"
    using dlq_enqueue [OF d False p(2)] p l calculation(2,3) by (auto simp: tq_def)
  moreover have "relink c q (set xs \<union> {pid}) s ?t"
    unfolding relink_def using t by (intro exI [of _ ?tp] exI [of _ ?qp]) auto
  ultimately show ?thesis by blast
qed

lemma tqueue_dequeue_empty:
  assumes "cpu_ok s c" "q < NUM_IDS + 1" "tq s c q []"
  shows "tqueue_dequeue q s = Inr (NUM_IDS, s)"
  using assms by (simp add: tqueue_dequeue_def tq_ops tq_def dlq_def)

lemma tqueue_dequeue_ok:
  assumes cpu: "cpu_ok s c" and q: "q < NUM_IDS + 1" and l: "tq s c q (x # xs)"
  shows "\<exists>t. tqueue_dequeue q s = Inr (x, t) \<and> tq t c q xs \<and> relink c q (set (x # xs)) s t"
proof -
  define h where "h = q_head (TQueuePool s c q)"
  have d: "dlq NUM_IDS (nexts s) (prevs s) h (q_tail (TQueuePool s c q)) (x # xs)"
    and all: "\<forall>y \<in> set (x # xs). y < NUM_IDS"
    using l by (auto simp: tq_def h_def)
  have h: "h = x" using d by (simp add: dlq_def)
  have x: "x < NUM_IDS" "x \<noteq> NUM_IDS" using all by auto
  show ?thesis
  proof (cases "t_next (TCBPool s x) = NUM_IDS")
    case True
    have xs: "xs = []" using dlq_dequeue_single [OF d] True h by (simp add: nexts_def)
    let ?tp = "(TCBPool s)(x := TCBPool s x\<lparr>t_prev := NUM_IDS, t_next := NUM_IDS\<rparr>)"
    let ?qp = "(TQueuePool s)(c := (TQueuePool s c)(q := TQueuePool s c q\<lparr>q_head := NUM_IDS, q_tail := NUM_IDS\<rparr>))"
    let ?t = "s\<lparr>TCBPool := ?tp, TQueuePool := ?qp\<rparr>"
    have "tqueue_dequeue q s = Inr (x, ?t)"
      using cpu q cpu_ok_less [OF cpu] x True h_def h by (simp add: tqueue_dequeue_def tcb_ops tq_ops)
    moreover have "tq ?t c q xs" using xs by (simp add: tq_def)
    moreover have "relink c q (set (x # xs)) s ?t"
      unfolding relink_def by (intro exI [of _ ?tp] exI [of _ ?qp]) auto
    ultimately show ?thesis by blast
  next
    case False
    let ?n = "t_next (TCBPool s x)"
    obtain ys where ys: "xs = ?n # ys"
      "dlq NUM_IDS ((nexts s)(x := NUM_IDS)) ((prevs s)(?n := NUM_IDS, x := NUM_IDS)) ?n (q_tail (TQueuePool s c q)) (?n # ys)"
      using dlq_dequeue [OF d] False h by (auto simp: nexts_def)
    have n: "?n < NUM_IDS" "?n \<noteq> x" using all ys(1) d by (auto simp: dlq_def)
    let ?tp = "(TCBPool s)(?n := TCBPool s ?n\<lparr>t_prev := NUM_IDS\<rparr>, x := TCBPool s x\<lparr>t_prev := NUM_IDS, t_next := NUM_IDS\<rparr>)"
    let ?qp = "(TQueuePool s)(c := (TQueuePool s c)(q := TQueuePool s c q\<lparr>q_head := ?n\<rparr>))"
    let ?t = "s\<lparr>TCBPool := ?tp, TQueuePool := ?qp\<rparr>"
    have "tqueue_dequeue q s = Inr (x, ?t)"
      using cpu q cpu_ok_less [OF cpu] x n False h_def h by (simp add: tqueue_dequeue_def tcb_ops tq_ops)
    moreover have "nexts ?t = (nexts s)(x := NUM_IDS)" "prevs ?t = (prevs s)(?n := NUM_IDS, x := NUM_IDS)"
      using n(2) by (auto simp: links_defs)
    moreover have "tq ?t c q xs" using ys all calculation(2,3) by (simp add: tq_def)
    moreover have "relink c q (set (x # xs)) s ?t"
      unfolding relink_def using ys(1) by (intro exI [of _ ?tp] exI [of _ ?qp]) auto
    ultimately show ?thesis by blast
  qed
qed

lemma tqueue_remove_ok:
  assumes cpu: "cpu_ok s c" and q: "q < NUM_IDS + 1" and l: "tq s c q xs" and x: "x \<in> set xs"
  shows "\<exists>t. tqueue_remove q x s = Inr ((), t) \<and> tq t c q (remove1 x xs) \<and> relink c q (set xs) s t"
proof -
  define P where "P = t_prev (TCBPool s x)"
  define N where "N = t_next (TCBPool s x)"
  let ?Q = "TQueuePool s c q"
  have d: "dlq NUM_IDS (nexts s) (prevs s) (q_head ?Q) (q_tail ?Q) xs" and all: "\<And>y. y \<in> set xs \<Longrightarrow> y < NUM_IDS"
    using l by (auto simp: tq_def)
  obtain ys zs where sp: "xs = ys @ x # zs" "P = lst_or NUM_IDS ys" "N = fst_or NUM_IDS zs"
    "x \<notin> set ys" "x \<notin> set zs"
    using dlq_split [OF d x] by (auto simp: nexts_def prevs_def P_def N_def)
  have dis: "set ys \<inter> set zs = {}" using d sp(1) by (auto simp: dlq_def)
  have p: "P \<noteq> NUM_IDS \<Longrightarrow> P \<in> set ys" using sp(2) lst_or_in [of ys NUM_IDS] by (cases "ys = []") auto
  have n: "N \<noteq> NUM_IDS \<Longrightarrow> N \<in> set zs" using sp(3) fst_or_in [of zs NUM_IDS] by (cases zs) auto
  have bx: "x < NUM_IDS" using all x .
  have bp: "P < NUM_IDS" "P \<noteq> x" if "P \<noteq> NUM_IDS" using p [OF that] all sp by auto
  have bn: "N < NUM_IDS" "N \<noteq> x" if "N \<noteq> NUM_IDS" using n [OF that] all sp by auto
  have pn: "P \<noteq> N" if "P \<noteq> NUM_IDS" "N \<noteq> NUM_IDS" using p [OF that(1)] n [OF that(2)] dis by auto
  define tp1 where "tp1 = (if P = NUM_IDS then TCBPool s else (TCBPool s)(P := TCBPool s P\<lparr>t_next := N\<rparr>))"
  define tp2 where "tp2 = (if N = NUM_IDS then tp1 else tp1(N := tp1 N\<lparr>t_prev := P\<rparr>))"
  define tp where "tp = tp2(x := tp2 x\<lparr>t_prev := NUM_IDS, t_next := NUM_IDS\<rparr>)"
  define q1 where "q1 = (if P = NUM_IDS then ?Q\<lparr>q_head := N\<rparr> else ?Q)"
  define q2 where "q2 = (if N = NUM_IDS then q1\<lparr>q_tail := P\<rparr> else q1)"
  define qp where "qp = (TQueuePool s)(c := (TQueuePool s c)(q := q2))"
  define t where "t = s\<lparr>TCBPool := tp, TQueuePool := qp\<rparr>"
  note ds = tp1_def tp2_def tp_def q1_def q2_def qp_def
  note sel = P_def [symmetric] N_def [symmetric]
  have rem: "tqueue_remove q x s = Inr ((), t)"
  proof (cases "P = NUM_IDS")
    case P: True
    show ?thesis
    proof (cases "N = NUM_IDS")
      case True
      then show ?thesis
        using P sel bx cpu q cpu_ok_less [OF cpu]
        by (simp only: tqueue_remove_def tcb_ops tq_ops ds t_def) simp
    next
      case False
      then show ?thesis
        using P sel bx bn [OF False] cpu q cpu_ok_less [OF cpu]
        by (simp only: tqueue_remove_def tcb_ops tq_ops ds t_def) simp
    qed
  next
    case P: False
    show ?thesis
    proof (cases "N = NUM_IDS")
      case True
      then show ?thesis
        using P sel bx bp [OF P] cpu q cpu_ok_less [OF cpu]
        by (simp only: tqueue_remove_def tcb_ops tq_ops ds t_def) simp
    next
      case False
      then have "qp = TQueuePool s" using P by (simp add: qp_def q1_def q2_def)
      then have "t = s\<lparr>TCBPool := tp\<rparr>" by (cases s) (simp add: t_def)
      then show ?thesis
        using P False sel bx bp [OF P] bn [OF False] pn [OF P False]
        by (simp only: tqueue_remove_def tcb_ops tp_def tp1_def tp2_def) simp
    qed
  qed
  have links: "nexts t = (if P = NUM_IDS then nexts s else (nexts s)(P := N))(x := NUM_IDS)"
    "prevs t = (if N = NUM_IDS then prevs s else (prevs s)(N := P))(x := NUM_IDS)"
    by (auto simp: links_defs t_def ds)
  have "tq t c q (remove1 x xs)"
  proof -
    have "dlq NUM_IDS (nexts t) (prevs t) (q_head (qp c q)) (q_tail (qp c q)) (remove1 x xs)"
      by (rule dlq_remove [OF d x]) (use links in \<open>auto simp: nexts_def prevs_def qp_def q1_def q2_def P_def N_def\<close>)
    moreover have "\<forall>y \<in> set (remove1 x xs). y < NUM_IDS" using all set_remove1_subset [of x xs] by auto
    ultimately show ?thesis by (simp add: tq_def t_def)
  qed
  moreover have "relink c q (set xs) s t"
    unfolding relink_def t_def using p n sp(1)
    by (intro exI [of _ tp] exI [of _ qp]) (auto simp: ds)
  ultimately show ?thesis using rem by blast
qed

section \<open>Queues linked through their elements\<close>

text \<open>
  What the kernel's index queues promise: a queue that holds the list \<open>xs\<close> takes a new element
  at its end and gives up any element. The thread queues and the message queue are
  instances.
\<close>

locale index_queue =
  fixes enq :: "'n \<Rightarrow> ('s, unit) kern" and rem :: "'n \<Rightarrow> ('s, unit) kern"
    and holds :: "'s \<Rightarrow> 'n list \<Rightarrow> bool" and elem :: "'n \<Rightarrow> bool"
  assumes enq_holds: "holds s xs \<Longrightarrow> elem x \<Longrightarrow> x \<notin> set xs \<Longrightarrow> \<exists>t. enq x s = Inr ((), t) \<and> holds t (xs @ [x])"
    and rem_holds: "holds s xs \<Longrightarrow> x \<in> set xs \<Longrightarrow> \<exists>t. rem x s = Inr ((), t) \<and> holds t (remove1 x xs)"
    and holds_unique: "holds s xs \<Longrightarrow> holds s ys \<Longrightarrow> xs = ys"
    and holds_distinct: "holds s xs \<Longrightarrow> distinct xs"
begin

primrec enq_all :: "'n list \<Rightarrow> ('s, unit) kern" where
  "enq_all [] = kret ()"
| "enq_all (x # xs) = kseq (enq x) (enq_all xs)"

lemma enq_all_holds:
  "holds s xs \<Longrightarrow> \<forall>y \<in> set ys. elem y \<Longrightarrow> distinct (xs @ ys) \<Longrightarrow>
   \<exists>t. enq_all ys s = Inr ((), t) \<and> holds t (xs @ ys)"
proof (induction ys arbitrary: s xs)
  case (Cons y ys)
  obtain u where u: "enq y s = Inr ((), u)" "holds u (xs @ [y])"
    using enq_holds [OF Cons.prems(1), of y] Cons.prems(2,3) by auto
  have "\<exists>t. enq_all ys u = Inr ((), t) \<and> holds t ((xs @ [y]) @ ys)"
    using Cons.prems(2,3) by (intro Cons.IH [OF u(2)]) auto
  then show ?case using u(1) by simp
qed simp

text \<open>Entering an element and taking it out again leaves the queue as it was.\<close>

lemma enq_rem:
  assumes "holds s xs" "elem x" "x \<notin> set xs"
  shows "\<exists>t. kseq (enq x) (rem x) s = Inr ((), t) \<and> holds t xs"
proof -
  obtain u where u: "enq x s = Inr ((), u)" "holds u (xs @ [x])" using enq_holds [OF assms] by blast
  moreover have "remove1 x (xs @ [x]) = xs" using assms(3) by (simp add: remove1_append)
  ultimately show ?thesis using rem_holds [OF u(2), of x] by auto
qed

end

lemma relink_cpu_ok: "relink c q A s t \<Longrightarrow> cpu_ok t c' = cpu_ok s c'"
  by (auto simp: relink_def)

definition on_cpu :: "u32 \<Rightarrow> u32 \<Rightarrow> 'z thr_state_scheme \<Rightarrow> u32 list \<Rightarrow> bool" where
  "on_cpu c q s xs \<longleftrightarrow> cpu_ok s c \<and> q < NUM_IDS + 1 \<and> tq s c q xs"

lemma on_cpu_enqueue:
  assumes "on_cpu c q s xs" "x < NUM_IDS" "x \<notin> set xs"
  shows "\<exists>t. tqueue_enqueue q x s = Inr ((), t) \<and> on_cpu c q t (xs @ [x])"
proof -
  obtain t where "tqueue_enqueue q x s = Inr ((), t)" "tq t c q (xs @ [x])" "relink c q (set xs \<union> {x}) s t"
    using tqueue_enqueue_ok [of s c q xs x] assms unfolding on_cpu_def by blast
  moreover from relink_cpu_ok [OF this(3)] have "cpu_ok t c" using assms(1) by (simp add: on_cpu_def)
  ultimately show ?thesis using assms(1) by (simp add: on_cpu_def)
qed

lemma on_cpu_remove:
  assumes "on_cpu c q s xs" "x \<in> set xs"
  shows "\<exists>t. tqueue_remove q x s = Inr ((), t) \<and> on_cpu c q t (remove1 x xs)"
proof -
  obtain t where "tqueue_remove q x s = Inr ((), t)" "tq t c q (remove1 x xs)" "relink c q (set xs) s t"
    using tqueue_remove_ok [of s c q xs x] assms unfolding on_cpu_def by blast
  moreover from relink_cpu_ok [OF this(3)] have "cpu_ok t c" using assms(1) by (simp add: on_cpu_def)
  ultimately show ?thesis using assms(1) by (simp add: on_cpu_def)
qed

lemma on_cpu_unique: "on_cpu c q s xs \<Longrightarrow> on_cpu c q s ys \<Longrightarrow> xs = ys"
  unfolding on_cpu_def tq_def by (elim conjE) (rule dlq_unique)

interpretation tqueue: index_queue "tqueue_enqueue q" "tqueue_remove q" "on_cpu c q" "\<lambda>p. p < NUM_IDS"
  by unfold_locales
    (erule (2) on_cpu_enqueue, erule (1) on_cpu_remove, erule (1) on_cpu_unique, simp add: on_cpu_def tq_def dlq_def)

end
