(* ===== verification/Sched.thy ===== *)
theory Sched
  imports Thread
begin

text \<open>
  The scheduler of \<^verbatim>\<open>kern/thread/PThread\<close> against an abstract one: a list of ready threads and a
  running thread for each processor, and the channel each sleeping thread waits on. The
  relation \<open>sched_rel\<close> ties the abstract state to the control blocks and queues. Main
  results: \<^verbatim>\<open>thread_yield\<close>, \<^verbatim>\<open>thread_sleep\<close>, \<^verbatim>\<open>thread_wakeup\<close> and \<^verbatim>\<open>thread_spawn\<close> refine the abstract
  operations, every ready thread gets its turn, and a thread that sleeps while no thread is
  ready makes the kernel index its tables out of bounds.
\<close>

record sched =
  ready :: "u32 \<Rightarrow> u32 list"
  running :: "u32 \<Rightarrow> u32"
  asleep :: "u32 \<Rightarrow> u32 option"
  started :: "u32 set"

section \<open>The abstract scheduler\<close>

definition abs_spawn :: "u32 \<Rightarrow> u32 \<Rightarrow> sched \<Rightarrow> sched" where
  "abs_spawn c p a = a\<lparr>ready := (ready a)(c := ready a c @ [p])\<rparr>"

definition abs_yield :: "u32 \<Rightarrow> sched \<Rightarrow> sched" where
  "abs_yield c a =
     (let q = ready a c @ [running a c] in a\<lparr>ready := (ready a)(c := tl q), running := (running a)(c := hd q)\<rparr>)"

definition abs_sleep :: "u32 \<Rightarrow> u32 \<Rightarrow> sched \<Rightarrow> sched" where
  "abs_sleep c chan a =
     a\<lparr>ready := (ready a)(c := tl (ready a c)), running := (running a)(c := hd (ready a c)),
       asleep := (asleep a)(running a c := Some chan)\<rparr>"

definition sleepers :: "u32 \<Rightarrow> sched \<Rightarrow> u32 list" where
  "sleepers chan a = filter (\<lambda>p. asleep a p = Some chan) (map of_nat [1..<64])"

definition abs_wakeup :: "u32 \<Rightarrow> u32 \<Rightarrow> sched \<Rightarrow> sched" where
  "abs_wakeup c chan a =
     a\<lparr>ready := (ready a)(c := ready a c @ sleepers chan a),
       asleep := (\<lambda>p. if p \<in> set (sleepers chan a) then None else asleep a p)\<rparr>"

section \<open>The relation\<close>

lemma thr_in_use [simp]:
  "in_use (s\<lparr>TCBPool := a\<rparr>) p = in_use s p" "in_use (s\<lparr>TQueuePool := b\<rparr>) p = in_use s p"
  "in_use (s\<lparr>CURID := d\<rparr>) p = in_use s p" "in_use (s\<lparr>kctx_pool := e\<rparr>) p = in_use s p"
  "in_use (s\<lparr>cpu_regs := f\<rparr>) p = in_use s p" "in_use (s\<lparr>sched_lk := g\<rparr>) p = in_use s p"
  by (simp_all add: in_use_def)

definition sched_rel :: "'z thr_state_scheme \<Rightarrow> sched \<Rightarrow> bool" where
  "sched_rel s a \<longleftrightarrow>
     (\<forall>c < NUM_CPUS. tq s c NUM_IDS (ready a c)) \<and>
     (\<forall>c < NUM_CPUS. \<forall>d < NUM_CPUS. c \<noteq> d \<longrightarrow> set (ready a c) \<inter> set (ready a d) = {}) \<and>
     (\<forall>p < NUM_IDS. t_state (TCBPool s p) = TSTATE_READY \<longleftrightarrow> (\<exists>c < NUM_CPUS. p \<in> set (ready a c))) \<and>
     (\<forall>p < NUM_IDS. asleep a p =
        (if t_state (TCBPool s p) = TSTATE_SLEEP then Some (t_channel (TCBPool s p)) else None)) \<and>
     (\<forall>p < NUM_IDS. \<not> in_use s p \<longrightarrow> t_state (TCBPool s p) = TSTATE_DEAD) \<and>
     (\<forall>c \<in> started a. c < NUM_CPUS \<and> CURID s c = running a c \<and> running a c < NUM_IDS \<and>
        t_state (TCBPool s (running a c)) = TSTATE_RUN) \<and>
     inj_on (running a) (started a)"

lemma sched_relD:
  assumes "sched_rel s a"
  shows "\<And>c. c < NUM_CPUS \<Longrightarrow> tq s c NUM_IDS (ready a c)"
    "\<And>c d. c < NUM_CPUS \<Longrightarrow> d < NUM_CPUS \<Longrightarrow> c \<noteq> d \<Longrightarrow> set (ready a c) \<inter> set (ready a d) = {}"
    "\<And>p. p < NUM_IDS \<Longrightarrow> t_state (TCBPool s p) = TSTATE_READY \<longleftrightarrow> (\<exists>c < NUM_CPUS. p \<in> set (ready a c))"
    "\<And>p. p < NUM_IDS \<Longrightarrow> asleep a p =
        (if t_state (TCBPool s p) = TSTATE_SLEEP then Some (t_channel (TCBPool s p)) else None)"
    "\<And>p. p < NUM_IDS \<Longrightarrow> \<not> in_use s p \<Longrightarrow> t_state (TCBPool s p) = TSTATE_DEAD"
    "\<And>c. c \<in> started a \<Longrightarrow> c < NUM_CPUS \<and> CURID s c = running a c \<and> running a c < NUM_IDS \<and>
        t_state (TCBPool s (running a c)) = TSTATE_RUN"
    "inj_on (running a) (started a)"
  using assms unfolding sched_rel_def by blast+

lemma sched_rel_cong:
  assumes "TCBPool t = TCBPool s" "TQueuePool t = TQueuePool s" "CURID t = CURID s" "CONTAINER t = CONTAINER s"
  shows "sched_rel t a = sched_rel s a"
  using assms by (simp add: sched_rel_def tq_def nexts_def prevs_def in_use_def)

lemma states_differ [simp]:
  "TSTATE_READY \<noteq> TSTATE_RUN" "TSTATE_READY \<noteq> TSTATE_SLEEP" "TSTATE_READY \<noteq> TSTATE_DEAD"
  "TSTATE_RUN \<noteq> TSTATE_SLEEP" "TSTATE_RUN \<noteq> TSTATE_DEAD" "TSTATE_SLEEP \<noteq> TSTATE_DEAD"
  "TSTATE_RUN \<noteq> TSTATE_READY" "TSTATE_SLEEP \<noteq> TSTATE_READY" "TSTATE_DEAD \<noteq> TSTATE_READY"
  "TSTATE_SLEEP \<noteq> TSTATE_RUN" "TSTATE_DEAD \<noteq> TSTATE_RUN" "TSTATE_DEAD \<noteq> TSTATE_SLEEP"
  by (simp_all add: TSTATE_READY_def TSTATE_RUN_def TSTATE_SLEEP_def TSTATE_DEAD_def)

lemma sched_stop: "sched_rel s a \<Longrightarrow> sched_rel s (a\<lparr>started := started a - {c}\<rparr>)"
  by (auto simp: sched_rel_def inj_on_def)

lemma ready_id: "NUM_IDS < NUM_IDS + 1"
  by (simp add: NUM_IDS_def)

lemma tq_states:
  assumes "\<And>p. t_next (tp p) = t_next (TCBPool s p) \<and> t_prev (tp p) = t_prev (TCBPool s p)"
  shows "tq (s\<lparr>TCBPool := tp\<rparr>) c q xs = tq s c q xs"
  using assms by (simp add: tq_def nexts_def prevs_def)

lemma member_append:
  "c < n \<Longrightarrow> (\<exists>d < n. q \<in> set ((r(c := r c @ ys)) d)) \<longleftrightarrow> q \<in> set ys \<or> (\<exists>d < n. q \<in> set (r d))"
  for c n :: u32
  by (metis Un_iff fun_upd_apply set_append)

text \<open>The scheduling fields apart, two states are the same.\<close>

definition thr_same :: "'z thr_state_scheme \<Rightarrow> 'z thr_state_scheme \<Rightarrow> bool" where
  "thr_same s t \<longleftrightarrow> t = s\<lparr>TCBPool := TCBPool t, TQueuePool := TQueuePool t, CURID := CURID t\<rparr>"

lemma thr_sameI: "t = s\<lparr>TCBPool := a, TQueuePool := b, CURID := d\<rparr> \<Longrightarrow> thr_same s t"
  by (simp add: thr_same_def)

lemma thr_same_TCBPool: "thr_same s (s\<lparr>TCBPool := a\<rparr>)"
  by (cases s) (simp add: thr_same_def)

lemma thr_sameD:
  assumes "thr_same s t"
  shows "cpu_ok t c = cpu_ok s c" "cur_kstack t = cur_kstack s" "sched_lk t = sched_lk s" "CONTAINER t = CONTAINER s"
    "AT t = AT s" "NUM_PAGES t = NUM_PAGES s" "mem_lk t = mem_lk s" "last_palloc_index t = last_palloc_index s"
    "pmmap_list t = pmmap_list s"
  by (subst assms [unfolded thr_same_def], simp)+

lemma TQueuePool_TCBPool: "s\<lparr>TQueuePool := q, TCBPool := p\<rparr> = s\<lparr>TCBPool := p, TQueuePool := q\<rparr>"
  by (cases s) simp

lemma thr_same_trans: "thr_same s t \<Longrightarrow> thr_same t u \<Longrightarrow> thr_same s u"
  by (cases s; cases t; cases u) (simp add: thr_same_def)

text \<open>A thread that is not ready becomes ready at the end of the queue of processor \<open>c\<close>.\<close>

lemma make_ready:
  fixes s :: "'z thr_state_scheme"
  assumes R: "sched_rel s a" and cpu: "cpu_ok s c" and p: "p < NUM_IDS" "in_use s p"
    and st: "t_state (TCBPool s p) \<noteq> TSTATE_READY" and nr: "\<forall>d \<in> started a. running a d \<noteq> p"
    and f: "\<And>t. t_prev (f t) = t_prev t \<and> t_next (f t) = t_next t \<and> t_state (f t) = TSTATE_READY"
  shows "\<exists>t. kseq (tcb_put f p) (tqueue_enqueue NUM_IDS p) s = Inr ((), t) \<and> thr_same s t \<and> CURID t = CURID s \<and>
     sched_rel t (a\<lparr>ready := (ready a)(c := ready a c @ [p]), asleep := (asleep a)(p := None)\<rparr>) \<and>
     (\<forall>q. q \<noteq> p \<longrightarrow> unlinked (TCBPool t q) = unlinked (TCBPool s q))"
proof -
  let ?u = "s\<lparr>TCBPool := (TCBPool s)(p := f (TCBPool s p))\<rparr>"
  have c: "c < NUM_CPUS" using cpu_ok_less [OF cpu] .
  have no: "p \<notin> set (ready a d)" if "d < NUM_CPUS" for d
    using sched_relD(3) [OF R p(1)] st that by blast
  have u: "tq ?u d NUM_IDS (ready a d)" if "d < NUM_CPUS" for d
    using sched_relD(1) [OF R that] f by (subst tq_states) auto
  obtain t where t: "tqueue_enqueue NUM_IDS p ?u = Inr ((), t)" "tq t c NUM_IDS (ready a c @ [p])"
    "relink c NUM_IDS (set (ready a c) \<union> {p}) ?u t"
    using tqueue_enqueue_ok [OF _ ready_id u [OF c] p(1) no [OF c]] cpu by auto
  obtain tp qp where e: "t = ?u\<lparr>TCBPool := tp, TQueuePool := qp\<rparr>" "\<And>q. unlinked (tp q) = unlinked (TCBPool ?u q)"
    using t(3) unfolding relink_def by blast
  have te: "t = s\<lparr>TCBPool := tp, TQueuePool := qp\<rparr>" by (simp add: e(1))
  have sel: "t_state (tp q) = (if q = p then TSTATE_READY else t_state (TCBPool s q))"
    "q \<noteq> p \<Longrightarrow> t_channel (tp q) = t_channel (TCBPool s q)" for q
    using unlinked_sel [OF e(2), of q] f by auto
  have "tq t d NUM_IDS (ready a d)" if d: "d < NUM_CPUS" "d \<noteq> c" for d
    using tq_frame [OF t(3) u [OF d(1)]] d no [OF d(1)] sched_relD(2) [OF R d(1) c d(2)] by auto
  then have q: "\<forall>d < NUM_CPUS. tq t d NUM_IDS (((ready a)(c := ready a c @ [p])) d)" using t(2) by simp
  have "sched_rel t (a\<lparr>ready := (ready a)(c := ready a c @ [p]), asleep := (asleep a)(p := None)\<rparr>)"
    unfolding sched_rel_def
  proof (intro conjI)
    show "\<forall>d < NUM_CPUS. \<forall>e < NUM_CPUS. d \<noteq> e \<longrightarrow>
        set (ready (a\<lparr>ready := (ready a)(c := ready a c @ [p]), asleep := (asleep a)(p := None)\<rparr>) d) \<inter>
        set (ready (a\<lparr>ready := (ready a)(c := ready a c @ [p]), asleep := (asleep a)(p := None)\<rparr>) e) = {}"
      using sched_relD(2) [OF R] no c by auto
    show "\<forall>q < NUM_IDS. (t_state (TCBPool t q) = TSTATE_READY) =
        (\<exists>d < NUM_CPUS. q \<in> set (ready (a\<lparr>ready := (ready a)(c := ready a c @ [p]), asleep := (asleep a)(p := None)\<rparr>) d))"
      using sched_relD(3) [OF R] member_append [OF c, of _ "ready a" "[p]"] by (simp add: te sel)
  qed (use q sched_relD(4-7) [OF R] nr p(2) in \<open>auto simp: te sel\<close>)
  moreover have "t = s\<lparr>TCBPool := tp, TQueuePool := qp, CURID := CURID s\<rparr>" by (cases s) (simp add: te)
  then have "thr_same s t" by (rule thr_sameI)
  moreover have "kseq (tcb_put f p) (tqueue_enqueue NUM_IDS p) s = Inr ((), t)" using t(1) p(1) by simp
  moreover have "CURID t = CURID s" "\<forall>q. q \<noteq> p \<longrightarrow> unlinked (TCBPool t q) = unlinked (TCBPool s q)"
    using e(2) by (simp_all add: te)
  ultimately show ?thesis by blast
qed

text \<open>The first ready thread of an idle processor starts to run.\<close>

lemma run_next:
  fixes s :: "'z thr_state_scheme"
  assumes R: "sched_rel s a" and cpu: "cpu_ok s c" and q: "ready a c = x # xs" and idle: "c \<notin> started a"
  shows "\<exists>t. (\<forall>k. kbind (tqueue_dequeue NUM_IDS) (\<lambda>n. kseq (tcb_set_state n TSTATE_RUN) (kseq (set_curid n) (k n))) s = k x t) \<and>
     x < NUM_IDS \<and> thr_same s t \<and>
     sched_rel t (a\<lparr>ready := (ready a)(c := xs), running := (running a)(c := x), started := insert c (started a)\<rparr>)"
proof -
  have c: "c < NUM_CPUS" using cpu_ok_less [OF cpu] .
  have l: "tq s c NUM_IDS (x # xs)" using sched_relD(1) [OF R c] q by simp
  obtain t where t: "tqueue_dequeue NUM_IDS s = Inr (x, t)" "tq t c NUM_IDS xs" "relink c NUM_IDS (set (x # xs)) s t"
    using tqueue_dequeue_ok [OF cpu ready_id l] by blast
  obtain tp qp where te: "t = s\<lparr>TCBPool := tp, TQueuePool := qp\<rparr>" "\<And>p. unlinked (tp p) = unlinked (TCBPool s p)"
    using t(3) unfolding relink_def by blast
  have x: "x < NUM_IDS" "x \<notin> set xs" using l by (auto simp: tq_def dlq_def)
  have xr: "t_state (TCBPool s x) = TSTATE_READY" using sched_relD(3) [OF R x(1)] c q by force
  have ux: "in_use s x" using sched_relD(5) [OF R x(1)] xr by (cases "in_use s x") auto
  let ?tp = "tp(x := tp x\<lparr>t_state := TSTATE_RUN\<rparr>)"
  let ?t = "s\<lparr>TCBPool := ?tp, TQueuePool := qp, CURID := (CURID s)(c := x)\<rparr>"
  let ?a = "a\<lparr>ready := (ready a)(c := xs), running := (running a)(c := x), started := insert c (started a)\<rparr>"
  have sel: "t_state (tp p) = t_state (TCBPool s p)" "t_channel (tp p) = t_channel (TCBPool s p)" for p
    using unlinked_sel [OF te(2), of p] by auto
  have "tq (t\<lparr>TCBPool := ?tp\<rparr>) d NUM_IDS ys = tq t d NUM_IDS ys" for d ys
    by (intro tq_states) (simp add: te(1))
  moreover have "tq ?t d NUM_IDS ys = tq (t\<lparr>TCBPool := ?tp\<rparr>) d NUM_IDS ys" for d ys
    by (simp add: tq_def nexts_def prevs_def te(1))
  ultimately have tqe: "tq ?t d NUM_IDS ys = tq t d NUM_IDS ys" for d ys by simp
  have "tq t d NUM_IDS (ready a d)" if d: "d < NUM_CPUS" "d \<noteq> c" for d
    using tq_frame [OF t(3) sched_relD(1) [OF R d(1)]] d sched_relD(2) [OF R d(1) c d(2)] q by auto
  then have tqs: "\<forall>d < NUM_CPUS. tq ?t d NUM_IDS (ready ?a d)" using t(2) by (simp add: tqe)
  have nox: "x \<notin> set (ready ?a d)" if "d < NUM_CPUS" for d
    using sched_relD(2) [OF R that c] q x(2) by (cases "d = c") auto
  have run: "running a d \<noteq> x" if "d \<in> started a" for d
    using sched_relD(6) [OF R that] xr by auto
  have "sched_rel ?t ?a"
    unfolding sched_rel_def
  proof (intro conjI)
    show "\<forall>d < NUM_CPUS. tq ?t d NUM_IDS (ready ?a d)" by (rule tqs)
    show "\<forall>d < NUM_CPUS. \<forall>e < NUM_CPUS. d \<noteq> e \<longrightarrow> set (ready ?a d) \<inter> set (ready ?a e) = {}"
    proof (intro allI impI)
      fix d e assume "d < NUM_CPUS" "e < NUM_CPUS" "d \<noteq> e"
      then show "set (ready ?a d) \<inter> set (ready ?a e) = {}"
        using sched_relD(2) [OF R, of d e] q by (auto split: if_splits)
    qed
    show "\<forall>p < NUM_IDS. (t_state (TCBPool ?t p) = TSTATE_READY) = (\<exists>d < NUM_CPUS. p \<in> set (ready ?a d))"
    proof (intro allI impI)
      fix p assume p: "p < NUM_IDS"
      show "(t_state (TCBPool ?t p) = TSTATE_READY) = (\<exists>d < NUM_CPUS. p \<in> set (ready ?a d))"
      proof (cases "p = x")
        case True
        then show ?thesis using nox by simp
      next
        case False
        then have "p \<in> set (ready ?a d) \<longleftrightarrow> p \<in> set (ready a d)" for d using q by simp
        then show ?thesis using False sched_relD(3) [OF R p] sel by simp
      qed
    qed
    show "\<forall>d \<in> started ?a. d < NUM_CPUS \<and> CURID ?t d = running ?a d \<and> running ?a d < NUM_IDS \<and>
        t_state (TCBPool ?t (running ?a d)) = TSTATE_RUN"
      using sched_relD(6) [OF R] run c x idle sel by auto
    show "inj_on (running ?a) (started ?a)"
      using sched_relD(7) [OF R] run idle by (auto simp: inj_on_def)
    show "\<forall>p < NUM_IDS. \<not> in_use ?t p \<longrightarrow> t_state (TCBPool ?t p) = TSTATE_DEAD"
      using sched_relD(5) [OF R] ux sel by auto
    show "\<forall>p < NUM_IDS. asleep ?a p = (if t_state (TCBPool ?t p) = TSTATE_SLEEP then Some (t_channel (TCBPool ?t p)) else None)"
      using sched_relD(4) [OF R] xr x(1) sel by simp
  qed
  moreover have "kbind (tqueue_dequeue NUM_IDS) (\<lambda>n. kseq (tcb_set_state n TSTATE_RUN) (kseq (set_curid n) (k n))) s = k x ?t"
    for k :: "u32 \<Rightarrow> ('z thr_state_scheme, 'b) kern"
    using t(1) x(1) cpu by (simp add: te(1) tcb_ops set_curid_def c TQueuePool_TCBPool)
  moreover have "thr_same s ?t" by (rule thr_sameI) simp
  ultimately show ?thesis using x(1) by blast
qed

text \<open>A running thread goes to sleep.\<close>

lemma make_asleep:
  assumes R: "sched_rel s a" and p: "p < NUM_IDS" "t_state (TCBPool s p) = TSTATE_RUN"
    and nr: "\<forall>d \<in> started a. running a d \<noteq> p"
  shows "sched_rel (s\<lparr>TCBPool := (TCBPool s)(p := TCBPool s p\<lparr>t_state := TSTATE_SLEEP, t_channel := chan\<rparr>)\<rparr>)
     (a\<lparr>asleep := (asleep a)(p := Some chan)\<rparr>)"
proof -
  let ?tp = "(TCBPool s)(p := TCBPool s p\<lparr>t_state := TSTATE_SLEEP, t_channel := chan\<rparr>)"
  have t: "tq (s\<lparr>TCBPool := ?tp\<rparr>) c q xs = tq s c q xs" for c q xs by (intro tq_states) simp
  have "p \<notin> set (ready a c)" if "c < NUM_CPUS" for c using sched_relD(3) [OF R p(1)] p(2) that by auto
  moreover have "in_use s p" using sched_relD(5) [OF R p(1)] p(2) by (cases "in_use s p") auto
  ultimately show ?thesis
    using R nr unfolding sched_rel_def t by (simp add: t)
qed

section \<open>Refinement\<close>

lemma kseq_two: "kseq m n s = Inr (x, t) \<Longrightarrow> kseq m (kseq n k) s = k t"
  by (auto simp: kseq_def kbind_def split: sum.splits)

lemma kseq_bind_two: "kseq m n s = Inr (x, t) \<Longrightarrow> kseq m (kbind n k) s = k x t"
  by (auto simp: kseq_def kbind_def split: sum.splits)

definition sched_ok :: "u32 \<Rightarrow> 'z thr_state_scheme \<Rightarrow> sched \<Rightarrow> bool" where
  "sched_ok c s a \<longleftrightarrow> sched_rel s a \<and> cpu_ok s c \<and> lock_ready (cur_kstack s) (sched_lk s) \<and> c \<in> started a \<and> cont_inv s"

lemma thr_cont_inv [simp]:
  "cont_inv (s\<lparr>TCBPool := a\<rparr>) = cont_inv s" "cont_inv (s\<lparr>TQueuePool := b\<rparr>) = cont_inv s"
  "cont_inv (s\<lparr>CURID := d\<rparr>) = cont_inv s" "cont_inv (s\<lparr>kctx_pool := e\<rparr>) = cont_inv s"
  "cont_inv (s\<lparr>cpu_regs := f\<rparr>) = cont_inv s" "cont_inv (s\<lparr>sched_lk := g\<rparr>) = cont_inv s"
  "cont_inv (s\<lparr>mem := m\<rparr>) = cont_inv s"
  by (simp_all add: cont_inv_def mat_inv_def in_use_def)

lemma sched_rel_lk [simp]:
  "sched_rel (s\<lparr>sched_lk := l\<rparr>) a = sched_rel s a" "sched_rel (s\<lparr>kctx_pool := k\<rparr>) a = sched_rel s a"
  "sched_rel (s\<lparr>cpu_regs := r\<rparr>) a = sched_rel s a" "sched_rel (s\<lparr>mem := m\<rparr>) a = sched_rel s a"
  by (rule sched_rel_cong; simp)+

lemma cpu_ok_mem [simp]: "cpu_ok (s\<lparr>mem := m\<rparr>) c = cpu_ok s c"
  by (simp add: cpu_ok_def)

lemma sched_lock [simp]:
  "lock_ready (cur_kstack s) (sched_lk s) \<Longrightarrow>
   sched_acquire s = Inr ((), s\<lparr>sched_lk := taken (cur_kstack s) (sched_lk s)\<rparr>)"
  "sched_release s = Inr ((), s\<lparr>sched_lk := spinlock_release_A (sched_lk s)\<rparr>)"
  by (simp_all add: sched_acquire_def sched_release_def)

lemma get_curid_ok [simp]: "cpu_ok s c \<Longrightarrow> get_curid s = Inr (CURID s c, s)"
  by (simp add: get_curid_def cpu_ok_less)

lemma set_curid_ok [simp]: "cpu_ok s c \<Longrightarrow> set_curid p s = Inr ((), s\<lparr>CURID := (CURID s)(c := p)\<rparr>)"
  by (simp add: set_curid_def cpu_ok_less)

lemma sched_okD:
  assumes "sched_ok c s a"
  shows "sched_rel s a" "cpu_ok s c" "lock_ready (cur_kstack s) (sched_lk s)" "c \<in> started a" "cont_inv s"
    "c < NUM_CPUS" "CURID s c = running a c" "running a c < NUM_IDS"
    "t_state (TCBPool s (running a c)) = TSTATE_RUN" "in_use s (running a c)"
    "ks_magic (cur_kstack s) = SPIN_KSTACK_MAGIC"
proof -
  show R: "sched_rel s a" "cpu_ok s c" "lock_ready (cur_kstack s) (sched_lk s)" "c \<in> started a" "cont_inv s"
    using assms by (simp_all add: sched_ok_def)
  show run: "c < NUM_CPUS" "CURID s c = running a c" "running a c < NUM_IDS"
    "t_state (TCBPool s (running a c)) = TSTATE_RUN"
    using sched_relD(6) [OF R(1,4)] by auto
  show "in_use s (running a c)"
    using sched_relD(5) [OF R(1) run(3)] run(4) by (cases "in_use s (running a c)") auto
  show "ks_magic (cur_kstack s) = SPIN_KSTACK_MAGIC" using R(3) by (rule lock_ready_magic)
qed

lemma others_run:
  assumes "sched_ok c s a" "d \<in> started a - {c}"
  shows "running a d \<noteq> running a c"
  using sched_relD(7) [OF sched_okD(1) [OF assms(1)]] sched_okD(4) [OF assms(1)] assms(2)
  by (auto simp: inj_on_def)

lemma cswitch_same [simp]:
  "sched_ok c (snd (projr (cswitch p q s))) a = sched_ok c s a"
  by (simp add: cswitch_def Let_def sched_ok_def)

lemma sched_ok_same:
  assumes "sched_ok c s a" "thr_same (s\<lparr>sched_lk := l\<rparr>) t" "sched_rel t b" "c \<in> started b"
  shows "sched_ok c (t\<lparr>sched_lk := spinlock_release_A l'\<rparr>) b"
proof -
  note d = sched_okD [OF assms(1)] and e = thr_sameD [OF assms(2)]
  have "cont_inv t = cont_inv s" by (simp add: cont_inv_def mat_inv_def in_use_def e)
  then show ?thesis using d e assms(3,4) by (simp add: sched_ok_def)
qed

lemma kctx_switch_ok:
  assumes "sched_ok c s a" "p < NUM_IDS" "q < NUM_IDS"
  shows "\<exists>t. kctx_switch p q s = Inr ((), t) \<and> sched_ok c t a"
  using assms by (simp add: kctx_switch_def cswitch_def Let_def sched_ok_def)

lemma thread_yield_refines:
  fixes s :: "'z thr_state_scheme"
  assumes ok: "sched_ok c s a"
  shows "\<exists>t. thread_yield s = Inr ((), t) \<and> sched_ok c t (abs_yield c a)"
proof -
  note d = sched_okD [OF ok]
  define p where "p = running a c"
  define b where "b = a\<lparr>started := started a - {c}\<rparr>"
  define s0 where "s0 = s\<lparr>sched_lk := taken (cur_kstack s) (sched_lk s)\<rparr>"
  have s0: "sched_rel s0 b" "cpu_ok s0 c" "in_use s0 p" "t_state (TCBPool s0 p) \<noteq> TSTATE_READY" "p < NUM_IDS"
    "\<forall>d \<in> started b. running b d \<noteq> p"
    using d sched_stop [OF d(1), of c] others_run [OF ok] by (simp_all add: s0_def b_def p_def)
  obtain u where u: "kseq (tcb_put (\<lambda>t. t\<lparr>t_state := TSTATE_READY\<rparr>) p) (tqueue_enqueue NUM_IDS p) s0 = Inr ((), u)"
    "thr_same s0 u" "sched_rel u (b\<lparr>ready := (ready b)(c := ready b c @ [p]), asleep := (asleep b)(p := None)\<rparr>)"
    using make_ready [OF s0(1,2,5,3,4,6), of "\<lambda>t. t\<lparr>t_state := TSTATE_READY\<rparr>"] by auto
  obtain x xs where x: "ready a c @ [p] = x # xs" by (cases "ready a c") auto
  have ub: "cpu_ok u c" "ready (b\<lparr>ready := (ready b)(c := ready b c @ [p]), asleep := (asleep b)(p := None)\<rparr>) c = x # xs"
    "c \<notin> started (b\<lparr>ready := (ready b)(c := ready b c @ [p]), asleep := (asleep b)(p := None)\<rparr>)"
    using thr_sameD(1) [OF u(2)] s0(2) x by (simp_all add: b_def)
  have none: "(asleep a)(p := None) = asleep a"
    using sched_relD(4) [OF d(1), of p] d(8,9) by (auto simp: p_def fun_eq_iff)
  have abs: "abs_yield c a = b\<lparr>asleep := (asleep b)(p := None), ready := (ready b)(c := xs),
      running := (running b)(c := x), started := insert c (started b)\<rparr>"
    using x none insert_Diff [OF d(4)] by (cases a) (simp add: abs_yield_def p_def Let_def b_def)
  obtain v where v: "\<And>k. kbind (tqueue_dequeue NUM_IDS) (\<lambda>n. kseq (tcb_set_state n TSTATE_RUN) (kseq (set_curid n) (k n))) u =
      (k x v :: fault + unit \<times> 'z thr_state_scheme)"
    "x < NUM_IDS" "thr_same u v" "sched_rel v (abs_yield c a)"
    using run_next [OF u(3) ub] unfolding abs by auto
  let ?w = "v\<lparr>sched_lk := spinlock_release_A (sched_lk v)\<rparr>"
  have ok': "sched_ok c ?w (abs_yield c a)"
    by (rule sched_ok_same [OF ok thr_same_trans [OF u(2) v(3), unfolded s0_def] v(4)])
       (simp add: abs)
  have run: "thread_yield s = (if p \<noteq> x then kctx_switch p x ?w else Inr ((), ?w))"
  proof -
    have "thread_yield s =
        kbind (tqueue_dequeue NUM_IDS) (\<lambda>n. kseq (tcb_set_state n TSTATE_RUN) (kseq (set_curid n)
          (if p \<noteq> n then kseq sched_release (kctx_switch p n) else sched_release))) u"
    proof -
      have acq: "sched_acquire s = Inr ((), s0)" using d(3) by (simp add: s0_def)
      have cur: "get_curid s0 = Inr (p, s0)" using s0(2) d(7) by (simp add: s0_def p_def)
      show ?thesis
        unfolding thread_yield_def kseq_Inr [of sched_acquire s, OF acq] kbind_Inr [of get_curid s0, OF cur]
        by (rule kseq_two [OF u(1) [folded tcb_set_state_def]])
    qed
    then show ?thesis by (simp add: v(1))
  qed
  show ?thesis
  proof (cases "p = x")
    case False
    then show ?thesis using run kctx_switch_ok [OF ok' s0(5) v(2)] by simp
  qed (use run ok' in simp)
qed

text \<open>A lock whose writes do not touch the scheduler.\<close>

definition lock_apart :: "(spinlock \<Rightarrow> 'z thr_state_scheme \<Rightarrow> 'z thr_state_scheme) \<Rightarrow> bool" where
  "lock_apart put \<longleftrightarrow> (\<forall>l s. TCBPool (put l s) = TCBPool s \<and> TQueuePool (put l s) = TQueuePool s \<and>
     CURID (put l s) = CURID s \<and> CONTAINER (put l s) = CONTAINER s \<and> cur_kstack (put l s) = cur_kstack s \<and>
     pcpu_tbl (put l s) = pcpu_tbl s \<and> sched_lk (put l s) = sched_lk s \<and> cont_inv (put l s) = cont_inv s)"

lemma lock_apart_ok: "lock_apart put \<Longrightarrow> sched_ok c (put l s) a = sched_ok c s a"
  unfolding sched_ok_def using sched_rel_cong [of "put l s" s a] cpu_ok_cong [of "put l s" s c]
  by (simp add: lock_apart_def)

lemma sched_ok_taken: "sched_ok c (s\<lparr>sched_lk := taken ks (sched_lk s)\<rparr>) a = sched_ok c s a"
  by (simp add: sched_ok_def)

lemma thread_sleep_refines:
  fixes s :: "'z thr_state_scheme"
  assumes ok: "sched_ok c s a" and more: "ready a c = x # xs" and lk: "lock_apart put"
  shows "\<exists>t. thread_sleep chan (Some (get, put)) s = Inr ((), t) \<and> sched_ok c t (abs_sleep c chan a)"
proof -
  define p where "p = running a c"
  define b where "b = a\<lparr>started := started a - {c}\<rparr>"
  define s0 where "s0 = s\<lparr>sched_lk := taken (cur_kstack s) (sched_lk s)\<rparr>"
  define s1 where "s1 = put (spinlock_release_A (get s0)) s0"
  have ok1: "sched_ok c s1 a"
    using ok unfolding s1_def s0_def lock_apart_ok [OF lk] sched_ok_taken .
  note d = sched_okD [OF ok1]
  let ?s2 = "s1\<lparr>TCBPool := (TCBPool s1)(p := TCBPool s1 p\<lparr>t_state := TSTATE_SLEEP, t_channel := chan\<rparr>)\<rparr>"
  have pr: "p < NUM_IDS" "t_state (TCBPool s1 p) = TSTATE_RUN" "\<forall>d \<in> started b. running b d \<noteq> p"
    using d others_run [OF ok1] by (simp_all add: p_def b_def)
  have s2: "sched_rel ?s2 (b\<lparr>asleep := (asleep b)(p := Some chan)\<rparr>)"
    using make_asleep [OF _ pr] sched_stop [OF d(1), of c] by (simp add: b_def)
  have ub: "cpu_ok ?s2 c" "ready (b\<lparr>asleep := (asleep b)(p := Some chan)\<rparr>) c = x # xs"
    "c \<notin> started (b\<lparr>asleep := (asleep b)(p := Some chan)\<rparr>)"
    using d(2) more by (simp_all add: b_def)
  have abs: "abs_sleep c chan a = b\<lparr>asleep := (asleep b)(p := Some chan), ready := (ready b)(c := xs),
      running := (running b)(c := x), started := insert c (started b)\<rparr>"
    using more insert_Diff [OF d(4)] by (cases a) (simp add: abs_sleep_def p_def b_def)
  obtain v where v: "\<And>k. kbind (tqueue_dequeue NUM_IDS) (\<lambda>n. kseq (tcb_set_state n TSTATE_RUN) (kseq (set_curid n) (k n))) ?s2 =
      (k x v :: fault + unit \<times> 'z thr_state_scheme)"
    "x < NUM_IDS" "thr_same ?s2 v" "sched_rel v (abs_sleep c chan a)"
    using run_next [OF s2 ub] unfolding abs by auto
  let ?w = "v\<lparr>sched_lk := spinlock_release_A (sched_lk v)\<rparr>"
  from thr_same_trans [OF thr_same_TCBPool v(3)] have "thr_same (s1\<lparr>sched_lk := sched_lk s1\<rparr>) v" by simp
  then have ok': "sched_ok c ?w (abs_sleep c chan a)"
    by (rule sched_ok_same [OF ok1 _ v(4)]) (simp add: abs)
  have cur: "get_curid s = Inr (p, s)" using sched_okD [OF ok] by (simp add: p_def)
  have acq: "sched_acquire s = Inr ((), s0)" using sched_okD(3) [OF ok] by (simp add: s0_def)
  have "thread_sleep chan (Some (get, put)) s =
      kbind (tqueue_dequeue NUM_IDS) (\<lambda>n. kseq (tcb_set_state n TSTATE_RUN) (kseq (set_curid n)
        (kseq sched_release (kctx_switch p n)))) ?s2"
    unfolding thread_sleep_def kbind_Inr [of get_curid s, OF cur] option.case prod.case
      kseq_Inr [of sched_acquire s, OF acq]
    using pr(1) by (simp add: s1_def [symmetric] tcb_set_state_def [of p] tcb_set_chan_def)
  then have "thread_sleep chan (Some (get, put)) s = kctx_switch p x ?w" by (simp add: v(1))
  then show ?thesis using kctx_switch_ok [OF ok' pr(1) v(2)] by simp
qed

lemma thread_sleep_empty:
  assumes ok: "sched_ok c s a" and empty: "ready a c = []" and lk: "lock_apart put"
  shows "thread_sleep chan (Some (get, put)) s = Inl OutOfBounds"
proof -
  define p where "p = running a c"
  define s0 where "s0 = s\<lparr>sched_lk := taken (cur_kstack s) (sched_lk s)\<rparr>"
  define s1 where "s1 = put (spinlock_release_A (get s0)) s0"
  have ok1: "sched_ok c s1 a"
    using ok unfolding s1_def s0_def lock_apart_ok [OF lk] sched_ok_taken .
  note d = sched_okD [OF ok1]
  let ?s2 = "s1\<lparr>TCBPool := (TCBPool s1)(p := TCBPool s1 p\<lparr>t_state := TSTATE_SLEEP, t_channel := chan\<rparr>)\<rparr>"
  have "tq ?s2 c NUM_IDS []" using sched_relD(1) [OF d(1,6)] empty by (subst tq_states) auto
  then have deq: "tqueue_dequeue NUM_IDS ?s2 = Inr (NUM_IDS, ?s2)"
    using d(2) by (intro tqueue_dequeue_empty [OF _ ready_id]) auto
  have cur: "get_curid s = Inr (p, s)" using sched_okD [OF ok] by (simp add: p_def)
  have acq: "sched_acquire s = Inr ((), s0)" using sched_okD(3) [OF ok] by (simp add: s0_def)
  show ?thesis
    unfolding thread_sleep_def kbind_Inr [of get_curid s, OF cur] option.case prod.case
      kseq_Inr [of sched_acquire s, OF acq]
    using d(8) deq by (simp add: s1_def [symmetric] p_def [symmetric] tcb_ops) (simp add: tcb_put_def kseq_def kbind_def)
qed

text \<open>The abstract state when the loop of \<^verbatim>\<open>thread_wakeup\<close> has passed the threads below \<open>k\<close>.\<close>

definition woken :: "u32 \<Rightarrow> sched \<Rightarrow> nat \<Rightarrow> u32 list" where
  "woken chan a k = filter (\<lambda>p. asleep a p = Some chan) (map of_nat [1..<k])"

definition waking :: "u32 \<Rightarrow> u32 \<Rightarrow> sched \<Rightarrow> nat \<Rightarrow> sched" where
  "waking c chan a k = a\<lparr>ready := (ready a)(c := ready a c @ woken chan a k),
     asleep := (\<lambda>p. if p \<in> set (woken chan a k) then None else asleep a p)\<rparr>"

lemma woken_Suc:
  "1 \<le> k \<Longrightarrow> woken chan a (Suc k) = woken chan a k @ (if asleep a (of_nat k) = Some chan then [of_nat k] else [])"
  by (simp add: woken_def upt_Suc)

lemma woken_bound: "p \<in> set (woken chan a k) \<Longrightarrow> k \<le> 64 \<Longrightarrow> unat p < k"
  by (auto simp: woken_def unat_of_nat)

lemma waking_start: "waking c chan a 1 = a"
  by (simp add: waking_def woken_def)

lemma waking_end: "waking c chan a 64 = abs_wakeup c chan a"
  by (simp add: waking_def woken_def abs_wakeup_def sleepers_def)

lemma wakeup_one_step:
  fixes s :: "'z thr_state_scheme"
  assumes R: "sched_rel s (waking c chan a (unat i))" and cpu: "cpu_ok s c" and i: "1 \<le> unat i" "i < NUM_IDS"
  shows "\<exists>t. wakeup_one chan i s = Inr ((), t) \<and> thr_same s t \<and> sched_rel t (waking c chan a (Suc (unat i)))"
proof -
  let ?A = "waking c chan a (unat i)"
  have "unat i < 64" using i(2) by (simp add: NUM_IDS_def word_less_nat_alt)
  then have "i \<notin> set (woken chan a (unat i))" using woken_bound [of i chan a "unat i"] by auto
  then have as: "asleep a i = asleep ?A i" by (simp add: waking_def)
  have tcb: "asleep a i = (if t_state (TCBPool s i) = TSTATE_SLEEP then Some (t_channel (TCBPool s i)) else None)"
    unfolding as by (rule sched_relD(4) [OF R i(2)])
  show ?thesis
  proof (cases "asleep a i = Some chan")
    case True
    then have st: "t_state (TCBPool s i) = TSTATE_SLEEP" "t_channel (TCBPool s i) = chan"
      using tcb by (auto split: if_splits)
    have pre: "in_use s i" "t_state (TCBPool s i) \<noteq> TSTATE_READY" "\<forall>d \<in> started ?A. running ?A d \<noteq> i"
      using sched_relD(5) [OF R i(2)] sched_relD(6) [OF R] st by (cases "in_use s i"; force)+
    let ?f = "\<lambda>t. t\<lparr>t_state := TSTATE_READY, t_channel := 0\<rparr>"
    obtain t where t: "kseq (tcb_put ?f i) (tqueue_enqueue NUM_IDS i) s = Inr ((), t)" "thr_same s t"
      "sched_rel t (?A\<lparr>ready := (ready ?A)(c := ready ?A c @ [i]), asleep := (asleep ?A)(i := None)\<rparr>)"
      using make_ready [OF R cpu i(2) pre, of ?f] by auto
    have "waking c chan a (Suc (unat i)) = ?A\<lparr>ready := (ready ?A)(c := ready ?A c @ [i]), asleep := (asleep ?A)(i := None)\<rparr>"
      using True i(1) by (simp add: waking_def woken_Suc fun_eq_iff)
    moreover have "wakeup_one chan i s = Inr ((), t)"
      using t(1) st i(2) by (simp add: wakeup_one_def tcb_ops)
    ultimately show ?thesis using t(2,3) by auto
  next
    case False
    have "waking c chan a (Suc (unat i)) = ?A" using False i(1) by (simp add: waking_def woken_Suc)
    moreover have "wakeup_one chan i s = Inr ((), s)"
      using False tcb i(2) by (auto simp: wakeup_one_def tcb_ops)
    moreover have "thr_same s s" using thr_same_TCBPool [of s "TCBPool s"] by simp
    ultimately show ?thesis using R by auto
  qed
qed

lemma thread_wakeup_refines:
  fixes s :: "'z thr_state_scheme"
  assumes ok: "sched_ok c s a"
  shows "\<exists>t. thread_wakeup chan s = Inr ((), t) \<and> sched_ok c t (abs_wakeup c chan a)"
proof -
  note d = sched_okD [OF ok]
  define s0 where "s0 = s\<lparr>sched_lk := taken (cur_kstack s) (sched_lk s)\<rparr>"
  have "\<exists>t. kfor 1 NUM_IDS (wakeup_one chan) s0 = Inr ((), t) \<and>
      (thr_same s0 t \<and> 1 \<le> unat NUM_IDS \<and> sched_rel t (waking c chan a (unat NUM_IDS)))"
  proof (rule kfor_rule [where Inv = "\<lambda>i t. thr_same s0 t \<and> 1 \<le> unat i \<and> sched_rel t (waking c chan a (unat i))"])
    show "thr_same s0 s0 \<and> 1 \<le> unat (1 :: u32) \<and> sched_rel s0 (waking c chan a (unat (1 :: u32)))"
      using d(1) thr_same_TCBPool [of s0 "TCBPool s0"] waking_start [of c chan a] by (simp add: s0_def)
    fix i and t :: "'z thr_state_scheme"
    assume i: "i < NUM_IDS" and I: "thr_same s0 t \<and> 1 \<le> unat i \<and> sched_rel t (waking c chan a (unat i))"
    have cpu: "cpu_ok t c" using I thr_sameD(1) [of s0 t] d(2) by (simp add: s0_def)
    obtain u where u: "wakeup_one chan i t = Inr ((), u)" "thr_same t u" "sched_rel u (waking c chan a (Suc (unat i)))"
      using wakeup_one_step [OF _ cpu _ i] I by blast
    have "unat (i + 1) = Suc (unat i)"
      using i unat_add_exact [of i 1] by (simp add: NUM_IDS_def word_less_nat_alt)
    then show "\<exists>u. wakeup_one chan i t = Inr ((), u) \<and>
        (thr_same s0 u \<and> 1 \<le> unat (i + 1) \<and> sched_rel u (waking c chan a (unat (i + 1))))"
      using u I thr_same_trans [of s0 t u] by auto
  qed (simp add: NUM_IDS_def)
  then obtain t where t: "kfor 1 NUM_IDS (wakeup_one chan) s0 = Inr ((), t)" "thr_same s0 t"
    "sched_rel t (abs_wakeup c chan a)"
    using waking_end [of c chan a] by (auto simp: NUM_IDS_def)
  have "sched_ok c (t\<lparr>sched_lk := spinlock_release_A (sched_lk t)\<rparr>) (abs_wakeup c chan a)"
    by (rule sched_ok_same [OF ok t(2) [unfolded s0_def] t(3)]) (use d(4) in \<open>simp add: abs_wakeup_def\<close>)
  moreover have "sched_acquire s = Inr ((), s0)" using d(3) by (simp add: s0_def)
  ultimately show ?thesis using t(1) by (simp add: thread_wakeup_def)
qed

lemma thread_spawn_refines:
  fixes s :: "'z thr_state_scheme"
  assumes ok: "sched_ok c s a" and can: "can_split s i q"
  shows "\<exists>pid t. thread_spawn start i q s = Inr (pid, t) \<and> sched_ok c t (abs_spawn c pid a) \<and>
     \<not> in_use s pid \<and> in_use t pid \<and> kx_eip (kctx_pool t pid) = start \<and>
     kx_esp (kctx_pool t pid) = proc_kstack_addr s + pid * KSTACK_SIZE + KSTACK_SIZE"
proof -
  note d = sched_okD [OF ok]
  define pid where "pid = i * MAX_CHILDREN + 1 + nchildren (CONTAINER s i)"
  define s0 where "s0 = s\<lparr>sched_lk := taken (cur_kstack s) (sched_lk s)\<rparr>"
  have i: "i < NUM_IDS" "nchildren (CONTAINER s i) < MAX_CHILDREN" "pid < NUM_IDS"
    using can by (auto simp: can_split_def in_use_def pid_def)
  have ne: "pid \<noteq> i" using child_arith(4) [OF i(1,2)] by (simp add: pid_def)
  have fresh: "\<not> in_use s pid" using next_child_fresh [OF d(5) can] by (simp add: pid_def)
  have can0: "can_split s0 i q" using can by (simp add: can_split_def in_use_def s0_def)
  define s1 where "s1 = split_state s0 i q pid"
  have split: "alloc_mem_quota i q s0 = Inr (pid, s1)"
    using container_split_eq [OF can0] by (simp add: alloc_mem_quota_def s1_def pid_def s0_def Let_def)
  have iu: "in_use s1 p \<longleftrightarrow> p = pid \<or> in_use s p" for p
    using in_use_split_state [OF i(1,3) ne, of s0 q p] by (simp add: s1_def s0_def)
  have same: "TCBPool s1 = TCBPool s" "TQueuePool s1 = TQueuePool s" "CURID s1 = CURID s" "cpu_ok s1 c"
    "cur_kstack s1 = cur_kstack s" "sched_lk s1 = taken (cur_kstack s) (sched_lk s)" "proc_kstack_addr s1 = proc_kstack_addr s"
    using d(2) by (simp_all add: s1_def split_state_def s0_def cpu_ok_def)
  have inv1: "cont_inv s1"
    using split_state_inv [of s0 i q] can0 d(5) by (simp add: s1_def pid_def s0_def)
  have R1: "sched_rel s1 a"
    using d(1) iu unfolding sched_rel_def tq_def nexts_def prevs_def same by simp
  define s2 where "s2 = s1\<lparr>kctx_pool := (kctx_pool s1)(pid := kctx_pool s1 pid
      \<lparr>kx_esp := proc_kstack_addr s + pid * KSTACK_SIZE + KSTACK_SIZE, kx_eip := start\<rparr>)\<rparr>"
  have new: "kctx_new start i q s0 = Inr (pid, s2)"
    using split i(3) by (simp add: kctx_new_def kctx_set_esp_def kctx_set_eip_def s2_def same)
  have dead: "t_state (TCBPool s2 pid) = TSTATE_DEAD"
    using sched_relD(5) [OF d(1) i(3) fresh] by (simp add: s2_def same)
  have ok2: "sched_ok c s2 a"
    using R1 same inv1 d by (simp add: sched_ok_def s2_def)
  have pre: "sched_rel s2 a" "cpu_ok s2 c" "in_use s2 pid" "t_state (TCBPool s2 pid) \<noteq> TSTATE_READY"
    "\<forall>d \<in> started a. running a d \<noteq> pid"
    using ok2 iu dead sched_relD(6) [OF sched_okD(1) [OF ok2]] by (auto simp: sched_ok_def s2_def)
  obtain u where u: "kseq (tcb_put (\<lambda>t. t\<lparr>t_state := TSTATE_READY\<rparr>) pid) (tqueue_enqueue NUM_IDS pid) s2 = Inr ((), u)"
    "thr_same s2 u" "sched_rel u (a\<lparr>ready := (ready a)(c := ready a c @ [pid]), asleep := (asleep a)(pid := None)\<rparr>)"
    using make_ready [OF pre(1,2) i(3) pre(3-5), of "\<lambda>t. t\<lparr>t_state := TSTATE_READY\<rparr>"] by auto
  have "(asleep a)(pid := None) = asleep a"
    using sched_relD(4) [OF pre(1) i(3)] dead by (simp add: fun_eq_iff)
  then have R': "sched_rel u (abs_spawn c pid a)" using u(3) by (simp add: abs_spawn_def)
  let ?w = "u\<lparr>sched_lk := spinlock_release_A (sched_lk u)\<rparr>"
  have "thr_same (s2\<lparr>sched_lk := sched_lk s2\<rparr>) u" using u(2) by simp
  then have okw: "sched_ok c ?w (abs_spawn c pid a)"
    by (rule sched_ok_same [OF ok2 _ R']) (use d(4) in \<open>simp add: abs_spawn_def\<close>)
  have "thread_spawn start i q s = Inr (pid, ?w)"
  proof -
    have acq: "sched_acquire s = Inr ((), s0)" using d(3) by (simp add: s0_def)
    show ?thesis
      unfolding thread_spawn_def kseq_Inr [of sched_acquire s, OF acq] kbind_Inr [of "kctx_new start i q" s0, OF new]
        kseq_two [OF u(1) [folded tcb_set_state_def]] by simp
  qed
  moreover have "kctx_pool u = kctx_pool s2" "CONTAINER u = CONTAINER s2"
    by (subst u(2) [unfolded thr_same_def], simp)+
  ultimately show ?thesis
    using okw fresh pre(3) by (intro exI [of _ pid] exI [of _ ?w]) (simp add: s2_def in_use_def)
qed

section \<open>Initialisation\<close>

text \<open>
  The fields below the file system. The lookup of the root directory, which every thread
  control block gets, is a computation of the file system that leaves them alone.
\<close>

definition keeps_threads :: "('z thr_state_scheme, 'a) kern \<Rightarrow> bool" where
  "keeps_threads m \<longleftrightarrow> (\<forall>s. \<exists>x t. m s = Inr (x, t) \<and> thr_state.truncate t = thr_state.truncate s)"

lemma truncate_sel:
  assumes "thr_state.truncate t = thr_state.truncate s"
  shows "cur_kstack t = cur_kstack s" "pcpu_tbl t = pcpu_tbl s" "sched_lk t = sched_lk s" "CONTAINER t = CONTAINER s"
    "TCBPool t = TCBPool s" "TQueuePool t = TQueuePool s" "CURID t = CURID s" "cont_inv t = cont_inv s"
proof -
  have c: "cont_inv (thr_state.truncate r) = cont_inv r" for r :: "'z thr_state_scheme"
    by (simp add: thr_state.defs cont_inv_def mat_inv_def in_use_def)
  show "cont_inv t = cont_inv s" using assms c by metis
qed (use assms in \<open>simp_all add: thr_state.defs\<close>)

text \<open>What the initialisation loops keep, on processor \<open>c\<close>.\<close>

definition init_frame :: "u32 \<Rightarrow> 'z thr_state_scheme \<Rightarrow> bool" where
  "init_frame c s \<longleftrightarrow> cpu_ok s c \<and> lock_ready (cur_kstack s) (sched_lk s) \<and> cont_inv s"

definition dead_tcb :: "TCB \<Rightarrow> bool" where
  "dead_tcb t \<longleftrightarrow> t_state t = TSTATE_DEAD \<and> t_prev t = NUM_IDS \<and> t_next t = NUM_IDS \<and> t_channel t = 0"

lemma tcb_init_loop:
  fixes s :: "'z thr_state_scheme"
  assumes s: "init_frame c s" and n: "keeps_threads (namei ''/'')"
  shows "\<exists>t. kfor 0 NUM_IDS (tcb_init_at_id namei) s = Inr ((), t) \<and>
     (init_frame c t \<and> (\<forall>p. in_use t p = in_use s p) \<and> (\<forall>j < NUM_IDS. dead_tcb (TCBPool t j)))"
proof (rule kfor_rule [where Inv = "\<lambda>i t. init_frame c t \<and> (\<forall>p. in_use t p = in_use s p) \<and> (\<forall>j < i. dead_tcb (TCBPool t j))"])
  fix i and t :: "'z thr_state_scheme"
  assume i: "i < NUM_IDS" and I: "init_frame c t \<and> (\<forall>p. in_use t p = in_use s p) \<and> (\<forall>j < i. dead_tcb (TCBPool t j))"
  let ?u = "t\<lparr>TCBPool := (TCBPool t)(i := TCBPool t i\<lparr>t_state := TSTATE_DEAD, t_prev := NUM_IDS, t_next := NUM_IDS,
      t_channel := 0, t_openfiles := (t_openfiles (TCBPool t i))(0 := 0)\<rparr>)\<rparr>"
  obtain d v where v: "namei ''/'' ?u = Inr (d, v)" "thr_state.truncate v = thr_state.truncate ?u"
    using n unfolding keeps_threads_def by blast
  note sel = truncate_sel [OF v(2)]
  let ?w = "v\<lparr>TCBPool := (TCBPool v)(i := TCBPool v i\<lparr>t_cwd := d\<rparr>)\<rparr>"
  have "tcb_init_at_id namei i t = Inr ((), ?w)"
    using v(1) i by (simp add: tcb_init_at_id_def tcb_ops)
  moreover have "init_frame c ?w" using I sel by (simp add: init_frame_def cpu_ok_def)
  moreover have "in_use ?w p = in_use s p" for p using I sel by (simp add: in_use_def)
  moreover have "dead_tcb (TCBPool ?w j)" if "j < i + 1" for j
    using that I word_less_Suc_iff [OF i, of j] by (auto simp: sel dead_tcb_def)
  ultimately show "\<exists>w. tcb_init_at_id namei i t = Inr ((), w) \<and>
      (init_frame c w \<and> (\<forall>p. in_use w p = in_use s p) \<and> (\<forall>j < i + 1. dead_tcb (TCBPool w j)))" by blast
qed (use s in \<open>auto simp: NUM_IDS_def\<close>)

abbreviation empty_queue :: "TQueue \<Rightarrow> bool" where
  "empty_queue q \<equiv> q_head q = NUM_IDS \<and> q_tail q = NUM_IDS"

lemma tqueue_init_row:
  fixes s :: "'z thr_state_scheme"
  assumes d: "d < NUM_CPUS"
  shows "\<exists>t. kfor 0 (NUM_IDS + 1) (\<lambda>chid. tqueue_init_at_id d chid) s = Inr ((), t) \<and>
     (\<exists>qp. t = s\<lparr>TQueuePool := qp\<rparr> \<and> (\<forall>e. e \<noteq> d \<longrightarrow> qp e = TQueuePool s e) \<and> (\<forall>j < NUM_IDS + 1. empty_queue (qp d j)))"
proof (rule kfor_rule [where Inv = "\<lambda>i t. \<exists>qp. t = s\<lparr>TQueuePool := qp\<rparr> \<and> (\<forall>e. e \<noteq> d \<longrightarrow> qp e = TQueuePool s e) \<and>
    (\<forall>j < i. empty_queue (qp d j))"])
  fix i and t :: "'z thr_state_scheme"
  assume i: "i < NUM_IDS + 1" and "\<exists>qp. t = s\<lparr>TQueuePool := qp\<rparr> \<and> (\<forall>e. e \<noteq> d \<longrightarrow> qp e = TQueuePool s e) \<and>
    (\<forall>j < i. empty_queue (qp d j))"
  then obtain qp where qp: "t = s\<lparr>TQueuePool := qp\<rparr>" "\<forall>e. e \<noteq> d \<longrightarrow> qp e = TQueuePool s e" "\<forall>j < i. empty_queue (qp d j)"
    by blast
  let ?qp = "qp(d := (qp d)(i := qp d i\<lparr>q_head := NUM_IDS, q_tail := NUM_IDS\<rparr>))"
  have "tqueue_init_at_id d i t = Inr ((), s\<lparr>TQueuePool := ?qp\<rparr>)"
    using i d by (simp add: tqueue_init_at_id_def qp(1))
  moreover have "empty_queue (?qp d j)" if "j < i + 1" for j
    using that qp(3) word_less_Suc_iff [OF i, of j] by auto
  ultimately show "\<exists>u. tqueue_init_at_id d i t = Inr ((), u) \<and> (\<exists>qp. u = s\<lparr>TQueuePool := qp\<rparr> \<and>
      (\<forall>e. e \<noteq> d \<longrightarrow> qp e = TQueuePool s e) \<and> (\<forall>j < i + 1. empty_queue (qp d j)))"
    using qp(2) by (intro exI conjI) (assumption | simp)+
next
  show "\<exists>qp. s = s\<lparr>TQueuePool := qp\<rparr> \<and> (\<forall>e. e \<noteq> d \<longrightarrow> qp e = TQueuePool s e) \<and> (\<forall>j < 0. empty_queue (qp d j))"
    by (intro exI [of _ "TQueuePool s"]) simp
qed simp

lemma tqueue_init_loop:
  fixes s :: "'z thr_state_scheme"
  shows "\<exists>t. kfor 0 NUM_CPUS (\<lambda>cpu. kfor 0 (NUM_IDS + 1) (\<lambda>chid. tqueue_init_at_id cpu chid)) s = Inr ((), t) \<and>
     (\<exists>qp. t = s\<lparr>TQueuePool := qp\<rparr> \<and> (\<forall>d < NUM_CPUS. \<forall>j < NUM_IDS + 1. empty_queue (qp d j)))"
proof (rule kfor_rule [where Inv = "\<lambda>i t. \<exists>qp. t = s\<lparr>TQueuePool := qp\<rparr> \<and> (\<forall>d < i. \<forall>j < NUM_IDS + 1. empty_queue (qp d j))"])
  fix i and t :: "'z thr_state_scheme"
  assume i: "i < NUM_CPUS" and "\<exists>qp. t = s\<lparr>TQueuePool := qp\<rparr> \<and> (\<forall>d < i. \<forall>j < NUM_IDS + 1. empty_queue (qp d j))"
  then obtain qp where qp: "t = s\<lparr>TQueuePool := qp\<rparr>" "\<forall>d < i. \<forall>j < NUM_IDS + 1. empty_queue (qp d j)" by blast
  obtain u qq where u: "kfor 0 (NUM_IDS + 1) (\<lambda>chid. tqueue_init_at_id i chid) t = Inr ((), u)" "u = t\<lparr>TQueuePool := qq\<rparr>"
    "\<forall>e. e \<noteq> i \<longrightarrow> qq e = TQueuePool t e" "\<forall>j < NUM_IDS + 1. empty_queue (qq i j)"
    using tqueue_init_row [OF i, of t] by blast
  have "empty_queue (qq d j)" if "d < i + 1" "j < NUM_IDS + 1" for d j
    using that u(3,4) qp word_less_Suc_iff [OF i, of d] by (cases "d = i") auto
  then show "\<exists>u. kfor 0 (NUM_IDS + 1) (\<lambda>chid. tqueue_init_at_id i chid) t = Inr ((), u) \<and>
      (\<exists>qp. u = s\<lparr>TQueuePool := qp\<rparr> \<and> (\<forall>d < i + 1. \<forall>j < NUM_IDS + 1. empty_queue (qp d j)))"
    using u(1,2) qp(1) by (intro exI [of _ u] conjI exI [of _ qq]) auto
next
  show "\<exists>qp. s = s\<lparr>TQueuePool := qp\<rparr> \<and> (\<forall>d < 0. \<forall>j < NUM_IDS + 1. empty_queue (qp d j))"
    by (intro exI [of _ "TQueuePool s"]) simp
qed simp

definition sched_boot :: "u32 \<Rightarrow> sched" where
  "sched_boot c = \<lparr>ready = (\<lambda>_. []), running = (\<lambda>_. 0), asleep = (\<lambda>_. None), started = {c}\<rparr>"

lemma boot_rel:
  fixes s :: "'z thr_state_scheme"
  assumes f: "init_frame c s" and d: "\<forall>j < NUM_IDS. dead_tcb (TCBPool s j)" and u: "in_use s 0"
    and q: "\<forall>d < NUM_CPUS. \<forall>j < NUM_IDS + 1. empty_queue (TQueuePool s d j)"
  shows "sched_ok c (s\<lparr>CURID := (CURID s)(c := 0), TCBPool := (TCBPool s)(0 := TCBPool s 0\<lparr>t_state := TSTATE_RUN\<rparr>)\<rparr>)
     (sched_boot c)"
proof -
  let ?t = "s\<lparr>CURID := (CURID s)(c := 0), TCBPool := (TCBPool s)(0 := TCBPool s 0\<lparr>t_state := TSTATE_RUN\<rparr>)\<rparr>"
  have c: "c < NUM_CPUS" using f cpu_ok_less [of s c] by (simp add: init_frame_def)
  have 0: "(0 :: u32) < NUM_IDS" by (simp add: NUM_IDS_def)
  have dd: "t_state (TCBPool s p) = TSTATE_DEAD" if "p < NUM_IDS" for p
    using d that by (simp add: dead_tcb_def)
  have "sched_rel ?t (sched_boot c)"
    unfolding sched_rel_def
  proof (intro conjI)
    show "\<forall>e < NUM_CPUS. tq ?t e NUM_IDS (ready (sched_boot c) e)"
      using q ready_id by (simp add: tq_def sched_boot_def)
    show "\<forall>p < NUM_IDS. asleep (sched_boot c) p =
        (if t_state (TCBPool ?t p) = TSTATE_SLEEP then Some (t_channel (TCBPool ?t p)) else None)"
    proof (intro allI impI)
      fix p assume "p < NUM_IDS"
      from dd [OF this] show "asleep (sched_boot c) p =
          (if t_state (TCBPool ?t p) = TSTATE_SLEEP then Some (t_channel (TCBPool ?t p)) else None)"
        by (simp add: sched_boot_def)
    qed
  qed (use dd u c 0 in \<open>simp_all add: sched_boot_def\<close>)
  then show ?thesis using f by (simp add: sched_ok_def init_frame_def sched_boot_def)
qed

lemma ticks_loop:
  fixes s :: "'z thr_state_scheme"
  shows "kfor 0 NUM_CPUS (\<lambda>i. kmodify (\<lambda>s. s\<lparr>sched_ticks := (sched_ticks s)(i := 0)\<rparr>)) s =
     Inr ((), s\<lparr>sched_ticks := (\<lambda>i. if i < NUM_CPUS then 0 else sched_ticks s i)\<rparr>)"
proof -
  let ?I = "\<lambda>i t. t = s\<lparr>sched_ticks := (\<lambda>j. if j < i then 0 else sched_ticks s j)\<rparr>"
  have "\<exists>t. kfor 0 NUM_CPUS (\<lambda>i. kmodify (\<lambda>s. s\<lparr>sched_ticks := (sched_ticks s)(i := 0)\<rparr>)) s = Inr ((), t) \<and> ?I NUM_CPUS t"
  proof (rule kfor_rule [where Inv = ?I])
    fix i t
    assume i: "i < NUM_CPUS" and t: "?I i t"
    have t': "sched_ticks t = (\<lambda>j. if j < i then 0 else sched_ticks s j)" using t by simp
    have "(sched_ticks t)(i := 0) = (\<lambda>j. if j < i + 1 then 0 else sched_ticks s j)"
    proof (rule ext)
      fix j
      show "((sched_ticks t)(i := 0)) j = (if j < i + 1 then 0 else sched_ticks s j)"
        using word_less_Suc_iff [OF i, of j] by (cases "j = i") (simp_all add: t')
    qed
    moreover have "t\<lparr>sched_ticks := x\<rparr> = s\<lparr>sched_ticks := x\<rparr>" for x using t by simp
    ultimately have "?I (i + 1) (t\<lparr>sched_ticks := (sched_ticks t)(i := 0)\<rparr>)" by metis
    then show "\<exists>u. kmodify (\<lambda>s. s\<lparr>sched_ticks := (sched_ticks s)(i := 0)\<rparr>) t = Inr ((), u) \<and> ?I (i + 1) u"
      unfolding kmodify_apply by blast
  next
    show "?I 0 s" by (cases s) simp
  qed simp
  then show ?thesis by auto
qed

section \<open>Properties\<close>

datatype sched_op = Yield | SleepOn u32 | WakeUp u32

fun abs_op :: "u32 \<Rightarrow> sched_op \<Rightarrow> sched \<Rightarrow> sched option" where
  "abs_op c Yield a = Some (abs_yield c a)"
| "abs_op c (SleepOn chan) a = (if ready a c = [] then None else Some (abs_sleep c chan a))"
| "abs_op c (WakeUp chan) a = Some (abs_wakeup c chan a)"

fun abs_run :: "u32 \<Rightarrow> sched_op list \<Rightarrow> sched \<Rightarrow> sched option" where
  "abs_run c [] a = Some a"
| "abs_run c (x # xs) a = Option.bind (abs_op c x a) (abs_run c xs)"

fun run_op :: "'z thr_state_scheme lockref \<Rightarrow> sched_op \<Rightarrow> ('z thr_state_scheme, unit) kern" where
  "run_op lk Yield = thread_yield"
| "run_op lk (SleepOn chan) = thread_sleep chan (Some lk)"
| "run_op lk (WakeUp chan) = thread_wakeup chan"

fun run_ops :: "'z thr_state_scheme lockref \<Rightarrow> sched_op list \<Rightarrow> ('z thr_state_scheme, unit) kern" where
  "run_ops lk [] = kret ()"
| "run_ops lk (x # xs) = kseq (run_op lk x) (run_ops lk xs)"

lemma run_op_refines:
  assumes "sched_ok c s a" "lock_apart put" "abs_op c x a = Some b"
  shows "\<exists>t. run_op (get, put) x s = Inr ((), t) \<and> sched_ok c t b"
proof (cases x)
  case Yield
  then show ?thesis using assms thread_yield_refines [OF assms(1)] by simp
next
  case (SleepOn chan)
  then obtain y ys where "ready a c = y # ys" using assms(3) by (cases "ready a c") auto
  then show ?thesis using assms(3) thread_sleep_refines [OF assms(1) _ assms(2)] SleepOn by auto
next
  case (WakeUp chan)
  then show ?thesis using assms(3) thread_wakeup_refines [OF assms(1), of chan] by auto
qed

lemma run_ops_refines:
  "sched_ok c s a \<Longrightarrow> lock_apart put \<Longrightarrow> abs_run c ops a = Some b \<Longrightarrow>
   \<exists>t. run_ops (get, put) ops s = Inr ((), t) \<and> sched_ok c t b"
proof (induction ops arbitrary: s a)
  case (Cons x ops)
  then obtain b' where b': "abs_op c x a = Some b'" "abs_run c ops b' = Some b"
    by (auto simp: bind_eq_Some_conv)
  obtain u where "run_op (get, put) x s = Inr ((), u)" "sched_ok c u b'"
    using run_op_refines [OF Cons.prems(1,2) b'(1)] by blast
  then show ?case using Cons.IH [OF _ Cons.prems(2) b'(2)] by auto
qed simp


lemma abs_yields:
  "k < length (ready a c) \<Longrightarrow> \<exists>b. abs_run c (replicate (Suc k) Yield) a = Some b \<and> running b c = ready a c ! k"
proof (induction k arbitrary: a)
  case 0
  then show ?case by (cases "ready a c") (auto simp: abs_yield_def Let_def)
next
  case (Suc k)
  then obtain x xs where x: "ready a c = x # xs" by (cases "ready a c") auto
  then have "ready (abs_yield c a) c = xs @ [running a c]" by (simp add: abs_yield_def Let_def)
  then have "\<exists>b. abs_run c (replicate (Suc k) Yield) (abs_yield c a) = Some b \<and> running b c = (xs @ [running a c]) ! k"
    using Suc.IH [of "abs_yield c a"] Suc.prems x by simp
  moreover have "(xs @ [running a c]) ! k = ready a c ! Suc k" using Suc.prems x by (simp add: nth_append)
  ultimately show ?case by simp
qed


text \<open>
  C10. \<^verbatim>\<open>thread_spawn\<close> within the guards of the container returns the number of a container
  that was not in use, marks its thread ready at the end of the queue, and sets its kernel
  context to start at the given address on the thread's own kernel stack.
\<close>

theorem thread_spawn_correct:
  assumes "sched_ok c s a" "can_split s i q"
  shows "\<exists>pid t. thread_spawn start i q s = Inr (pid, t) \<and> sched_ok c t (abs_spawn c pid a) \<and>
     \<not> in_use s pid \<and> in_use t pid \<and> kx_eip (kctx_pool t pid) = start \<and>
     kx_esp (kctx_pool t pid) = proc_kstack_addr s + pid * KSTACK_SIZE + KSTACK_SIZE"
  by (rule thread_spawn_refines [OF assms])

text \<open>
  C16. \<^verbatim>\<open>thread_sleep\<close> panics without a lock, and when no thread is ready it indexes the control
  blocks with the null index \<^verbatim>\<open>NUM_IDS\<close>, one past their end.
\<close>

theorem thread_sleep_errors:
  assumes "sched_ok c s a" "lock_apart put" "ready a c = []"
  shows "thread_sleep chan None s = Inl (KERN_PANIC ''sleep without lock'') \<and>
     thread_sleep chan (Some (get, put)) s = Inl OutOfBounds"
  using thread_sleep_empty [OF assms(1,3,2)] sched_okD(2) [OF assms(1)] by (simp add: thread_sleep_def)



section \<open>Concrete machines\<close>

definition idle_tcb :: TCB where
  "idle_tcb = \<lparr>t_state = TSTATE_DEAD, t_prev = NUM_IDS, t_next = NUM_IDS, t_channel = 0, t_openfiles = (\<lambda>_. 0), t_cwd = 0\<rparr>"

definition no_ctx :: kctx where
  "no_ctx = \<lparr>kx_esp = 0, kx_edi = 0, kx_esi = 0, kx_ebx = 0, kx_ebp = 0, kx_eip = 0\<rparr>"

definition with_threads :: "pt_state \<Rightarrow> thr_state" where
  "with_threads s = pt_state.extend s (thr_state.fields (\<lambda>_. idle_tcb) (\<lambda>_ _. \<lparr>q_head = NUM_IDS, q_tail = NUM_IDS\<rparr>)
     (\<lambda>_. 0) (\<lambda>_. no_ctx) no_ctx (spinlock_init \<lparr>lock = 0, lock_holder = 0\<rparr>) (\<lambda>_. 0) 0x300000)"

lemmas with_threads_defs = with_threads_def pt_state.defs thr_state.defs

definition two_quota_pt :: pt_state where
  "two_quota_pt = cont_state.extend two_quota
     (pt_state.fields (spinlock_init \<lparr>lock = 0, lock_holder = 0\<rparr>) (\<lambda>_ _. 0) (\<lambda>_. 0) 0x200000 0x600000 0x11 0 0)"

lemma two_quota_pt_ok: "cont_inv two_quota_pt" "can_split two_quota_pt 0 1" "in_use two_quota_pt 0"
  "cpu_ok two_quota_pt 0" "ks_magic (cur_kstack two_quota_pt) = SPIN_KSTACK_MAGIC"
proof -
  have sel: "cur_kstack two_quota_pt = cur_kstack two_quota" "mem_lk two_quota_pt = mem_lk two_quota"
    "NUM_PAGES two_quota_pt = NUM_PAGES two_quota" "CONTAINER two_quota_pt = CONTAINER two_quota"
    "last_palloc_index two_quota_pt = last_palloc_index two_quota" "pcpu_tbl two_quota_pt = pcpu_tbl two_quota"
    by (simp_all add: two_quota_pt_def two_quota_defs pt_state.defs)
  show "cont_inv two_quota_pt" "can_split two_quota_pt 0 1" "in_use two_quota_pt 0"
    using two_quota_inv two_quota_can_split two_quota_use [of 0] sel
    by (simp_all add: cont_inv_def mat_inv_def in_use_def can_split_def)
  show "cpu_ok two_quota_pt 0" "ks_magic (cur_kstack two_quota_pt) = SPIN_KSTACK_MAGIC"
    by (simp_all add: cpu_ok_def sel) (simp_all add: two_quota_defs zero_pcpu_def NUM_CPUS_def)
qed

definition idle_machine :: thr_state where
  "idle_machine = (let s = with_threads two_quota_pt in
     s\<lparr>CURID := (CURID s)(0 := 0), TCBPool := (TCBPool s)(0 := TCBPool s 0\<lparr>t_state := TSTATE_RUN\<rparr>)\<rparr>)"

lemma idle_machine_ok: "sched_ok 0 idle_machine (sched_boot 0)" "can_split idle_machine 0 1" "\<not> in_use idle_machine 1"
proof -
  let ?s = "with_threads two_quota_pt"
  have sel: "cur_kstack ?s = cur_kstack two_quota_pt" "mem_lk ?s = mem_lk two_quota_pt"
    "NUM_PAGES ?s = NUM_PAGES two_quota_pt" "CONTAINER ?s = CONTAINER two_quota_pt"
    "last_palloc_index ?s = last_palloc_index two_quota_pt" "pcpu_tbl ?s = pcpu_tbl two_quota_pt"
    "TCBPool ?s = (\<lambda>_. idle_tcb)" "TQueuePool ?s = (\<lambda>_ _. \<lparr>q_head = NUM_IDS, q_tail = NUM_IDS\<rparr>)"
    "sched_lk ?s = spinlock_init \<lparr>lock = 0, lock_holder = 0\<rparr>"
    by (simp_all add: with_threads_defs)
  have "init_frame 0 ?s" "in_use ?s 0"
    using two_quota_pt_ok sel
    by (simp_all add: init_frame_def cpu_ok_def cont_inv_def mat_inv_def in_use_def lock_ready_def spinlock_init_def)
  then show "sched_ok 0 idle_machine (sched_boot 0)"
    using boot_rel [of 0 ?s] sel by (simp add: idle_machine_def Let_def dead_tcb_def idle_tcb_def)
  show "can_split idle_machine 0 1" "\<not> in_use idle_machine 1"
    using two_quota_pt_ok(2) sel two_quota_use [of 1]
    by (simp_all add: idle_machine_def Let_def can_split_def in_use_def two_quota_pt_def pt_state.defs)
      (simp_all add: two_quota_defs)
qed

lemma pt_lk_apart: "lock_apart (\<lambda>l s. s\<lparr>pt_lk := l\<rparr>)"
  by (simp add: lock_apart_def cont_inv_def mat_inv_def in_use_def)

lemma one_ready:
  obtains s :: thr_state and p where "sched_ok 0 s (abs_spawn 0 p (sched_boot 0))" "ready (abs_spawn 0 p (sched_boot 0)) 0 = [p]"
proof -
  obtain p and t :: thr_state where "sched_ok 0 t (abs_spawn 0 p (sched_boot 0))"
    using thread_spawn_refines [OF idle_machine_ok(1,2), of 0] by blast
  then show thesis using that by (simp add: abs_spawn_def sched_boot_def)
qed



theorem thread_spawn_correct_witness:
  "\<exists>pid t. thread_spawn 0x1000 0 1 idle_machine = Inr (pid, t) \<and> in_use t pid \<and> kx_eip (kctx_pool t pid) = 0x1000"
  using thread_spawn_correct [OF idle_machine_ok(1,2), of "0x1000"] by blast

theorem thread_sleep_errors_witness:
  "thread_sleep 7 None idle_machine = Inl (KERN_PANIC ''sleep without lock'') \<and>
     thread_sleep 7 (Some (pt_lk, \<lambda>l s. s\<lparr>pt_lk := l\<rparr>)) idle_machine = Inl OutOfBounds"
  using thread_sleep_errors [OF idle_machine_ok(1) pt_lk_apart] by (simp add: sched_boot_def)

lemma boot_threads:
  fixes t :: thr_state
  assumes "t = (with_threads boot_pt)\<lparr>sched_ticks := k, sched_lk := l, pt_lk := spinlock_init (pt_lk (with_threads boot_pt))\<rparr>"
  shows "pt_state.truncate t = boot_pt" "sched_lk t = l" "cpu_ok t 0"
proof -
  have "pt_state.truncate t = boot_pt\<lparr>pt_lk := spinlock_init (pt_lk boot_pt)\<rparr>"
    unfolding assms by (simp add: with_threads_defs)
  then show "pt_state.truncate t = boot_pt" unfolding boot_pt_lock .
  show "sched_lk t = l" unfolding assms by simp
  show "cpu_ok t 0" unfolding assms
    by (simp add: with_threads_defs cpu_ok_def) (simp add: boot_pt_defs zero_pcpu_def NUM_CPUS_def)
qed



end
