(* ===== verification/KWp.thy ===== *)
theory KWp
  imports KPrelude
begin

text \<open>
  Total correctness of kernel computations. \<open>kwp m Q s\<close> says that \<open>m\<close> returns from \<open>s\<close>
  with a value and a state for which \<open>Q\<close> holds: a fault, a panic or a wait that does not
  end makes it false. The equations reduce it along the structure of a computation, so a
  routine is verified by rewriting to its calls and applying their rules in turn.
\<close>

definition kwp :: "('s, 'a) kern \<Rightarrow> ('a \<Rightarrow> 's \<Rightarrow> bool) \<Rightarrow> 's \<Rightarrow> bool" where
  "kwp m Q s \<longleftrightarrow> (\<exists>x t. m s = Inr (x, t) \<and> Q x t)"

lemma kwpI: "m s = Inr (x, t) \<Longrightarrow> Q x t \<Longrightarrow> kwp m Q s"
  by (auto simp: kwp_def)

lemma kwpE:
  assumes "kwp m Q s"
  obtains x t where "m s = Inr (x, t)" "Q x t"
  using assms by (auto simp: kwp_def)

lemma kwp_unit: "kwp m (\<lambda>_. Q) s \<longleftrightarrow> (\<exists>t. m s = Inr ((), t) \<and> Q t)"
  by (simp add: kwp_def)

lemma kwp_mono: "kwp m Q s \<Longrightarrow> (\<And>x t. Q x t \<Longrightarrow> R x t) \<Longrightarrow> kwp m R s"
  by (auto simp: kwp_def)

lemma kwp_conj: "kwp m Q s \<Longrightarrow> kwp m R s \<Longrightarrow> kwp m (\<lambda>x t. Q x t \<and> R x t) s"
  by (auto simp: kwp_def)

text \<open>A frame of \<open>m\<close> may be assumed where \<open>m\<close> is known to return.\<close>

lemma kwp_frame: "kwp m Q s \<Longrightarrow> kframe P m \<Longrightarrow> kwp m (\<lambda>x t. Q x t \<and> P s t) s"
  by (auto simp: kwp_def kframe_def)

lemma kwp_kret [simp]: "kwp (kret x) Q = Q x"
  by (simp add: fun_eq_iff kwp_def)

lemma kwp_kfail [simp]: "kwp (kfail e) Q = (\<lambda>s. False)"
  by (simp add: fun_eq_iff kwp_def)

lemma kwp_kgets [simp]: "kwp (kgets f) Q = (\<lambda>s. Q (f s) s)"
  by (simp add: fun_eq_iff kwp_def)

lemma kwp_kmodify [simp]: "kwp (kmodify f) Q = (\<lambda>s. Q () (f s))"
  by (simp add: fun_eq_iff kwp_def)

lemma kwp_kguard [simp]: "kwp (kguard b e) Q = (\<lambda>s. b \<and> Q () s)"
  by (simp add: fun_eq_iff kwp_def)

lemma kwp_kindex [simp]: "kwp (kindex n i) Q = (\<lambda>s. i < n \<and> Q () s)"
  by (simp add: fun_eq_iff kwp_def)

lemma kwp_kbind [simp]: "kwp (kbind m f) Q = kwp m (\<lambda>x. kwp (f x) Q)"
  by (auto simp: fun_eq_iff kwp_def kbind_eq_Inr_iff)

lemma kwp_kseq [simp]: "kwp (kseq m n) Q = kwp m (\<lambda>_. kwp n Q)"
  by (simp add: kseq_def)

lemma kwp_if: "kwp (if b then m else n) Q s \<longleftrightarrow> (if b then kwp m Q s else kwp n Q s)"
  by simp

text \<open>The loop rule of \<open>kfor\<close> in this form.\<close>

lemma kwp_kfor:
  assumes "i \<le> n" "Inv i s"
    and "\<And>j t. i \<le> j \<Longrightarrow> j < n \<Longrightarrow> Inv j t \<Longrightarrow> kwp (body j) (\<lambda>_. Inv (j + 1)) t"
    and "\<And>t. Inv n t \<Longrightarrow> Q () t"
  shows "kwp (kfor i n body) Q s"
proof -
  have "\<exists>t. body j r = Inr ((), t) \<and> Inv (j + 1) t" if "i \<le> j" "j < n" "Inv j r" for j r
    using assms(3) [OF that] by (auto simp: kwp_def)
  from kfor_rule [of i n Inv s body, OF assms(1,2) this] show ?thesis
    using assms(4) by (auto simp: kwp_def)
qed

end
