(* ===== verification/Disk.thy ===== *)
theory Disk
  imports Sched KWp
begin

text \<open>
  The disk driver, \<^verbatim>\<open>kern/dev/disk/ide.c\<close>, over a model of the disk it drives: the ports, the
  drive and sector they select, and the sectors of two drives. The theorems show that
  \<^verbatim>\<open>ide_rw\<close> moves one sector between a buffer and the disk, as its comment promises.
\<close>

section \<open>Buffers, ports and sectors\<close>

text \<open>
  The contents of a sector are a function of the byte offset, of which only the offsets
  below 512 are ever used. A pointer to a buffer is its index in \<^verbatim>\<open>bcache.buf\<close>, with
  \<^verbatim>\<open>NBUF\<close> for \<^verbatim>\<open>bcache.head\<close>; where the pointer may be null it is an option.
\<close>

record buf =
  b_flags :: u32
  b_dev :: u32
  b_sector :: u32
  b_prev :: u32
  b_next :: u32
  b_qnext :: "u32 option"
  b_data :: memory

definition B_BUSY :: u32 where "B_BUSY = 0x1"
definition B_VALID :: u32 where "B_VALID = 0x2"
definition B_DIRTY :: u32 where "B_DIRTY = 0x4"
definition NBUF :: u32 where "NBUF = 10"

definition IDE_BSY :: u8 where "IDE_BSY = 0x80"
definition IDE_DRDY :: u8 where "IDE_DRDY = 0x40"
definition IDE_DF :: u8 where "IDE_DF = 0x20"
definition IDE_ERR :: u8 where "IDE_ERR = 0x01"
definition IDE_CMD_READ :: u8 where "IDE_CMD_READ = 0x20"
definition IDE_CMD_WRITE :: u8 where "IDE_CMD_WRITE = 0x30"

text \<open>
  The driver's variables, the buffer cache it works on, and the device: the bytes last
  written to its ports, the status each drive reports, the sectors, and the list of all
  the sectors written so far with their drive, number and contents.
\<close>

record fs_state = thr_state +
  ide_lk :: spinlock
  buf_lock :: spinlock
  idequeue :: "u32 option"
  havedisk1 :: u32
  bcache_lock :: spinlock
  bufs :: "u32 \<Rightarrow> buf"
  bufs_addr :: u32
  ide_ports :: "u16 \<Rightarrow> u8"
  ide_status :: "u32 \<Rightarrow> u8"
  disk :: "u32 \<Rightarrow> u32 \<Rightarrow> memory"
  ide_writes :: "(u32 \<times> u32 \<times> memory) list"

definition buf_get :: "(buf \<Rightarrow> 'a) \<Rightarrow> u32 \<Rightarrow> ('z fs_state_scheme, 'a) kern" where
  "buf_get f b = kseq (kindex (NBUF + 1) b) (kgets (\<lambda>s. f (bufs s b)))"

definition buf_put :: "(buf \<Rightarrow> buf) \<Rightarrow> u32 \<Rightarrow> ('z fs_state_scheme, unit) kern" where
  "buf_put f b = kseq (kindex (NBUF + 1) b) (kmodify (\<lambda>s. s\<lparr>bufs := (bufs s)(b := f (bufs s b))\<rparr>))"

text \<open>The address of a buffer, which threads sleep on; a buffer takes 536 bytes.\<close>

definition buf_addr :: "u32 \<Rightarrow> ('z fs_state_scheme, u32) kern" where
  "buf_addr b = kgets (\<lambda>s. bufs_addr s + b * 536)"

definition outb :: "u16 \<Rightarrow> u8 \<Rightarrow> ('z fs_state_scheme, unit) kern" where
  "outb port v = kmodify (\<lambda>s. s\<lparr>ide_ports := (ide_ports s)(port := v)\<rparr>)"

text \<open>The drive and the sector the ports select, and the status of that drive.\<close>

definition ide_drive :: "(u16 \<Rightarrow> u8) \<Rightarrow> u32" where
  "ide_drive p = ucast (drop_bit 4 (p 0x1f6) AND 1)"

definition ide_lba :: "(u16 \<Rightarrow> u8) \<Rightarrow> u32" where
  "ide_lba p = ucast (p 0x1f3) OR push_bit 8 (ucast (p 0x1f4)) OR push_bit 16 (ucast (p 0x1f5)) OR
     push_bit 24 (ucast (p 0x1f6 AND 0x0f))"

definition inb_status :: "('z fs_state_scheme, u8) kern" where
  "inb_status = kgets (\<lambda>s. ide_status s (ide_drive (ide_ports s)))"

text \<open>
  The data port: after a write command the 128 words sent become the sector, after a read
  command the 128 words received are the sector.
\<close>

definition outsl :: "memory \<Rightarrow> ('z fs_state_scheme, unit) kern" where
  "outsl d = kmodify (\<lambda>s. let dr = ide_drive (ide_ports s); n = ide_lba (ide_ports s) in
     if ide_ports s 0x1f7 = IDE_CMD_WRITE
     then s\<lparr>disk := (disk s)(dr := (disk s dr)(n := d)), ide_writes := ide_writes s @ [(dr, n, d)]\<rparr> else s)"

definition insl :: "u32 \<Rightarrow> ('z fs_state_scheme, unit) kern" where
  "insl b = kbind (kgets (\<lambda>s. disk s (ide_drive (ide_ports s)) (ide_lba (ide_ports s)))) (\<lambda>d.
     buf_put (\<lambda>x. x\<lparr>b_data := d\<rparr>) b)"

section \<open>The driver\<close>

definition ide_wait :: "bool \<Rightarrow> ('z fs_state_scheme, bool) kern" where
  "ide_wait checkerr = kbind inb_status (\<lambda>r.
     if r AND (IDE_BSY OR IDE_DRDY) \<noteq> IDE_DRDY then kfail Spin
     else if checkerr \<and> r AND (IDE_DF OR IDE_ERR) \<noteq> 0 then kret False else kret True)"

primrec ide_probe :: "nat \<Rightarrow> ('z fs_state_scheme, unit) kern" where
  "ide_probe 0 = kret ()"
| "ide_probe (Suc i) = kbind inb_status (\<lambda>r.
     if r \<noteq> 0 then kmodify (\<lambda>s. s\<lparr>havedisk1 := 1\<rparr>) else ide_probe i)"

text \<open>\<open>picenable\<close> and \<open>ioapicenable\<close> are the interrupt controllers, \<open>ncpu\<close> the number of processors.\<close>

definition ide_init ::
    "(u32 \<Rightarrow> ('z fs_state_scheme, unit) kern) \<Rightarrow> (u32 \<Rightarrow> u32 \<Rightarrow> ('z fs_state_scheme, unit) kern) \<Rightarrow>
     u32 \<Rightarrow> ('z fs_state_scheme, unit) kern" where
  "ide_init picenable ioapicenable ncpu =
     kseq (kmodify (\<lambda>s. s\<lparr>ide_lk := spinlock_init (ide_lk s)\<rparr>))
    (kseq (kmodify (\<lambda>s. s\<lparr>buf_lock := spinlock_init (buf_lock s)\<rparr>))
    (kseq (picenable 14)
    (kseq (ioapicenable 14 (ncpu - 1))
    (kseq (ide_wait False)
    (kseq (outb 0x1f6 (0xe0 OR push_bit 4 1))
    (kseq (ide_probe 1000)
    (outb 0x1f6 (0xe0 OR push_bit 4 0))))))))"

definition ide_start :: "u32 option \<Rightarrow> ('z fs_state_scheme, unit) kern" where
  "ide_start bp = (case bp of None \<Rightarrow> kfail (KERN_PANIC ''ide_start'') | Some b \<Rightarrow>
     kseq (ide_wait False)
    (kseq (outb 0x3f6 0)
    (kseq (outb 0x1f2 1)
    (kbind (buf_get b_sector b) (\<lambda>n.
     kbind (buf_get b_dev b) (\<lambda>d.
     kseq (outb 0x1f3 (ucast (n AND 0xff)))
    (kseq (outb 0x1f4 (ucast (drop_bit 8 n AND 0xff)))
    (kseq (outb 0x1f5 (ucast (drop_bit 16 n AND 0xff)))
    (kseq (outb 0x1f6 (ucast (0xe0 OR push_bit 4 (d AND 1) OR (drop_bit 24 n AND 0x0f))))
    (kbind (buf_get b_flags b) (\<lambda>fl.
       if fl AND B_DIRTY \<noteq> 0 then
         kseq (outb 0x1f7 IDE_CMD_WRITE) (kbind (buf_get b_data b) outsl)
       else outb 0x1f7 IDE_CMD_READ)))))))))))"

definition ide_intr :: "('z fs_state_scheme, unit) kern" where
  "ide_intr =
     kseq (klock_op spinlock_acquire ide_lk (\<lambda>l s. s\<lparr>ide_lk := l\<rparr>))
    (kbind (kgets idequeue) (\<lambda>q. case q of
       None \<Rightarrow> klock_op spinlock_release ide_lk (\<lambda>l s. s\<lparr>ide_lk := l\<rparr>)
     | Some b \<Rightarrow>
         kbind (buf_get b_qnext b) (\<lambda>nx.
         kseq (kmodify (\<lambda>s. s\<lparr>idequeue := nx\<rparr>))
        (kbind (buf_get b_flags b) (\<lambda>fl.
         kseq (if fl AND B_DIRTY = 0
               then kbind (ide_wait True) (\<lambda>r. if r then insl b else kret ()) else kret ())
        (kseq (buf_put (\<lambda>x. x\<lparr>b_flags := b_flags x OR B_VALID\<rparr>) b)
        (kseq (buf_put (\<lambda>x. x\<lparr>b_flags := b_flags x AND NOT B_DIRTY\<rparr>) b)
        (kseq (kbind (buf_addr b) thread_wakeup)
        (kseq (kbind (kgets idequeue) (\<lambda>q. case q of None \<Rightarrow> kret () | Some b' \<Rightarrow> ide_start (Some b')))
        (klock_op spinlock_release ide_lk (\<lambda>l s. s\<lparr>ide_lk := l\<rparr>)))))))))))"

text \<open>
  The end of the queue: a chain longer than the number of buffers runs in a circle, and the
  loop that follows it does not end.
\<close>

primrec ide_last :: "nat \<Rightarrow> u32 \<Rightarrow> ('z fs_state_scheme, u32) kern" where
  "ide_last 0 q = kfail Spin"
| "ide_last (Suc k) q = kbind (buf_get b_qnext q) (\<lambda>nx. case nx of None \<Rightarrow> kret q | Some r \<Rightarrow> ide_last k r)"

definition ide_append :: "u32 \<Rightarrow> ('z fs_state_scheme, unit) kern" where
  "ide_append b = kbind (kgets idequeue) (\<lambda>q. case q of
     None \<Rightarrow> kmodify (\<lambda>s. s\<lparr>idequeue := Some b\<rparr>)
   | Some h \<Rightarrow> kbind (ide_last (unat NBUF + 1) h) (\<lambda>l. buf_put (\<lambda>x. x\<lparr>b_qnext := Some b\<rparr>) l))"

text \<open>
  The wait for the request: while the thread sleeps with the lock released, the disk finishes
  the request at the head of the queue and its interrupt runs \<^verbatim>\<open>ide_intr\<close>. What other threads do
  meanwhile is not part of this thread's run. Each interrupt takes one request off the
  queue, so a buffer that is not done after one for each buffer is never done.
\<close>

definition ide_sleep :: "('z fs_state_scheme, unit) kern" where
  "ide_sleep =
     kseq (klock_op spinlock_release ide_lk (\<lambda>l s. s\<lparr>ide_lk := l\<rparr>))
    (kseq ide_intr (klock_op spinlock_acquire ide_lk (\<lambda>l s. s\<lparr>ide_lk := l\<rparr>)))"

primrec ide_finish :: "nat \<Rightarrow> u32 \<Rightarrow> ('z fs_state_scheme, unit) kern" where
  "ide_finish 0 b = kfail Spin"
| "ide_finish (Suc k) b = kbind (buf_get b_flags b) (\<lambda>fl.
     if fl AND (B_VALID OR B_DIRTY) \<noteq> B_VALID then kseq ide_sleep (ide_finish k b) else kret ())"

definition ide_rw :: "u32 \<Rightarrow> ('z fs_state_scheme, unit) kern" where
  "ide_rw b = kbind (buf_get b_flags b) (\<lambda>fl. kbind (buf_get b_dev b) (\<lambda>d.
     kseq (kguard (fl AND B_BUSY \<noteq> 0) (KERN_PANIC ''ide_rw: buf not busy''))
    (kseq (kguard (fl AND (B_VALID OR B_DIRTY) \<noteq> B_VALID) (KERN_PANIC ''ide_rw: nothing to do''))
    (kbind (kgets havedisk1) (\<lambda>h.
     kseq (kguard (d = 0 \<or> h \<noteq> 0) (KERN_PANIC ''ide_rw: ide disk 1 not present''))
    (kseq (klock_op spinlock_acquire ide_lk (\<lambda>l s. s\<lparr>ide_lk := l\<rparr>))
    (kseq (buf_put (\<lambda>x. x\<lparr>b_qnext := None\<rparr>) b)
    (kseq (ide_append b)
    (kseq (kbind (kgets idequeue) (\<lambda>q. if q = Some b then ide_start (Some b) else kret ()))
    (kseq (ide_finish (unat NBUF + 2) b)
    (klock_op spinlock_release ide_lk (\<lambda>l s. s\<lparr>ide_lk := l\<rparr>))))))))))))"

section \<open>Waking threads\<close>

text \<open>
  \<open>woken s t\<close>: \<open>t\<close> differs from \<open>s\<close> in the scheduling data only. The scheduler is consistent
  on processor \<open>c\<close> when it represents some abstract scheduler.
\<close>

definition woke :: "'z thr_state_scheme \<Rightarrow> 'z thr_state_scheme \<Rightarrow> bool" where
  "woke s t \<longleftrightarrow> (\<exists>tp tqp lk. t = s\<lparr>TCBPool := tp, TQueuePool := tqp, sched_lk := lk\<rparr> \<and>
     (\<forall>p. t_openfiles (tp p) = t_openfiles (TCBPool s p) \<and> t_cwd (tp p) = t_cwd (TCBPool s p)))"

definition sched_live :: "u32 \<Rightarrow> 'z thr_state_scheme \<Rightarrow> bool" where
  "sched_live c s \<longleftrightarrow> (\<exists>a. sched_ok c s a)"

lemma wokeI:
  "(\<And>p. t_openfiles (tp p) = t_openfiles (TCBPool s p) \<and> t_cwd (tp p) = t_cwd (TCBPool s p)) \<Longrightarrow>
   woke s (s\<lparr>TCBPool := tp, TQueuePool := tqp, sched_lk := lk\<rparr>)"
  by (auto simp: woke_def)

lemma woke_refl: "woke s s"
  using wokeI [where s = s and tp = "TCBPool s" and tqp = "TQueuePool s" and lk = "sched_lk s"] by (cases s) simp

lemma woke_TCBPool:
  "(\<And>p. t_openfiles (tp p) = t_openfiles (TCBPool s p) \<and> t_cwd (tp p) = t_cwd (TCBPool s p)) \<Longrightarrow>
   woke s (s\<lparr>TCBPool := tp\<rparr>)"
  using wokeI [where s = s and tp = tp and tqp = "TQueuePool s" and lk = "sched_lk s"] by (cases s) simp

lemma woke_TQueuePool: "woke s (s\<lparr>TQueuePool := q\<rparr>)"
  using wokeI [where s = s and tp = "TCBPool s" and tqp = q and lk = "sched_lk s"] by (cases s) simp

lemma woke_sched_lk: "woke s (s\<lparr>sched_lk := l\<rparr>)"
  using wokeI [where s = s and tp = "TCBPool s" and tqp = "TQueuePool s" and lk = l] by (cases s) simp

lemma woke_trans:
  assumes "woke s t" "woke t u"
  shows "woke s u"
proof -
  obtain a b l a' b' l' where t: "t = s\<lparr>TCBPool := a, TQueuePool := b, sched_lk := l\<rparr>"
    "u = t\<lparr>TCBPool := a', TQueuePool := b', sched_lk := l'\<rparr>"
    "\<forall>p. t_openfiles (a p) = t_openfiles (TCBPool s p) \<and> t_cwd (a p) = t_cwd (TCBPool s p)"
    "\<forall>p. t_openfiles (a' p) = t_openfiles (TCBPool t p) \<and> t_cwd (a' p) = t_cwd (TCBPool t p)"
    using assms unfolding woke_def by blast
  have u: "u = s\<lparr>TCBPool := a', TQueuePool := b', sched_lk := l'\<rparr>"
    unfolding t(2) t(1) by (cases s) simp
  have "TCBPool t = a" by (simp add: t(1))
  then show ?thesis unfolding u using t(3,4) by (intro wokeI) simp
qed

lemma woke_equiv: "reflp woke" "transp woke"
  by (rule reflpI, rule woke_refl) (rule transpI, rule woke_trans)

lemma woke_tcb_put:
  "(\<And>t. t_openfiles (f t) = t_openfiles t \<and> t_cwd (f t) = t_cwd t) \<Longrightarrow> kframe woke (tcb_put f p)"
  unfolding tcb_put_def by (intro kframe_intros woke_equiv kframe_kmodify woke_TCBPool) simp

lemma woke_tq: "kframe woke (tq_get f q)" "kframe woke (tq_put g c q)" "kframe woke get_pcpu_idx"
  unfolding tq_get_def tq_put_def tq_index_def get_pcpu_idx_def pcpu_cur_def get_kstack_cpu_idx_def pcpu_get_def
  by (intro kframe_intros woke_equiv kframe_kmodify woke_TQueuePool)+

lemma woke_klock: "kframe woke (klock_op f sched_lk (\<lambda>l s. s\<lparr>sched_lk := l\<rparr>))"
  by (rule kframeI) (auto simp: klock_op_def woke_sched_lk split: sum.splits)

lemma thread_wakeup_woke: "kframe woke (thread_wakeup chan)"
  unfolding thread_wakeup_def wakeup_one_def sched_acquire_def sched_release_def tqueue_enqueue_def tcb_ops
    tqueue_get_tail_def tqueue_set_head_def tqueue_set_tail_def tcb_get_def
  by (intro kframe_intros woke_equiv woke_klock woke_tq woke_tcb_put) simp_all

lemma thread_wakeup_wp:
  assumes "sched_live c s" "\<And>t. woke s t \<Longrightarrow> sched_live c t \<Longrightarrow> Q () t"
  shows "kwp (thread_wakeup chan) Q s"
proof -
  obtain a where "sched_ok c s a" using assms(1) by (auto simp: sched_live_def)
  from thread_wakeup_refines [OF this, of chan] have "kwp (thread_wakeup chan) (\<lambda>_. sched_live c) s"
    by (auto simp: kwp_def sched_live_def)
  from kwp_frame [OF this thread_wakeup_woke] show ?thesis by (rule kwp_mono) (use assms(2) in simp)
qed

section \<open>What the driver does\<close>

lemma lba_bits:
  "(ucast (ucast (n AND 0xff) :: u8) :: u32) OR push_bit 8 (ucast (ucast (drop_bit 8 n AND 0xff) :: u8)) OR
   push_bit 16 (ucast (ucast (drop_bit 16 n AND 0xff) :: u8)) OR
   push_bit 24 (ucast ((ucast (0xe0 OR push_bit 4 (d AND 1) OR (drop_bit 24 n AND 0x0f)) :: u8) AND 0x0f)) =
   take_bit 28 (n :: u32)" (is "?l = ?r")
proof (rule bit_word_eqI)
  fix i assume "i < LENGTH(32)"
  then have "i \<in> {0,1,2,3,4,5,6,7,8,9,10,11,12,13,14,15,16,17,18,19,20,21,22,23,24,25,26,27,28,29,30,31}"
    by simp presburger
  then show "bit ?l i = bit ?r i"
    by (elim insertE) (simp_all add: bit_simps)
qed

lemma drive_bits:
  "(ucast (drop_bit 4 (ucast (0xe0 OR push_bit 4 (d AND 1) OR (drop_bit 24 n AND 0x0f)) :: u8) AND 1) :: u32) =
   d AND 1" (is "?l = ?r")
proof (rule bit_word_eqI)
  fix i assume "i < LENGTH(32)"
  show "bit ?l i = bit ?r i" by (cases "i = 0") (simp_all add: bit_simps)
qed

lemma drive_id: "d < 2 \<Longrightarrow> d AND 1 = d" for d :: u32
  by (simp add: and_one_eq word_unat_eq_iff unat_mod word_less_nat_alt)

lemma lba_id: "n < 0x10000000 \<Longrightarrow> take_bit 28 n = n" for n :: u32
  by (simp add: word_unat_eq_iff unsigned_take_bit_eq take_bit_nat_eq_self_iff word_less_nat_alt)

text \<open>The flags are bits 0, 1 and 2; all tests and updates of flags reduce to them.\<close>

lemma bit_flags [simp]:
  "bit B_BUSY n \<longleftrightarrow> n = 0" "bit B_VALID n \<longleftrightarrow> n = 1" "bit B_DIRTY n \<longleftrightarrow> n = 2"
  using bit_exp_iff [where 'a = "32 word", of 1 n] bit_exp_iff [where 'a = "32 word", of 2 n]
  by (auto simp: B_BUSY_def B_VALID_def B_DIRTY_def bit_1_iff)

lemma flag_zero: "fl AND w = 0 \<longleftrightarrow> (\<forall>n. bit w n \<longrightarrow> \<not> bit fl n)" for fl w :: u32
proof
  assume "fl AND w = 0"
  then have "\<not> bit (fl AND w) n" for n by simp
  then show "\<forall>n. bit w n \<longrightarrow> \<not> bit fl n" unfolding bit_and_iff by blast
next
  assume "\<forall>n. bit w n \<longrightarrow> \<not> bit fl n"
  then show "fl AND w = 0" by (intro bit_eqI) (auto simp: bit_and_iff)
qed

lemma flag_tests [simp]:
  "fl AND B_BUSY = 0 \<longleftrightarrow> \<not> bit fl 0" "fl AND B_DIRTY = 0 \<longleftrightarrow> \<not> bit fl 2" "fl AND B_VALID = 0 \<longleftrightarrow> \<not> bit fl 1"
  by (simp_all add: flag_zero)

lemma flag_synced [simp]: "fl AND (B_VALID OR B_DIRTY) = B_VALID \<longleftrightarrow> bit fl 1 \<and> \<not> bit fl 2"
proof
  assume "fl AND (B_VALID OR B_DIRTY) = B_VALID"
  then have "bit (fl AND (B_VALID OR B_DIRTY)) n = bit B_VALID n" for n by simp
  from this [of 1] this [of 2] show "bit fl 1 \<and> \<not> bit fl 2" by (simp add: bit_and_iff bit_or_iff)
next
  assume "bit fl 1 \<and> \<not> bit fl 2"
  then show "fl AND (B_VALID OR B_DIRTY) = B_VALID"
    by (intro bit_eqI) (auto simp: bit_and_iff bit_or_iff)
qed

definition dev_ready :: "'z fs_state_scheme \<Rightarrow> bool" where
  "dev_ready s \<longleftrightarrow> (\<forall>d. ide_status s d AND (IDE_BSY OR IDE_DRDY) = IDE_DRDY \<and> ide_status s d AND (IDE_DF OR IDE_ERR) = 0)"

text \<open>Between two operations: the request queue is empty, the locks are free, the disk is ready.\<close>

definition fs_ok :: "u32 \<Rightarrow> 'z fs_state_scheme \<Rightarrow> bool" where
  "fs_ok c s \<longleftrightarrow> sched_live c s \<and> dev_ready s \<and> idequeue s = None \<and> lock_ready (cur_kstack s) (ide_lk s) \<and>
     lock_ready (cur_kstack s) (bcache_lock s)"

text \<open>What the routines of the file system below the log leave alone.\<close>

definition fs_base :: "'z fs_state_scheme \<Rightarrow> 'y fs_state_scheme \<Rightarrow> bool" where
  "fs_base s t \<longleftrightarrow> pt_state.truncate t = pt_state.truncate s \<and> CURID t = CURID s \<and> kctx_pool t = kctx_pool s \<and>
     cpu_regs t = cpu_regs s \<and> sched_ticks t = sched_ticks s \<and> proc_kstack_addr t = proc_kstack_addr s \<and>
     (\<forall>p. t_openfiles (TCBPool t p) = t_openfiles (TCBPool s p) \<and> t_cwd (TCBPool t p) = t_cwd (TCBPool s p)) \<and>
     buf_lock t = buf_lock s \<and> havedisk1 t = havedisk1 s \<and> bufs_addr t = bufs_addr s \<and>
     ide_status t = ide_status s"

definition fs_keep :: "'z fs_state_scheme \<Rightarrow> 'z fs_state_scheme \<Rightarrow> bool" where
  "fs_keep s t \<longleftrightarrow> fs_base s t \<and> fs_state.more t = fs_state.more s"

lemma fs_keep_refl [simp]: "fs_keep s s"
  by (simp add: fs_keep_def fs_base_def)

lemma fs_keep_trans: "fs_keep s t \<Longrightarrow> fs_keep t u \<Longrightarrow> fs_keep s u"
  by (simp add: fs_keep_def fs_base_def)

lemma fs_keep_upd [simp]:
  "fs_keep s (t\<lparr>ide_lk := a\<rparr>) = fs_keep s t" "fs_keep s (t\<lparr>idequeue := q\<rparr>) = fs_keep s t"
  "fs_keep s (t\<lparr>bcache_lock := a\<rparr>) = fs_keep s t" "fs_keep s (t\<lparr>bufs := b\<rparr>) = fs_keep s t"
  "fs_keep s (t\<lparr>ide_ports := p\<rparr>) = fs_keep s t" "fs_keep s (t\<lparr>disk := d\<rparr>) = fs_keep s t"
  "fs_keep s (t\<lparr>ide_writes := w\<rparr>) = fs_keep s t"
  by (simp_all add: fs_keep_def fs_base_def pt_state.defs)

lemma fs_keep_kstack: "fs_keep s t \<Longrightarrow> cur_kstack t = cur_kstack s"
  by (simp add: fs_keep_def fs_base_def pt_state.defs)

lemma fs_keep_woke: "woke s t \<Longrightarrow> fs_keep s t"
  by (auto simp: woke_def fs_keep_def fs_base_def pt_state.defs)

lemma woke_sel:
  assumes "woke s t"
  shows "bufs t = bufs s" "disk t = disk s" "ide_writes t = ide_writes s" "ide_ports t = ide_ports s"
    "idequeue t = idequeue s" "ide_lk t = ide_lk s" "bcache_lock t = bcache_lock s" "ide_status t = ide_status s"
    "cur_kstack t = cur_kstack s" "bufs_addr t = bufs_addr s" "havedisk1 t = havedisk1 s"
  using assms by (auto simp: woke_def)

lemma sched_ok_cong:
  assumes "TCBPool t = TCBPool s" "TQueuePool t = TQueuePool s" "CURID t = CURID s" "pt_state.truncate t = pt_state.truncate s"
    "sched_lk t = sched_lk s"
  shows "sched_ok c t a = sched_ok c s a"
proof -
  have sel: "CONTAINER t = CONTAINER s" "cur_kstack t = cur_kstack s" "pcpu_tbl t = pcpu_tbl s"
    "NUM_PAGES t = NUM_PAGES s" "last_palloc_index t = last_palloc_index s" "mem_lk t = mem_lk s"
    using assms(4) by (simp_all add: pt_state.defs)
  then show ?thesis
    using assms sched_rel_cong [of t s a]
    by (simp add: sched_ok_def cpu_ok_def cont_inv_def mat_inv_def in_use_def)
qed

lemma live_upd [simp]:
  "sched_live c (s\<lparr>ide_lk := a\<rparr>) = sched_live c s" "sched_live c (s\<lparr>idequeue := q\<rparr>) = sched_live c s"
  "sched_live c (s\<lparr>bcache_lock := a\<rparr>) = sched_live c s" "sched_live c (s\<lparr>bufs := b\<rparr>) = sched_live c s"
  "sched_live c (s\<lparr>ide_ports := p\<rparr>) = sched_live c s" "sched_live c (s\<lparr>disk := d\<rparr>) = sched_live c s"
  "sched_live c (s\<lparr>ide_writes := w\<rparr>) = sched_live c s"
  unfolding sched_live_def by (intro arg_cong [where f = Ex] ext sched_ok_cong; simp add: pt_state.defs)+

lemma buf_get_ok [simp]: "b \<le> NBUF \<Longrightarrow> buf_get f b s = Inr (f (bufs s b), s)"
  by (simp add: buf_get_def NBUF_def word_le_nat_alt word_less_nat_alt)

lemma buf_put_ok [simp]: "b \<le> NBUF \<Longrightarrow> buf_put f b s = Inr ((), s\<lparr>bufs := (bufs s)(b := f (bufs s b))\<rparr>)"
  by (simp add: buf_put_def NBUF_def word_le_nat_alt word_less_nat_alt)

lemma kwp_buf [simp]:
  "b \<le> NBUF \<Longrightarrow> kwp (buf_get f b) Q s \<longleftrightarrow> Q (f (bufs s b)) s"
  "b \<le> NBUF \<Longrightarrow> kwp (buf_put g b) R s \<longleftrightarrow> R () (s\<lparr>bufs := (bufs s)(b := g (bufs s b))\<rparr>)"
  by (simp_all add: kwp_def)

lemma kwp_klock [simp]:
  "kwp (klock_op spinlock_release get put) Q = (\<lambda>s. Q () (put (spinlock_release_A (get s)) s))"
  "lock_ready (cur_kstack s) (get s) \<Longrightarrow>
   kwp (klock_op spinlock_acquire get put) Q s \<longleftrightarrow> Q () (put (taken (cur_kstack s) (get s)) s)"
  by (simp_all add: kwp_def fun_eq_iff)

lemma ide_wait_ok [simp]: "dev_ready s \<Longrightarrow> kwp (ide_wait e) Q s \<longleftrightarrow> Q True s"
  by (simp add: ide_wait_def inb_status_def dev_ready_def)

abbreviation ide_cmd :: "u32 \<Rightarrow> u8" where
  "ide_cmd fl \<equiv> (if bit fl 2 then IDE_CMD_WRITE else IDE_CMD_READ)"

definition ide_select :: "buf \<Rightarrow> (u16 \<Rightarrow> u8) \<Rightarrow> bool" where
  "ide_select x p \<longleftrightarrow> ide_drive p = b_dev x AND 1 \<and> ide_lba p = take_bit 28 (b_sector x)"

lemma ide_start_wp:
  assumes b: "b \<le> NBUF" and d: "dev_ready s"
    and Q: "\<And>p. ide_select (bufs s b) p \<Longrightarrow>
      Q () (if bit (b_flags (bufs s b)) 2 then s\<lparr>ide_ports := p, disk := (disk s)(ide_drive p := (disk s (ide_drive p))(ide_lba p := b_data (bufs s b))),
        ide_writes := ide_writes s @ [(ide_drive p, ide_lba p, b_data (bufs s b))]\<rparr> else s\<lparr>ide_ports := p\<rparr>)"
  shows "kwp (ide_start (Some b)) Q s"
proof -
  let ?n = "b_sector (bufs s b)" and ?d = "b_dev (bufs s b)"
  let ?p = "(ide_ports s)(0x3f6 := 0, 0x1f2 := 1, 0x1f3 := ucast (?n AND 0xff), 0x1f4 := ucast (drop_bit 8 ?n AND 0xff),
    0x1f5 := ucast (drop_bit 16 ?n AND 0xff), 0x1f6 := ucast (0xe0 OR push_bit 4 (?d AND 1) OR (drop_bit 24 ?n AND 0x0f)),
    0x1f7 := ide_cmd (b_flags (bufs s b)))"
  have "ide_select (bufs s b) ?p"
    using drive_bits [of ?d ?n] lba_bits [of ?n ?d] by (simp add: ide_select_def ide_drive_def ide_lba_def)
  from Q [OF this] show ?thesis
    by (cases "bit (b_flags (bufs s b)) 2") (use b d in \<open>simp_all add: ide_start_def outb_def outsl_def Let_def\<close>)
qed

lemma dev_ready_upd [simp]:
  "dev_ready (s\<lparr>ide_lk := a\<rparr>) = dev_ready s" "dev_ready (s\<lparr>idequeue := q\<rparr>) = dev_ready s"
  "dev_ready (s\<lparr>bcache_lock := a\<rparr>) = dev_ready s" "dev_ready (s\<lparr>bufs := b\<rparr>) = dev_ready s"
  "dev_ready (s\<lparr>ide_ports := p\<rparr>) = dev_ready s" "dev_ready (s\<lparr>disk := d\<rparr>) = dev_ready s"
  "dev_ready (s\<lparr>ide_writes := w\<rparr>) = dev_ready s"
  by (simp_all add: dev_ready_def)

lemma dev_ready_woke: "woke s t \<Longrightarrow> dev_ready t = dev_ready s"
  by (simp add: dev_ready_def woke_sel)

text \<open>The interrupt that ends the only request in the queue.\<close>

definition ide_moved :: "'z fs_state_scheme \<Rightarrow> u32 \<Rightarrow> buf" where
  "ide_moved s b = (if bit (b_flags (bufs s b)) 2 then bufs s b
     else (bufs s b)\<lparr>b_data := disk s (ide_drive (ide_ports s)) (ide_lba (ide_ports s))\<rparr>)
     \<lparr>b_flags := (b_flags (bufs s b) OR B_VALID) AND NOT B_DIRTY\<rparr>"

lemma ide_sleep_wp:
  assumes b: "b \<le> NBUF" "idequeue s = Some b" "b_qnext (bufs s b) = None"
    and s: "dev_ready s" "sched_live c s" "ks_magic (cur_kstack s) = SPIN_KSTACK_MAGIC"
    and Q: "\<And>t. sched_live c t \<Longrightarrow> fs_keep s t \<Longrightarrow> dev_ready t \<Longrightarrow> idequeue t = None \<Longrightarrow>
      bufs t = (bufs s)(b := ide_moved s b) \<Longrightarrow> disk t = disk s \<Longrightarrow> ide_writes t = ide_writes s \<Longrightarrow>
      bcache_lock t = bcache_lock s \<Longrightarrow> Q () t"
  shows "kwp ide_sleep Q s"
proof -
  define x where "x = bufs s b"
  let ?s1 = "s\<lparr>ide_lk := taken (cur_kstack s) (spinlock_release_A (ide_lk s)), idequeue := None, bufs := (bufs s)(b := ide_moved s b)\<rparr>"
  have "kwp (thread_wakeup (bufs_addr s + b * 536)) (\<lambda>_ t. woke ?s1 t \<and> sched_live c t) ?s1"
    by (rule thread_wakeup_wp [of c]) (use s in simp_all)
  then have wake: "kwp (thread_wakeup (bufs_addr s + b * 536)) (\<lambda>_ t. idequeue t = None \<and> cur_kstack t = cur_kstack s \<and>
      Q () (t\<lparr>ide_lk := taken (cur_kstack t) (spinlock_release_A (ide_lk t))\<rparr>)) ?s1"
  proof (rule kwp_mono)
    fix u t assume t: "woke ?s1 t \<and> sched_live c t"
    note w = woke_sel [of ?s1 t] fs_keep_woke [of ?s1 t] dev_ready_woke [of ?s1 t]
    have "fs_keep s t" using t w(12) fs_keep_trans [of s ?s1 t] by simp
    then show "idequeue t = None \<and> cur_kstack t = cur_kstack s \<and>
        Q () (t\<lparr>ide_lk := taken (cur_kstack t) (spinlock_release_A (ide_lk t))\<rparr>)"
      using t w s by (intro conjI Q) simp_all
  qed
  have wake': "kwp (thread_wakeup (bufs_addr s + b * 536))
     (\<lambda>_ t. kwp (kseq (kbind (kgets idequeue) (\<lambda>q. case q of None \<Rightarrow> kret () | Some b' \<Rightarrow> ide_start (Some b')))
        (klock_op spinlock_release ide_lk (\<lambda>l s. s\<lparr>ide_lk := l\<rparr>)))
        (\<lambda>_. kwp (klock_op spinlock_acquire ide_lk (\<lambda>l s. s\<lparr>ide_lk := l\<rparr>)) Q) t) ?s1"
    using wake by (rule kwp_mono) (use s(3) in \<open>auto\<close>)
  show ?thesis
    using wake' b s
    by (cases "bit (b_flags (bufs s b)) 2")
      (simp_all add: ide_sleep_def ide_intr_def insl_def buf_addr_def ide_moved_def)
qed

text \<open>The buffer after \<^verbatim>\<open>ide_rw\<close>, and the disk.\<close>

definition synced :: "buf \<Rightarrow> memory \<Rightarrow> buf" where
  "synced x m = x\<lparr>b_data := (if bit (b_flags x) 2 then b_data x else m), b_qnext := None,
     b_flags := (b_flags x OR B_VALID) AND NOT B_DIRTY\<rparr>"

definition sector_ok :: "'z fs_state_scheme \<Rightarrow> u32 \<Rightarrow> u32 \<Rightarrow> bool" where
  "sector_ok s d n \<longleftrightarrow> d < 2 \<and> (d = 0 \<or> havedisk1 s \<noteq> 0) \<and> n < 0x10000000"

definition disk_upd :: "(u32 \<Rightarrow> u32 \<Rightarrow> memory) \<Rightarrow> u32 \<Rightarrow> u32 \<Rightarrow> memory \<Rightarrow> u32 \<Rightarrow> u32 \<Rightarrow> memory" where
  "disk_upd D d n m = D(d := (D d)(n := m))"

lemma ide_rw_wp:
  fixes s :: "'z fs_state_scheme"
  assumes x_def: "bufs s b = x" and b: "b \<le> NBUF" and s: "fs_ok c s"
    and x: "bit (b_flags x) 0" "\<not> (bit (b_flags x) 1 \<and> \<not> bit (b_flags x) 2)" "sector_ok s (b_dev x) (b_sector x)"
    and Q: "\<And>t. fs_ok c t \<Longrightarrow> fs_keep s t \<Longrightarrow> bufs t = (bufs s)(b := synced x (disk s (b_dev x) (b_sector x))) \<Longrightarrow>
      disk t = (if bit (b_flags x) 2 then disk_upd (disk s) (b_dev x) (b_sector x) (b_data x) else disk s) \<Longrightarrow>
      ide_writes t = ide_writes s @ (if bit (b_flags x) 2 then [(b_dev x, b_sector x, b_data x)] else []) \<Longrightarrow> Q () t"
  shows "kwp (ide_rw b) Q s"
proof -
  define s1 where "s1 = s\<lparr>ide_lk := taken (cur_kstack s) (ide_lk s), bufs := (bufs s)(b := x\<lparr>b_qnext := None\<rparr>), idequeue := Some b\<rparr>"
  have ok: "sched_live c s" "dev_ready s" "idequeue s = None" "lock_ready (cur_kstack s) (ide_lk s)"
    "lock_ready (cur_kstack s) (bcache_lock s)" "ks_magic (cur_kstack s) = SPIN_KSTACK_MAGIC"
    using s lock_ready_magic by (auto simp: fs_ok_def)
  have x1: "bufs s1 b = x\<lparr>b_qnext := None\<rparr>" by (simp add: s1_def)
  have "kwp (ide_start (Some b)) (\<lambda>_. kwp (ide_finish (Suc (Suc 10)) b)
      (\<lambda>_. kwp (klock_op spinlock_release ide_lk (\<lambda>l s. s\<lparr>ide_lk := l\<rparr>)) Q)) s1"
  proof (rule ide_start_wp [OF b])
    show "dev_ready s1" using ok by (simp add: s1_def)
    fix p assume p: "ide_select (bufs s1 b) p"
    define r where "r = (if bit (b_flags (bufs s1 b)) 2 then s1\<lparr>ide_ports := p, disk := (disk s1)(ide_drive p := (disk s1 (ide_drive p))(ide_lba p := b_data (bufs s1 b))),
        ide_writes := ide_writes s1 @ [(ide_drive p, ide_lba p, b_data (bufs s1 b))]\<rparr> else s1\<lparr>ide_ports := p\<rparr>)"
    have p': "ide_drive p = b_dev x" "ide_lba p = b_sector x"
      using p x(3) by (simp_all add: ide_select_def x1 sector_ok_def drive_id lba_id)
    have s2: "bufs r = bufs s1" "ide_ports r = p" "idequeue r = Some b" "dev_ready r" "sched_live c r"
      "cur_kstack r = cur_kstack s" "fs_keep s r" "bcache_lock r = bcache_lock s"
      "disk r = (if bit (b_flags x) 2 then disk_upd (disk s) (b_dev x) (b_sector x) (b_data x) else disk s)"
      "ide_writes r = ide_writes s @ (if bit (b_flags x) 2 then [(b_dev x, b_sector x, b_data x)] else [])"
      using ok by (simp_all add: r_def s1_def p' disk_upd_def)
    have fl: "b_flags (bufs r b) = b_flags x" by (simp add: s2(1) x1)
    have "kwp ide_sleep (\<lambda>_. kwp (ide_finish (Suc 10) b)
        (\<lambda>_. kwp (klock_op spinlock_release ide_lk (\<lambda>l s. s\<lparr>ide_lk := l\<rparr>)) Q)) r"
    proof (rule ide_sleep_wp [OF b s2(3) _ s2(4,5)])
      show "b_qnext (bufs r b) = None" "ks_magic (cur_kstack r) = SPIN_KSTACK_MAGIC"
        by (simp_all add: s2(1,6) x1 ok)
      fix t
      assume t: "sched_live c t" "fs_keep r t" "dev_ready t" "idequeue t = None" "bufs t = (bufs r)(b := ide_moved r b)"
        "disk t = disk r" "ide_writes t = ide_writes r" "bcache_lock t = bcache_lock r"
      have m: "ide_moved r b = synced x (disk s (b_dev x) (b_sector x))"
        unfolding ide_moved_def s2 x1 p' by (cases "bit (b_flags x) 2") (simp_all add: synced_def)
      have k: "cur_kstack t = cur_kstack s" using fs_keep_kstack [OF t(2)] s2(6) by simp
      have "Q () (t\<lparr>ide_lk := spinlock_release_A (ide_lk t)\<rparr>)"
        by (rule Q) (use t k ok m s2 fs_keep_trans [OF s2(7) t(2)] in \<open>simp_all add: fs_ok_def s1_def\<close>)
      moreover have "b_flags (bufs t b) = (b_flags x OR B_VALID) AND NOT B_DIRTY"
        by (simp add: t(5) m synced_def)
      ultimately show "kwp (ide_finish (Suc 10) b) (\<lambda>_. kwp (klock_op spinlock_release ide_lk (\<lambda>l s. s\<lparr>ide_lk := l\<rparr>)) Q) t"
        using b unfolding ide_finish.simps(2) [of 10] by (simp add: bit_simps)
    qed
    then have "kwp (ide_finish (Suc (Suc 10)) b) (\<lambda>_. kwp (klock_op spinlock_release ide_lk (\<lambda>l s. s\<lparr>ide_lk := l\<rparr>)) Q) r"
      using b x(2) fl unfolding ide_finish.simps(2) [of "Suc 10"] by simp
    then show "kwp (ide_finish (Suc (Suc 10)) b) (\<lambda>_. kwp (klock_op spinlock_release ide_lk (\<lambda>l s. s\<lparr>ide_lk := l\<rparr>)) Q)
      (if bit (b_flags (bufs s1 b)) 2 then s1\<lparr>ide_ports := p, disk := (disk s1)(ide_drive p := (disk s1 (ide_drive p))(ide_lba p := b_data (bufs s1 b))),
        ide_writes := ide_writes s1 @ [(ide_drive p, ide_lba p, b_data (bufs s1 b))]\<rparr> else s1\<lparr>ide_ports := p\<rparr>)"
      unfolding r_def .
  qed
  moreover have "unat NBUF + 2 = Suc (Suc 10)" by (simp add: NBUF_def)
  ultimately show ?thesis
    using b x ok by (simp add: ide_rw_def ide_append_def s1_def sector_ok_def x_def del: ide_finish.simps)
qed

end
