(* ===== verification/BufCache.thy ===== *)
theory BufCache
  imports Disk
begin

text \<open>
  The buffer cache, \<^verbatim>\<open>kern/fs/bufcache.c\<close>: ten buffers in a circular list ordered by use. The
  rules at the end state the cache as a map from sectors to contents, with the sectors that
  are held and those that wait for the log to be installed; the file system above is
  verified from these rules alone.
\<close>

section \<open>The operations\<close>

definition bufcache_init :: "('z fs_state_scheme, unit) kern" where
  "bufcache_init =
     kseq (kmodify (\<lambda>s. s\<lparr>bcache_lock := spinlock_init (bcache_lock s)\<rparr>))
    (kseq (buf_put (\<lambda>x. x\<lparr>b_prev := NBUF\<rparr>) NBUF)
    (kseq (buf_put (\<lambda>x. x\<lparr>b_next := NBUF\<rparr>) NBUF)
    (kfor 0 NBUF (\<lambda>b.
       kbind (buf_get b_next NBUF) (\<lambda>hn.
       kseq (buf_put (\<lambda>x. x\<lparr>b_next := hn\<rparr>) b)
      (kseq (buf_put (\<lambda>x. x\<lparr>b_prev := NBUF\<rparr>) b)
      (kseq (buf_put (\<lambda>x. x\<lparr>b_dev := - 1\<rparr>) b)
      (kbind (buf_get b_next NBUF) (\<lambda>hn.
       kseq (buf_put (\<lambda>x. x\<lparr>b_prev := b\<rparr>) hn)
      (buf_put (\<lambda>x. x\<lparr>b_next := b\<rparr>) NBUF))))))))))"

text \<open>
  The two searches of \<^verbatim>\<open>bufcache_get\<close>, from the most recently used buffer for the sector and
  from the least recently used for one to recycle. A list longer than the number of
  buffers does not lead back to the head.
\<close>

primrec bufcache_find :: "nat \<Rightarrow> u32 \<Rightarrow> u32 \<Rightarrow> u32 \<Rightarrow> ('z fs_state_scheme, u32 option) kern" where
  "bufcache_find 0 b dev sector = kfail Spin"
| "bufcache_find (Suc k) b dev sector =
     (if b = NBUF then kret None
      else kbind (buf_get b_dev b) (\<lambda>d. kbind (buf_get b_sector b) (\<lambda>n.
        if d = dev \<and> n = sector then kret (Some b)
        else kbind (buf_get b_next b) (\<lambda>b'. bufcache_find k b' dev sector))))"

primrec bufcache_recycle :: "nat \<Rightarrow> u32 \<Rightarrow> ('z fs_state_scheme, u32 option) kern" where
  "bufcache_recycle 0 b = kfail Spin"
| "bufcache_recycle (Suc k) b =
     (if b = NBUF then kret None
      else kbind (buf_get b_flags b) (\<lambda>fl.
        if fl AND B_BUSY = 0 \<and> fl AND B_DIRTY = 0 then kret (Some b)
        else kbind (buf_get b_prev b) (\<lambda>b'. bufcache_recycle k b')))"

text \<open>
  A buffer in use is waited for with \<^verbatim>\<open>thread_sleep\<close>: the run of this thread stops there until
  another thread releases the buffer.
\<close>

definition bufcache_get :: "u32 \<Rightarrow> u32 \<Rightarrow> ('z fs_state_scheme, u32) kern" where
  "bufcache_get dev sector =
     kseq (klock_op spinlock_acquire bcache_lock (\<lambda>l s. s\<lparr>bcache_lock := l\<rparr>))
    (kbind (buf_get b_next NBUF) (\<lambda>h.
     kbind (bufcache_find (unat NBUF + 1) h dev sector) (\<lambda>r. case r of
       Some b \<Rightarrow>
         kbind (buf_get b_flags b) (\<lambda>fl.
           if fl AND B_BUSY = 0 then
             kseq (buf_put (\<lambda>x. x\<lparr>b_flags := b_flags x OR B_BUSY\<rparr>) b)
            (kseq (klock_op spinlock_release bcache_lock (\<lambda>l s. s\<lparr>bcache_lock := l\<rparr>)) (kret b))
           else kbind (buf_addr b) (\<lambda>chan. kfail (Sleep chan)))
     | None \<Rightarrow>
         kbind (buf_get b_prev NBUF) (\<lambda>h.
         kbind (bufcache_recycle (unat NBUF + 1) h) (\<lambda>r. case r of
           Some b \<Rightarrow>
             kseq (buf_put (\<lambda>x. x\<lparr>b_dev := dev\<rparr>) b)
            (kseq (buf_put (\<lambda>x. x\<lparr>b_sector := sector\<rparr>) b)
            (kseq (buf_put (\<lambda>x. x\<lparr>b_flags := B_BUSY\<rparr>) b)
            (kseq (klock_op spinlock_release bcache_lock (\<lambda>l s. s\<lparr>bcache_lock := l\<rparr>)) (kret b))))
         | None \<Rightarrow> kfail (KERN_PANIC ''bufcache_get: no buffers''))))))"

definition bufcache_read :: "u32 \<Rightarrow> u32 \<Rightarrow> ('z fs_state_scheme, u32) kern" where
  "bufcache_read dev sector =
     kbind (bufcache_get dev sector) (\<lambda>b.
     kbind (buf_get b_flags b) (\<lambda>fl.
     kseq (if fl AND B_VALID = 0 then ide_rw b else kret ()) (kret b)))"

definition bufcache_write :: "u32 \<Rightarrow> ('z fs_state_scheme, unit) kern" where
  "bufcache_write b =
     kbind (buf_get b_flags b) (\<lambda>fl.
     kseq (kguard (fl AND B_BUSY \<noteq> 0) (KERN_PANIC ''bwrite''))
    (kseq (buf_put (\<lambda>x. x\<lparr>b_flags := b_flags x OR B_DIRTY\<rparr>) b) (ide_rw b)))"

text \<open>The six assignments of \<^verbatim>\<open>bufcache_release\<close> that move a buffer to the front of the list.\<close>

definition to_front :: "u32 \<Rightarrow> ('z fs_state_scheme, unit) kern" where
  "to_front b =
     kbind (buf_get b_next b) (\<lambda>nx. kbind (buf_get b_prev b) (\<lambda>pv.
     kseq (buf_put (\<lambda>x. x\<lparr>b_prev := pv\<rparr>) nx)
    (kbind (buf_get b_prev b) (\<lambda>pv. kbind (buf_get b_next b) (\<lambda>nx.
     kseq (buf_put (\<lambda>x. x\<lparr>b_next := nx\<rparr>) pv)
    (kbind (buf_get b_next NBUF) (\<lambda>hn.
     kseq (buf_put (\<lambda>x. x\<lparr>b_next := hn\<rparr>) b)
    (kseq (buf_put (\<lambda>x. x\<lparr>b_prev := NBUF\<rparr>) b)
    (kbind (buf_get b_next NBUF) (\<lambda>hn.
     kseq (buf_put (\<lambda>x. x\<lparr>b_prev := b\<rparr>) hn)
    (buf_put (\<lambda>x. x\<lparr>b_next := b\<rparr>) NBUF)))))))))))"

definition bufcache_release :: "u32 \<Rightarrow> ('z fs_state_scheme, unit) kern" where
  "bufcache_release b =
     kbind (buf_get b_flags b) (\<lambda>fl.
     kseq (kguard (fl AND B_BUSY \<noteq> 0) (KERN_PANIC ''brelse''))
    (kseq (klock_op spinlock_acquire bcache_lock (\<lambda>l s. s\<lparr>bcache_lock := l\<rparr>))
    (kseq (to_front b)
    (kseq (buf_put (\<lambda>x. x\<lparr>b_flags := b_flags x AND NOT B_BUSY\<rparr>) b)
    (kseq (kbind (buf_addr b) thread_wakeup)
    (klock_op spinlock_release bcache_lock (\<lambda>l s. s\<lparr>bcache_lock := l\<rparr>)))))))"

section \<open>The list of buffers\<close>

type_synonym bkey = "u32 \<times> u32"

abbreviation bkey_of :: "buf \<Rightarrow> bkey" where
  "bkey_of x \<equiv> (b_dev x, b_sector x)"

definition lru :: "'z fs_state_scheme \<Rightarrow> u32 list \<Rightarrow> bool" where
  "lru s xs \<longleftrightarrow> dlc NBUF (\<lambda>i. b_next (bufs s i)) (\<lambda>i. b_prev (bufs s i)) xs \<and> set xs = {i. i < NBUF}"

lemma NBUF_set: "{i. i < NBUF} = {0, 1, 2, 3, 4, 5, 6, 7, 8, 9}"
proof (intro set_eqI iffI)
  fix i assume "i \<in> {i. i < NBUF}"
  then have "unat i < 10" by (simp add: NBUF_def word_less_nat_alt)
  then have "unat i \<in> {0, 1, 2, 3, 4, 5, 6, 7, 8, 9}" by simp presburger
  then show "i \<in> {0, 1, 2, 3, 4, 5, 6, 7, 8, 9}"
    by (auto dest!: arg_cong [where f = "of_nat :: nat \<Rightarrow> u32"])
qed (auto simp: NBUF_def)

lemma card_NBUF: "card {i. i < NBUF} = 10" "finite {i. i < NBUF}"
  unfolding NBUF_set by simp_all

lemma lru_length: "lru s xs \<Longrightarrow> length xs = 10"
  using card_NBUF by (metis distinct_card dlc_def lru_def)

lemma less_NBUF_le [simp]: "i < NBUF \<Longrightarrow> i \<le> NBUF"
  by simp

lemma bufcache_find_ok:
  "dls (\<lambda>i. b_next (bufs s i)) pv p xs NBUF \<Longrightarrow> \<forall>i \<in> set xs. i < NBUF \<Longrightarrow> length xs < k \<Longrightarrow>
   bufcache_find k (fst_or NBUF xs) d n s = Inr (List.find (\<lambda>i. bkey_of (bufs s i) = (d, n)) xs, s)"
proof (induction xs arbitrary: p k)
  case Nil
  then show ?case by (cases k) simp_all
next
  case (Cons x xs)
  then obtain k' where "k = Suc k'" by (cases k) auto
  with Cons show ?case by auto
qed

lemma dls_rev: "dls nx pv p (xs @ [x]) n \<longleftrightarrow> dls nx pv p xs x \<and> pv x = lst_or p xs \<and> nx x = n"
  by (simp add: dls_append)

lemma bufcache_recycle_ok:
  "dls nx (\<lambda>i. b_prev (bufs s i)) NBUF xs n \<Longrightarrow> \<forall>i \<in> set xs. i < NBUF \<Longrightarrow> length xs < k \<Longrightarrow>
   bufcache_recycle k (lst_or NBUF xs) s =
     Inr (List.find (\<lambda>i. \<not> bit (b_flags (bufs s i)) 0 \<and> \<not> bit (b_flags (bufs s i)) 2) (rev xs), s)"
proof (induction xs arbitrary: n k rule: rev_induct)
  case Nil
  then show ?case by (cases k) simp_all
next
  case (snoc x xs)
  then obtain k' where "k = Suc k'" by (cases k) auto
  with snoc show ?case by (auto simp: dls_rev)
qed

section \<open>The cache as a map\<close>

text \<open>
  \<open>bc c s M B D\<close>: the cache and the disk together hold the contents \<open>M\<close>, the sectors \<open>B\<close> are
  held by the running thread, and the sectors \<open>D\<close> are marked dirty. Elsewhere the disk
  has the contents. \<open>holds s i k\<close> says that buffer \<open>i\<close> is held for sector \<open>k\<close>.
\<close>

definition bc :: "u32 \<Rightarrow> 'z fs_state_scheme \<Rightarrow> (bkey \<Rightarrow> memory) \<Rightarrow> bkey set \<Rightarrow> bkey set \<Rightarrow> bool" where
  "bc c s M B D \<longleftrightarrow> fs_ok c s \<and> (\<exists>xs. lru s xs) \<and>
     (\<forall>i < NBUF. if bit (b_flags (bufs s i)) 1 then b_dev (bufs s i) \<noteq> - 1 \<and> b_data (bufs s i) = M (bkey_of (bufs s i))
        else b_dev (bufs s i) = - 1 \<and> \<not> bit (b_flags (bufs s i)) 0 \<and> \<not> bit (b_flags (bufs s i)) 2) \<and>
     inj_on (\<lambda>i. bkey_of (bufs s i)) {i. i < NBUF \<and> bit (b_flags (bufs s i)) 1} \<and>
     B = {bkey_of (bufs s i) | i. i < NBUF \<and> bit (b_flags (bufs s i)) 0} \<and>
     D = {bkey_of (bufs s i) | i. i < NBUF \<and> bit (b_flags (bufs s i)) 2} \<and>
     (\<forall>d n. (d, n) \<notin> B \<union> D \<longrightarrow> M (d, n) = disk s d n)"

definition holds :: "'z fs_state_scheme \<Rightarrow> u32 \<Rightarrow> bkey \<Rightarrow> bool" where
  "holds s i k \<longleftrightarrow> i < NBUF \<and> bit (b_flags (bufs s i)) 0 \<and> bkey_of (bufs s i) = k"

lemma bc_held: "bc c s M B D \<Longrightarrow> holds s i k \<Longrightarrow> b_data (bufs s i) = M k \<and> bit (b_flags (bufs s i)) 1 \<and> k \<in> B"
  unfolding bc_def holds_def by (metis (mono_tags, lifting) mem_Collect_eq)

lemma sector_ok_keep: "fs_keep s t \<Longrightarrow> sector_ok t d n = sector_ok s d n"
  by (simp add: fs_keep_def fs_base_def sector_ok_def)

lemma sector_ok_dev: "sector_ok s d n \<Longrightarrow> d \<noteq> - 1"
  by (auto simp: sector_ok_def)

lemma lru_cong:
  assumes "\<And>i. b_next (bufs t i) = b_next (bufs s i)" "\<And>i. b_prev (bufs t i) = b_prev (bufs s i)"
  shows "lru t xs = lru s xs"
  using assms by (simp add: lru_def)

definition marked :: "nat \<Rightarrow> 'z fs_state_scheme \<Rightarrow> bkey set" where
  "marked n s = {bkey_of (bufs s i) | i. i < NBUF \<and> bit (b_flags (bufs s i)) n}"

lemma bcD:
  assumes "bc c s M B D"
  shows "fs_ok c s" "\<exists>xs. lru s xs"
    "\<And>i. i < NBUF \<Longrightarrow> bit (b_flags (bufs s i)) 1 \<Longrightarrow> b_dev (bufs s i) \<noteq> - 1 \<and> b_data (bufs s i) = M (bkey_of (bufs s i))"
    "\<And>i. i < NBUF \<Longrightarrow> \<not> bit (b_flags (bufs s i)) 1 \<Longrightarrow>
        b_dev (bufs s i) = - 1 \<and> \<not> bit (b_flags (bufs s i)) 0 \<and> \<not> bit (b_flags (bufs s i)) 2"
    "\<And>i j. i < NBUF \<Longrightarrow> j < NBUF \<Longrightarrow> bit (b_flags (bufs s i)) 1 \<Longrightarrow> bit (b_flags (bufs s j)) 1 \<Longrightarrow>
        bkey_of (bufs s i) = bkey_of (bufs s j) \<Longrightarrow> i = j"
    "B = marked 0 s" "D = marked 2 s" "\<And>d n. (d, n) \<notin> B \<union> D \<Longrightarrow> M (d, n) = disk s d n"
proof -
  show "fs_ok c s" "\<exists>xs. lru s xs" "B = marked 0 s" "D = marked 2 s" "\<And>d n. (d, n) \<notin> B \<union> D \<Longrightarrow> M (d, n) = disk s d n"
    using assms unfolding bc_def marked_def by blast+
  show "\<And>i. i < NBUF \<Longrightarrow> bit (b_flags (bufs s i)) 1 \<Longrightarrow> b_dev (bufs s i) \<noteq> - 1 \<and> b_data (bufs s i) = M (bkey_of (bufs s i))"
    "\<And>i. i < NBUF \<Longrightarrow> \<not> bit (b_flags (bufs s i)) 1 \<Longrightarrow>
        b_dev (bufs s i) = - 1 \<and> \<not> bit (b_flags (bufs s i)) 0 \<and> \<not> bit (b_flags (bufs s i)) 2"
    using assms unfolding bc_def by meson+
  show "\<And>i j. i < NBUF \<Longrightarrow> j < NBUF \<Longrightarrow> bit (b_flags (bufs s i)) 1 \<Longrightarrow> bit (b_flags (bufs s j)) 1 \<Longrightarrow>
        bkey_of (bufs s i) = bkey_of (bufs s j) \<Longrightarrow> i = j"
    using assms unfolding bc_def inj_on_def by blast
qed

lemma bcI:
  assumes "fs_ok c s" "lru s xs"
    and "\<And>i. i < NBUF \<Longrightarrow> bit (b_flags (bufs s i)) 1 \<Longrightarrow> b_dev (bufs s i) \<noteq> - 1 \<and> b_data (bufs s i) = M (bkey_of (bufs s i))"
    and "\<And>i. i < NBUF \<Longrightarrow> \<not> bit (b_flags (bufs s i)) 1 \<Longrightarrow>
        b_dev (bufs s i) = - 1 \<and> \<not> bit (b_flags (bufs s i)) 0 \<and> \<not> bit (b_flags (bufs s i)) 2"
    and "\<And>i j. i < NBUF \<Longrightarrow> j < NBUF \<Longrightarrow> bit (b_flags (bufs s i)) 1 \<Longrightarrow> bit (b_flags (bufs s j)) 1 \<Longrightarrow>
        bkey_of (bufs s i) = bkey_of (bufs s j) \<Longrightarrow> i = j"
    and "B = marked 0 s" "D = marked 2 s" "\<And>d n. (d, n) \<notin> B \<union> D \<Longrightarrow> M (d, n) = disk s d n"
  shows "bc c s M B D"
  unfolding bc_def
proof (intro conjI)
  show "inj_on (\<lambda>i. bkey_of (bufs s i)) {i. i < NBUF \<and> bit (b_flags (bufs s i)) 1}"
    using assms(5) unfolding inj_on_def by blast
qed (use assms in \<open>auto simp: marked_def\<close>)

text \<open>One buffer changes: what becomes of the marked sectors.\<close>

definition others_same :: "u32 \<Rightarrow> 'z fs_state_scheme \<Rightarrow> 'z fs_state_scheme \<Rightarrow> bool" where
  "others_same i s t \<longleftrightarrow> (\<forall>j < NBUF. j \<noteq> i \<longrightarrow> b_flags (bufs t j) = b_flags (bufs s j) \<and>
     bkey_of (bufs t j) = bkey_of (bufs s j) \<and> b_data (bufs t j) = b_data (bufs s j))"

lemma others_same_upd: "bufs t = (bufs s)(i := x) \<Longrightarrow> others_same i s t"
  by (simp add: others_same_def)

lemma marked_upd:
  assumes "others_same i s t" "i < NBUF"
  shows "marked n t = (if bit (b_flags (bufs t i)) n then {bkey_of (bufs t i)} else {}) \<union>
     {bkey_of (bufs s j) | j. j < NBUF \<and> j \<noteq> i \<and> bit (b_flags (bufs s j)) n}" (is "_ = ?r")
proof (intro set_eqI iffI)
  fix k assume "k \<in> marked n t"
  then obtain j where j: "j < NBUF" "bit (b_flags (bufs t j)) n" "k = bkey_of (bufs t j)" by (auto simp: marked_def)
  show "k \<in> ?r"
  proof (cases "j = i")
    case False
    then have "b_flags (bufs t j) = b_flags (bufs s j)" "bkey_of (bufs t j) = bkey_of (bufs s j)"
      using assms(1) j(1) unfolding others_same_def by blast+
    then show ?thesis using j False by auto
  qed (use j in simp)
next
  fix k assume "k \<in> ?r"
  then consider "bit (b_flags (bufs t i)) n" "k = bkey_of (bufs t i)" | j where "j < NBUF" "j \<noteq> i" "bit (b_flags (bufs s j)) n" "k = bkey_of (bufs s j)"
    by (auto split: if_splits)
  then show "k \<in> marked n t"
  proof cases
    case 1
    then show ?thesis using assms unfolding marked_def by (intro CollectI exI [of _ i]) simp
  next
    case 2
    then have "b_flags (bufs t j) = b_flags (bufs s j)" "bkey_of (bufs t j) = bkey_of (bufs s j)"
      using assms(1) unfolding others_same_def by blast+
    then show ?thesis using 2 unfolding marked_def by (intro CollectI exI [of _ j]) simp
  qed
qed

lemma marked_others:
  assumes "bc c s M B D" "i < NBUF" "bit (b_flags (bufs s i)) 1" "n = 0 \<or> n = 2"
  shows "{bkey_of (bufs s j) | j. j < NBUF \<and> j \<noteq> i \<and> bit (b_flags (bufs s j)) n} = marked n s - {bkey_of (bufs s i)}"
proof -
  have "bit (b_flags (bufs s j)) 1" if "j < NBUF" "bit (b_flags (bufs s j)) n" for j
    using bcD(4) [OF assms(1) that(1)] that(2) assms(4) by blast
  then show ?thesis using bcD(5) [OF assms(1)] assms(2,3) unfolding marked_def by blast
qed

text \<open>A cached buffer changes its flags or contents.\<close>

lemma bc_upd:
  fixes s t :: "'z fs_state_scheme"
  assumes s: "bc c s M B D" and i: "i < NBUF" "bit (b_flags (bufs s i)) 1" "bkey_of (bufs s i) = k"
    and t: "fs_ok c t" "lru t xs" "others_same i s t" "bkey_of (bufs t i) = k" "bit (b_flags (bufs t i)) 1"
    and d: "\<And>d n. (d, n) \<noteq> k \<Longrightarrow> disk t d n = disk s d n"
    and B': "B' = (if bit (b_flags (bufs t i)) 0 then insert k B else B - {k})"
    and D': "D' = (if bit (b_flags (bufs t i)) 2 then insert k D else D - {k})"
    and clean: "k \<notin> B' \<union> D' \<Longrightarrow> b_data (bufs t i) = disk t (fst k) (snd k)"
  shows "bc c t (M(k := b_data (bufs t i))) B' D'"
proof (rule bcI [OF t(1,2)])
  note b = bcD [OF s]
  have same: "b_flags (bufs t j) = b_flags (bufs s j)" "bkey_of (bufs t j) = bkey_of (bufs s j)"
    "b_data (bufs t j) = b_data (bufs s j)" if "j < NBUF" "j \<noteq> i" for j
    using t(3) that unfolding others_same_def by blast+
  have other: "bkey_of (bufs s j) \<noteq> k" if "j < NBUF" "j \<noteq> i" "bit (b_flags (bufs s j)) 1" for j
    using b(5) [OF that(1) i(1) that(3) i(2)] that i(3) by auto
  have dev: "fst k \<noteq> - 1" using b(3) [OF i(1,2)] i(3) by auto
  show "b_dev (bufs t j) \<noteq> - 1 \<and> b_data (bufs t j) = (M(k := b_data (bufs t i))) (bkey_of (bufs t j))"
    if "j < NBUF" "bit (b_flags (bufs t j)) 1" for j
  proof (cases "j = i")
    case True
    then show ?thesis using dev t(4) by (auto simp: fst_def)
  next
    case False
    then show ?thesis using that same [of j] b(3) [of j] other [of j] by auto
  qed
  show "b_dev (bufs t j) = - 1 \<and> \<not> bit (b_flags (bufs t j)) 0 \<and> \<not> bit (b_flags (bufs t j)) 2"
    if j: "j < NBUF" "\<not> bit (b_flags (bufs t j)) 1" for j
  proof -
    have "j \<noteq> i" using j(2) t(5) by blast
    then show ?thesis using b(4) [OF j(1)] j(2) same(1,2) [OF j(1)] by auto
  qed
  show "j = l" if j: "j < NBUF" "l < NBUF" "bit (b_flags (bufs t j)) 1" "bit (b_flags (bufs t l)) 1"
    "bkey_of (bufs t j) = bkey_of (bufs t l)" for j l
  proof (rule ccontr)
    assume "j \<noteq> l"
    moreover have "j \<noteq> i" if "l \<noteq> i" using other [OF j(2) that] same(1,2) [OF j(2) that] j(4,5) t(4) by metis
    moreover have "l \<noteq> i" if "j \<noteq> i" using other [OF j(1) that] same(1,2) [OF j(1) that] j(3,5) t(4) by metis
    ultimately have "j \<noteq> i" "l \<noteq> i" by blast+
    with j show False using b(5) [OF j(1,2)] same(1,2) [OF j(1)] same(1,2) [OF j(2)] \<open>j \<noteq> l\<close> by metis
  qed
  show "B' = marked 0 t" "D' = marked 2 t"
    unfolding B' D' marked_upd [OF t(3) i(1)] using marked_others [OF s i(1,2)] b(6,7) i(3) t(4) by auto
  show "(M(k := b_data (bufs t i))) (d', n) = disk t d' n" if "(d', n) \<notin> B' \<union> D'" for d' n
    using that clean d [of d' n] b(8) [of d' n] unfolding B' D' by (cases "(d', n) = k") (auto split: if_splits)
qed

text \<open>A buffer nobody holds is reused for a sector that is not cached.\<close>

lemma bc_new:
  fixes s t :: "'z fs_state_scheme"
  assumes s: "bc c s M B D" and i: "i < NBUF" "\<not> bit (b_flags (bufs s i)) 0" "\<not> bit (b_flags (bufs s i)) 2"
    and new: "\<And>j. j < NBUF \<Longrightarrow> bkey_of (bufs s j) \<noteq> k" "fst k \<noteq> - 1"
    and t: "fs_ok c t" "lru t xs" "others_same i s t" "bkey_of (bufs t i) = k" "disk t = disk s"
      "bit (b_flags (bufs t i)) 0" "bit (b_flags (bufs t i)) 1" "\<not> bit (b_flags (bufs t i)) 2" "b_data (bufs t i) = M k"
  shows "bc c t M (insert k B) D"
proof (rule bcI [OF t(1,2)])
  note b = bcD [OF s]
  have same: "b_flags (bufs t j) = b_flags (bufs s j)" "bkey_of (bufs t j) = bkey_of (bufs s j)"
    "b_data (bufs t j) = b_data (bufs s j)" if "j < NBUF" "j \<noteq> i" for j
    using t(3) that unfolding others_same_def by blast+
  show "b_dev (bufs t j) \<noteq> - 1 \<and> b_data (bufs t j) = M (bkey_of (bufs t j))"
    if "j < NBUF" "bit (b_flags (bufs t j)) 1" for j
    using that same [of j] b(3) [of j] new(2) t(4,9) by (cases "j = i") auto
  show "b_dev (bufs t j) = - 1 \<and> \<not> bit (b_flags (bufs t j)) 0 \<and> \<not> bit (b_flags (bufs t j)) 2"
    if j: "j < NBUF" "\<not> bit (b_flags (bufs t j)) 1" for j
  proof -
    have "j \<noteq> i" using j(2) t(7) by blast
    then show ?thesis using b(4) [OF j(1)] j(2) same(1,2) [OF j(1)] by auto
  qed
  show "j = l" if j: "j < NBUF" "l < NBUF" "bit (b_flags (bufs t j)) 1" "bit (b_flags (bufs t l)) 1"
    "bkey_of (bufs t j) = bkey_of (bufs t l)" for j l
  proof (rule ccontr)
    assume "j \<noteq> l"
    moreover have "j \<noteq> i" if "l \<noteq> i" using new(1) [OF j(2)] same(2) [OF j(2) that] j(5) t(4) by metis
    moreover have "l \<noteq> i" if "j \<noteq> i" using new(1) [OF j(1)] same(2) [OF j(1) that] j(5) t(4) by metis
    ultimately have "j \<noteq> i" "l \<noteq> i" by blast+
    with j show False using b(5) [OF j(1,2)] same(1,2) [OF j(1)] same(1,2) [OF j(2)] \<open>j \<noteq> l\<close> by metis
  qed
  have m: "{bkey_of (bufs s j) | j. j < NBUF \<and> j \<noteq> i \<and> bit (b_flags (bufs s j)) n} = marked n s" if "n = 0 \<or> n = 2" for n
    using that i unfolding marked_def by blast
  show "insert k B = marked 0 t" "D = marked 2 t"
    unfolding marked_upd [OF t(3) i(1)] using m b(6,7) t(4,6,8) by auto
  show "M (d', n) = disk t d' n" if "(d', n) \<notin> insert k B \<union> D" for d' n
    using that b(8) [of d' n] t(5) by auto
qed

lemma bc_cached:
  assumes "bc c s M B D" "k \<in> B \<union> D"
  shows "\<exists>i < NBUF. bkey_of (bufs s i) = k"
  using assms(2) bcD(6,7) [OF assms(1)] unfolding marked_def by blast

lemma bc_free:
  assumes "bc c s M B D" "card (insert k (B \<union> D)) \<le> 10" "k \<notin> B \<union> D"
  shows "\<exists>i < NBUF. \<not> bit (b_flags (bufs s i)) 0 \<and> \<not> bit (b_flags (bufs s i)) 2"
proof (rule ccontr)
  assume "\<not> ?thesis"
  then have all: "bit (b_flags (bufs s i)) 0 \<or> bit (b_flags (bufs s i)) 2" if "i < NBUF" for i using that by blast
  then have v: "bit (b_flags (bufs s i)) 1" if "i < NBUF" for i using bcD(4) [OF assms(1) that] that by blast
  have "inj_on (\<lambda>i. bkey_of (bufs s i)) {i. i < NBUF}"
  proof (rule inj_onI)
    fix i j assume ij: "i \<in> {i. i < NBUF}" "j \<in> {i. i < NBUF}" "bkey_of (bufs s i) = bkey_of (bufs s j)"
    have "i < NBUF" "j < NBUF" using ij(1,2) unfolding mem_Collect_eq .
    then show "i = j" using bcD(5) [OF assms(1) _ _ v v ij(3)] by blast
  qed
  then have "card ((\<lambda>i. bkey_of (bufs s i)) ` {i. i < NBUF}) = 10" using card_NBUF(1) by (rule trans [OF card_image])
  moreover have "(\<lambda>i. bkey_of (bufs s i)) ` {i. i < NBUF} = B \<union> D"
    unfolding bcD(6,7) [OF assms(1)] marked_def image_def using all by blast
  moreover have "finite (B \<union> D)" unfolding calculation(2) [symmetric] using card_NBUF(2) by (rule finite_imageI)
  ultimately show False using assms(2,3) by (simp add: card_insert_if)
qed

lemma find_set: "List.find P xs = Some x \<Longrightarrow> x \<in> set xs \<and> P x"
  by (induction xs) (auto split: if_splits)

lemma find_none: "List.find P xs = None \<longleftrightarrow> (\<forall>x \<in> set xs. \<not> P x)"
  by (induction xs) auto

section \<open>Rules for the operations\<close>

lemma fs_ok_upd:
  assumes "fs_ok c s"
  shows "fs_ok c (s\<lparr>bufs := b\<rparr>)" "lock_ready (cur_kstack s) l \<Longrightarrow> fs_ok c (s\<lparr>bufs := b, bcache_lock := l\<rparr>)"
    "lock_ready (cur_kstack s) l \<Longrightarrow> fs_ok c (s\<lparr>bcache_lock := l\<rparr>)" "ks_magic (cur_kstack s) = SPIN_KSTACK_MAGIC"
    "lock_ready (cur_kstack s) (bcache_lock s)"
  using assms lock_ready_magic by (auto simp: fs_ok_def)

lemma lru_ends:
  assumes "lru s xs"
  shows "b_next (bufs s NBUF) = fst_or NBUF xs" "b_prev (bufs s NBUF) = lst_or NBUF xs"
    "dls (\<lambda>i. b_next (bufs s i)) (\<lambda>i. b_prev (bufs s i)) NBUF xs NBUF" "\<forall>i \<in> set xs. i < NBUF" "length xs < unat NBUF + 1"
  using assms lru_length [OF assms] by (auto simp: lru_def dlc_def NBUF_def)

lemma bufcache_get_wp:
  fixes s :: "'z fs_state_scheme"
  assumes s: "bc c s M B D" and k: "(d, n) \<notin> B" "sector_ok s d n" "card (insert (d, n) (B \<union> D)) \<le> 10"
    and hit: "\<And>i t. i < NBUF \<Longrightarrow> bkey_of (bufs s i) = (d, n) \<Longrightarrow> bit (b_flags (bufs s i)) 1 \<Longrightarrow>
      t = s\<lparr>bufs := (bufs s)(i := (bufs s i)\<lparr>b_flags := b_flags (bufs s i) OR B_BUSY\<rparr>), bcache_lock := spinlock_release_A (bcache_lock s)\<rparr> \<Longrightarrow> Q i t"
    and miss: "\<And>i t. i < NBUF \<Longrightarrow> (\<And>j. j < NBUF \<Longrightarrow> bkey_of (bufs s j) \<noteq> (d, n)) \<Longrightarrow>
      \<not> bit (b_flags (bufs s i)) 0 \<Longrightarrow> \<not> bit (b_flags (bufs s i)) 2 \<Longrightarrow>
      t = s\<lparr>bufs := (bufs s)(i := (bufs s i)\<lparr>b_dev := d, b_sector := n, b_flags := B_BUSY\<rparr>), bcache_lock := spinlock_release_A (bcache_lock s)\<rparr> \<Longrightarrow> Q i t"
  shows "kwp (bufcache_get d n) Q s"
proof -
  obtain xs where xs: "lru s xs" using bcD(2) [OF s] by blast
  note e = lru_ends [OF xs]
  have all: "set xs = {i. i < NBUF}" using xs by (simp add: lru_def)
  let ?s1 = "s\<lparr>bcache_lock := taken (cur_kstack s) (bcache_lock s)\<rparr>"
  have lk: "lock_ready (cur_kstack s) (bcache_lock s)" using fs_ok_upd(5) [OF bcD(1) [OF s]] .
  have find: "bufcache_find (unat NBUF + 1) (b_next (bufs s NBUF)) d n ?s1 = Inr (List.find (\<lambda>i. bkey_of (bufs s i) = (d, n)) xs, ?s1)"
    using bufcache_find_ok [of ?s1, OF _ e(4,5)] e(1,3) by simp
  show ?thesis
  proof (cases "List.find (\<lambda>i. bkey_of (bufs s i) = (d, n)) xs")
    case (Some i)
    then have i: "i < NBUF" "bkey_of (bufs s i) = (d, n)" using find_set [OF Some] e(4) by auto
    have v: "bit (b_flags (bufs s i)) 1" using bcD(4) [OF s i(1)] i(2) sector_ok_dev [OF k(2)] by auto
    have "\<not> bit (b_flags (bufs s i)) 0" using k(1) i unfolding bcD(6) [OF s] marked_def by blast
    then show ?thesis
      using hit [OF i v refl] find Some lk i(1)
      by (simp add: bufcache_get_def kwp_def del: bufcache_find.simps)
  next
    case None
    then have none: "bkey_of (bufs s j) \<noteq> (d, n)" if "j < NBUF" for j using that all by (simp add: find_none)
    then have "(d, n) \<notin> B \<union> D" using bc_cached [OF s] by blast
    then obtain j where j: "j < NBUF" "\<not> bit (b_flags (bufs s j)) 0 \<and> \<not> bit (b_flags (bufs s j)) 2"
      using bc_free [OF s k(3)] by blast
    define fr where "fr = (\<lambda>i. \<not> bit (b_flags (bufs s i)) 0 \<and> \<not> bit (b_flags (bufs s i)) 2)"
    obtain i where r: "List.find fr (rev xs) = Some i"
      using j all by (cases "List.find fr (rev xs)") (auto simp: find_none fr_def)
    then have i: "i < NBUF" "\<not> bit (b_flags (bufs s i)) 0" "\<not> bit (b_flags (bufs s i)) 2"
      using find_set [OF r] e(4) by (auto simp: fr_def)
    have "bufcache_recycle (unat NBUF + 1) (b_prev (bufs s NBUF)) ?s1 = Inr (Some i, ?s1)"
      using bufcache_recycle_ok [of _ ?s1, OF _ e(4,5)] e(2,3) r by (simp add: fr_def)
    then show ?thesis
      using miss [OF i(1) none i(2,3) refl] find None lk i(1)
      by (simp add: bufcache_get_def kwp_def del: bufcache_find.simps bufcache_recycle.simps)
  qed
qed

lemma lru_upd:
  assumes "bufs t = (bufs s)(i := x)" "b_next x = b_next (bufs s i)" "b_prev x = b_prev (bufs s i)"
  shows "lru t xs = lru s xs"
  by (rule lru_cong) (use assms in auto)

lemma holds_upd:
  assumes "bufs t = (bufs s)(i := x)" "bit (b_flags x) 0 = bit (b_flags (bufs s i)) 0" "bkey_of x = bkey_of (bufs s i)"
  shows "holds t j k = holds s j k"
  using assms by (simp add: holds_def)

lemma bc_marked:
  assumes "bc c s M B D" "i < NBUF" "bit (b_flags (bufs s i)) 1"
  shows "bkey_of (bufs s i) \<in> B \<longleftrightarrow> bit (b_flags (bufs s i)) 0" "bkey_of (bufs s i) \<in> D \<longleftrightarrow> bit (b_flags (bufs s i)) 2"
proof -
  have "bkey_of (bufs s i) \<in> marked n s \<longleftrightarrow> bit (b_flags (bufs s i)) n" if n: "n = 0 \<or> n = 2" for n
  proof
    assume "bkey_of (bufs s i) \<in> marked n s"
    then obtain j where j: "j < NBUF" "bit (b_flags (bufs s j)) n" "bkey_of (bufs s i) = bkey_of (bufs s j)"
      unfolding marked_def by blast
    have "bit (b_flags (bufs s j)) 1" using bcD(4) [OF assms(1) j(1)] j(2) n by blast
    from bcD(5) [OF assms(1,2) j(1) assms(3) this j(3)] show "bit (b_flags (bufs s i)) n" using j(2) by simp
  next
    assume "bit (b_flags (bufs s i)) n"
    then show "bkey_of (bufs s i) \<in> marked n s" using assms(2) unfolding marked_def by blast
  qed
  then show "bkey_of (bufs s i) \<in> B \<longleftrightarrow> bit (b_flags (bufs s i)) 0" "bkey_of (bufs s i) \<in> D \<longleftrightarrow> bit (b_flags (bufs s i)) 2"
    unfolding bcD(6,7) [OF assms(1)] by blast+
qed

text \<open>A cached buffer changes, and no links do.\<close>

lemma bc_put:
  fixes s t :: "'z fs_state_scheme"
  assumes s: "bc c s M B D" and i: "i < NBUF" "bit (b_flags (bufs s i)) 1" "bkey_of (bufs s i) = k"
    and t: "fs_ok c t" "bufs t = (bufs s)(i := x)" "b_next x = b_next (bufs s i)" "b_prev x = b_prev (bufs s i)"
      "bkey_of x = k" "bit (b_flags x) 1"
    and d: "\<And>d n. (d, n) \<noteq> k \<Longrightarrow> disk t d n = disk s d n"
    and clean: "\<not> bit (b_flags x) 0 \<Longrightarrow> \<not> bit (b_flags x) 2 \<Longrightarrow> b_data x = disk t (fst k) (snd k)"
  shows "bc c t (M(k := b_data x)) (if bit (b_flags x) 0 then insert k B else B - {k})
    (if bit (b_flags x) 2 then insert k D else D - {k})"
proof -
  obtain xs where xs: "lru s xs" using bcD(2) [OF s] by blast
  have x: "bufs t i = x" using t(2) by simp
  have l: "lru t xs" using xs lru_upd [OF t(2-4)] by simp
  show ?thesis
    using bc_upd [OF s i t(1) l others_same_upd [OF t(2)] _ _ d refl refl] t(5,6) clean unfolding x
    by (auto split: if_splits)
qed

lemma bc_hit:
  fixes s t :: "'z fs_state_scheme"
  assumes s: "bc c s M B D" and i: "i < NBUF" "bit (b_flags (bufs s i)) 1" "bkey_of (bufs s i) = k"
    and t: "t = s\<lparr>bufs := (bufs s)(i := (bufs s i)\<lparr>b_flags := b_flags (bufs s i) OR B_BUSY\<rparr>), bcache_lock := spinlock_release_A (bcache_lock s)\<rparr>"
  shows "bc c t M (insert k B) D" "holds t i k" "holds s j k' \<Longrightarrow> holds t j k'"
proof -
  let ?x = "(bufs s i)\<lparr>b_flags := b_flags (bufs s i) OR B_BUSY\<rparr>"
  note ok = bcD(1) [OF s]
  have bt: "bufs t = (bufs s)(i := ?x)" and dt: "disk t = disk s" by (simp_all add: t)
  have "fs_ok c t" unfolding t by (rule fs_ok_upd(2) [OF ok]) (use fs_ok_upd(4) [OF ok] in simp)
  from bc_put [OF s i this bt] have "bc c t (M(k := b_data ?x)) (insert k B) (if bit (b_flags ?x) 2 then insert k D else D - {k})"
    using i dt by (simp add: bit_simps)
  moreover have "(if bit (b_flags ?x) 2 then insert k D else D - {k}) = D"
    using bc_marked(2) [OF s i(1,2)] i(3) by (auto simp: bit_simps)
  moreover have "M(k := b_data ?x) = M" using bcD(3) [OF s i(1,2)] i(3) by auto
  ultimately show "bc c t M (insert k B) D" by simp
  show "holds t i k" using i by (auto simp: holds_def bt bit_simps)
  show "holds s j k' \<Longrightarrow> holds t j k'" by (cases "j = i") (auto simp: holds_def bt bit_simps)
qed

lemma bc_miss:
  fixes s t u :: "'z fs_state_scheme"
  assumes s: "bc c s M B D" and i: "i < NBUF" "\<not> bit (b_flags (bufs s i)) 0" "\<not> bit (b_flags (bufs s i)) 2"
    and new: "\<And>j. j < NBUF \<Longrightarrow> bkey_of (bufs s j) \<noteq> (d, n)" "d \<noteq> - 1"
    and u: "fs_ok c u" "disk u = disk s"
      "bufs u = (bufs s)(i := synced ((bufs s i)\<lparr>b_dev := d, b_sector := n, b_flags := B_BUSY\<rparr>) (disk s d n))"
  shows "bc c u M (insert (d, n) B) D" "holds u i (d, n)" "holds s j k' \<Longrightarrow> holds u j k'"
proof -
  obtain xs where xs: "lru s xs" using bcD(2) [OF s] by blast
  have nk: "(d, n) \<notin> B \<union> D" using bc_cached [OF s] new(1) by blast
  have x: "bufs u i = synced ((bufs s i)\<lparr>b_dev := d, b_sector := n, b_flags := B_BUSY\<rparr>) (disk s d n)" by (simp add: u(3))
  show "bc c u M (insert (d, n) B) D"
  proof (rule bc_new [OF s i new(1) _ u(1)])
    show "lru u xs" using xs lru_upd [OF u(3)] by (simp add: synced_def)
    show "others_same i s u" by (rule others_same_upd [OF u(3)])
    show "b_data (bufs u i) = M (d, n)" using bcD(8) [OF s nk] by (simp add: x synced_def)
  qed (simp_all add: new(2) u(2) x synced_def bit_simps)
  show "holds u i (d, n)" using i by (simp add: holds_def x synced_def bit_simps)
  show "holds s j k' \<Longrightarrow> holds u j k'" using i(2) by (cases "j = i") (auto simp: holds_def u(3))
qed

lemma bufcache_read_wp:
  fixes s :: "'z fs_state_scheme"
  assumes s: "bc c s M B D" and k: "(d, n) \<notin> B" "sector_ok s d n" "card (insert (d, n) (B \<union> D)) \<le> 10"
    and Q: "\<And>i t. bc c t M (insert (d, n) B) D \<Longrightarrow> holds t i (d, n) \<Longrightarrow> fs_keep s t \<Longrightarrow> disk t = disk s \<Longrightarrow>
      ide_writes t = ide_writes s \<Longrightarrow> (\<And>j k. holds s j k \<Longrightarrow> holds t j k) \<Longrightarrow> Q i t"
  shows "kwp (bufcache_read d n) Q s"
proof -
  have "kwp (bufcache_get d n) (\<lambda>b. kwp (buf_get b_flags b) (\<lambda>fl. kwp (if fl AND B_VALID = 0 then ide_rw b else kret ()) (\<lambda>_. Q b))) s"
  proof (rule bufcache_get_wp [OF s k])
    fix i t
    assume i: "i < NBUF" "bkey_of (bufs s i) = (d, n)" "bit (b_flags (bufs s i)) 1"
      and t: "t = s\<lparr>bufs := (bufs s)(i := (bufs s i)\<lparr>b_flags := b_flags (bufs s i) OR B_BUSY\<rparr>), bcache_lock := spinlock_release_A (bcache_lock s)\<rparr>"
    have "Q i t"
      by (rule Q [OF bc_hit(1,2) [OF s i(1,3,2) t]]) (simp_all add: t bc_hit(3) [OF s i(1,3,2) t, unfolded t])
    then show "kwp (buf_get b_flags i) (\<lambda>fl. kwp (if fl AND B_VALID = 0 then ide_rw i else kret ()) (\<lambda>_. Q i)) t"
      using i by (simp add: t bit_simps)
  next
    fix i t
    assume i: "i < NBUF" "\<And>j. j < NBUF \<Longrightarrow> bkey_of (bufs s j) \<noteq> (d, n)" "\<not> bit (b_flags (bufs s i)) 0" "\<not> bit (b_flags (bufs s i)) 2"
      and t: "t = s\<lparr>bufs := (bufs s)(i := (bufs s i)\<lparr>b_dev := d, b_sector := n, b_flags := B_BUSY\<rparr>), bcache_lock := spinlock_release_A (bcache_lock s)\<rparr>"
    have xt: "bufs t i = (bufs s i)\<lparr>b_dev := d, b_sector := n, b_flags := B_BUSY\<rparr>" by (simp add: t)
    note ok = bcD(1) [OF s]
    have "fs_ok c t" unfolding t by (rule fs_ok_upd(2) [OF ok]) (use fs_ok_upd(4) [OF ok] in simp)
    then have "kwp (ide_rw i) (\<lambda>_. Q i) t"
    proof (rule ide_rw_wp [OF xt less_NBUF_le [OF i(1)]], simp_all del: less_NBUF_le)
      show "sector_ok t d n" using k(2) by (simp add: t sector_ok_def)
      fix u
      assume u: "fs_ok c u" "fs_keep t u" "disk u = disk t" "ide_writes u = ide_writes t"
        and "bufs u = (bufs t)(i := synced ((bufs s i)\<lparr>b_dev := d, b_sector := n, b_flags := B_BUSY\<rparr>) (disk t d n))"
      then have eq: "disk u = disk s" "ide_writes u = ide_writes s"
        "bufs u = (bufs s)(i := synced ((bufs s i)\<lparr>b_dev := d, b_sector := n, b_flags := B_BUSY\<rparr>) (disk s d n))"
        by (simp_all add: t)
      note miss = bc_miss [OF s i(1,3,4,2) sector_ok_dev [OF k(2)] u(1) eq(1,3)]
      have "fs_keep s u" using u(2) fs_keep_trans [of s t u] by (simp add: t)
      from Q [OF miss(1,2) this eq(1,2)] show "Q i u" using miss(3) by blast
    qed
    then show "kwp (buf_get b_flags i) (\<lambda>fl. kwp (if fl AND B_VALID = 0 then ide_rw i else kret ()) (\<lambda>_. Q i)) t"
      using i(1) by (simp add: t)
  qed
  then show ?thesis by (simp add: bufcache_read_def)
qed

lemma bufcache_write_wp:
  fixes s :: "'z fs_state_scheme"
  assumes s: "bc c s M B D" and i: "holds s i (d, n)" "sector_ok s d n"
    and Q: "\<And>t. bc c t M B (D - {(d, n)}) \<Longrightarrow> fs_keep s t \<Longrightarrow> disk t = disk_upd (disk s) d n (M (d, n)) \<Longrightarrow>
      ide_writes t = ide_writes s @ [(d, n, M (d, n))] \<Longrightarrow> (\<And>j k. holds t j k = holds s j k) \<Longrightarrow> Q () t"
  shows "kwp (bufcache_write i) Q s"
proof -
  let ?x = "(bufs s i)\<lparr>b_flags := b_flags (bufs s i) OR B_DIRTY\<rparr>"
  let ?t = "s\<lparr>bufs := (bufs s)(i := ?x)\<rparr>"
  have lt: "i < NBUF" "bit (b_flags (bufs s i)) 0" "bkey_of (bufs s i) = (d, n)" using i by (auto simp: holds_def)
  have held: "b_data (bufs s i) = M (d, n)" "bit (b_flags (bufs s i)) 1" "(d, n) \<in> B" using bc_held [OF s i(1)] by auto
  have xt: "bufs ?t i = ?x" by simp
  have "kwp (ide_rw i) Q ?t"
  proof (rule ide_rw_wp [OF xt less_NBUF_le [OF lt(1)]])
    show "fs_ok c ?t" by (rule fs_ok_upd(1) [OF bcD(1) [OF s]])
    show "sector_ok ?t (b_dev ?x) (b_sector ?x)" using i(2) lt(3) by (simp add: sector_ok_def)
    fix u
    assume u: "fs_ok c u" "fs_keep ?t u" "bufs u = (bufs ?t)(i := synced ?x (disk ?t (b_dev ?x) (b_sector ?x)))"
      "disk u = (if bit (b_flags ?x) 2 then disk_upd (disk ?t) (b_dev ?x) (b_sector ?x) (b_data ?x) else disk ?t)"
      "ide_writes u = ide_writes ?t @ (if bit (b_flags ?x) 2 then [(b_dev ?x, b_sector ?x, b_data ?x)] else [])"
    let ?y = "synced ?x (disk ?t (b_dev ?x) (b_sector ?x))"
    have y: "bufs u = (bufs s)(i := ?y)" "b_next ?y = b_next (bufs s i)" "b_prev ?y = b_prev (bufs s i)" "bkey_of ?y = (d, n)"
      "bit (b_flags ?y) 1" "bit (b_flags ?y) 0" "\<not> bit (b_flags ?y) 2" "b_data ?y = M (d, n)"
      using u(3) lt held by (simp_all add: synced_def bit_simps)
    have du: "disk u = disk_upd (disk s) d n (M (d, n))" "ide_writes u = ide_writes s @ [(d, n, M (d, n))]"
      using u(4,5) lt(3) held(1) by (simp_all add: bit_simps)
    have "bc c u M B (D - {(d, n)})"
      using bc_put [OF s lt(1) held(2) lt(3) u(1) y(1-5)] y(6-8) held(3) du(1)
      by (auto simp: insert_absorb disk_upd_def)
    then show "Q () u"
    proof (rule Q)
      show "fs_keep s u" using u(2) fs_keep_trans [of s ?t u] by simp
      show "holds u j k = holds s j k" for j k using y lt by (auto simp: holds_def)
    qed (use du in simp_all)
  qed (use lt in \<open>simp_all add: bit_simps\<close>)
  then show ?thesis using lt by (simp add: bufcache_write_def)
qed

text \<open>Changing the contents of a held buffer, and marking it dirty.\<close>

lemma buf_data_wp:
  fixes s :: "'z fs_state_scheme"
  assumes s: "bc c s M B D" and i: "holds s i k"
    and Q: "\<And>t. bc c t (M(k := f (M k))) B D \<Longrightarrow> fs_keep s t \<Longrightarrow> disk t = disk s \<Longrightarrow> ide_writes t = ide_writes s \<Longrightarrow>
      (\<And>j k. holds t j k = holds s j k) \<Longrightarrow> Q () t"
  shows "kwp (buf_put (\<lambda>x. x\<lparr>b_data := f (b_data x)\<rparr>) i) Q s"
proof -
  let ?x = "(bufs s i)\<lparr>b_data := f (b_data (bufs s i))\<rparr>"
  let ?t = "s\<lparr>bufs := (bufs s)(i := ?x)\<rparr>"
  have lt: "i < NBUF" "bit (b_flags (bufs s i)) 0" "bkey_of (bufs s i) = k" using i by (auto simp: holds_def)
  have held: "b_data (bufs s i) = M k" "bit (b_flags (bufs s i)) 1" "k \<in> B" using bc_held [OF s i(1)] by auto
  have b: "bufs ?t = (bufs s)(i := ?x)" by simp
  have "(if bit (b_flags ?x) 2 then insert k D else D - {k}) = D"
    using bc_marked(2) [OF s lt(1) held(2)] lt(3) by auto
  then have "bc c ?t (M(k := f (M k))) B D"
    using bc_put [OF s lt(1) held(2) lt(3) fs_ok_upd(1) [OF bcD(1) [OF s]] b] lt held by (auto simp: insert_absorb)
  then have "Q () ?t" by (rule Q) (auto simp: holds_def)
  then show ?thesis using lt by simp
qed

lemma buf_dirty_wp:
  fixes s :: "'z fs_state_scheme"
  assumes s: "bc c s M B D" and i: "holds s i k"
    and Q: "\<And>t. bc c t M B (insert k D) \<Longrightarrow> fs_keep s t \<Longrightarrow> disk t = disk s \<Longrightarrow> ide_writes t = ide_writes s \<Longrightarrow>
      (\<And>j k. holds t j k = holds s j k) \<Longrightarrow> Q () t"
  shows "kwp (buf_put (\<lambda>x. x\<lparr>b_flags := b_flags x OR B_DIRTY\<rparr>) i) Q s"
proof -
  let ?x = "(bufs s i)\<lparr>b_flags := b_flags (bufs s i) OR B_DIRTY\<rparr>"
  let ?t = "s\<lparr>bufs := (bufs s)(i := ?x)\<rparr>"
  have lt: "i < NBUF" "bit (b_flags (bufs s i)) 0" "bkey_of (bufs s i) = k" using i by (auto simp: holds_def)
  have held: "b_data (bufs s i) = M k" "bit (b_flags (bufs s i)) 1" "k \<in> B" using bc_held [OF s i(1)] by auto
  have b: "bufs ?t = (bufs s)(i := ?x)" by simp
  have "bc c ?t M B (insert k D)"
    using bc_put [OF s lt(1) held(2) lt(3) fs_ok_upd(1) [OF bcD(1) [OF s]] b] lt held
    by (auto simp: insert_absorb bit_simps)
  then have "Q () ?t" by (rule Q) (auto simp: holds_def bit_simps)
  then show ?thesis using lt by simp
qed

text \<open>The links of all buffers, and what the list operations leave of a buffer.\<close>

definition nexts_of :: "'z fs_state_scheme \<Rightarrow> u32 \<Rightarrow> u32" where
  "nexts_of s = (\<lambda>i. b_next (bufs s i))"

definition prevs_of :: "'z fs_state_scheme \<Rightarrow> u32 \<Rightarrow> u32" where
  "prevs_of s = (\<lambda>i. b_prev (bufs s i))"

definition core :: "buf \<Rightarrow> u32 \<times> bkey \<times> memory" where
  "core x = (b_flags x, bkey_of x, b_data x)"

lemma links_upd [simp]:
  "nexts_of (s\<lparr>bufs := (bufs s)(i := (bufs s i)\<lparr>b_next := v\<rparr>)\<rparr>) = (nexts_of s)(i := v)"
  "prevs_of (s\<lparr>bufs := (bufs s)(i := (bufs s i)\<lparr>b_next := v\<rparr>)\<rparr>) = prevs_of s"
  "nexts_of (s\<lparr>bufs := (bufs s)(i := (bufs s i)\<lparr>b_prev := v\<rparr>)\<rparr>) = nexts_of s"
  "prevs_of (s\<lparr>bufs := (bufs s)(i := (bufs s i)\<lparr>b_prev := v\<rparr>)\<rparr>) = (prevs_of s)(i := v)"
  "nexts_of (s\<lparr>bufs := (bufs s)(i := (bufs s i)\<lparr>b_dev := w\<rparr>)\<rparr>) = nexts_of s"
  "prevs_of (s\<lparr>bufs := (bufs s)(i := (bufs s i)\<lparr>b_dev := w\<rparr>)\<rparr>) = prevs_of s"
  "nexts_of (s\<lparr>bcache_lock := l\<rparr>) = nexts_of s" "prevs_of (s\<lparr>bcache_lock := l\<rparr>) = prevs_of s"
  by (auto simp: nexts_of_def prevs_of_def fun_eq_iff)

lemma core_upd [simp]:
  "core (bufs (s\<lparr>bufs := (bufs s)(i := (bufs s i)\<lparr>b_next := v\<rparr>)\<rparr>) j) = core (bufs s j)"
  "core (bufs (s\<lparr>bufs := (bufs s)(i := (bufs s i)\<lparr>b_prev := v\<rparr>)\<rparr>) j) = core (bufs s j)"
  by (simp_all add: core_def)

lemma lru_links: "lru s xs \<longleftrightarrow> dlc NBUF (nexts_of s) (prevs_of s) xs \<and> set xs = {i. i < NBUF}"
  by (simp add: lru_def nexts_of_def prevs_of_def)

lemma get_links: "b \<le> NBUF \<Longrightarrow> buf_get b_next b s = Inr (nexts_of s b, s)" "b \<le> NBUF \<Longrightarrow> buf_get b_prev b s = Inr (prevs_of s b, s)"
  by (simp_all add: nexts_of_def prevs_of_def)

lemma to_front_ok:
  fixes s :: "'z fs_state_scheme"
  assumes l: "lru s (ys @ b # zs)"
  obtains t where "to_front b s = Inr ((), t)" "lru t (b # ys @ zs)" "\<And>j. core (bufs t j) = core (bufs s j)" "t = s\<lparr>bufs := bufs t\<rparr>"
proof -
  have d: "dlc NBUF (nexts_of s) (prevs_of s) (ys @ b # zs)" and set: "set (ys @ b # zs) = {i. i < NBUF}"
    using l by (simp_all add: lru_links)
  define nx pv where "nx = nexts_of s b" and "pv = prevs_of s b"
  have ends: "nx = fst_or NBUF zs" "pv = lst_or NBUF ys"
    using d by (auto simp: nx_def pv_def dlc_def dls_append)
  have b: "b < NBUF" "b \<noteq> NBUF" using set by auto
  have dist: "distinct (ys @ b # zs)" using d by (simp add: dlc_def)
  have sub: "set ys \<subseteq> {i. i < NBUF}" "set zs \<subseteq> {i. i < NBUF}" using set by auto
  have ne: "nx \<noteq> b" "pv \<noteq> b"
    using ends b dist fst_or_in [of zs NBUF] lst_or_in [of ys NBUF] by (cases "zs = []"; cases "ys = []"; auto)+
  have le: "nx \<le> NBUF" "pv \<le> NBUF"
    using ends sub fst_or_in [of zs NBUF] lst_or_in [of ys NBUF] by (cases "zs = []"; cases "ys = []"; auto)+
  define s1 where "s1 = s\<lparr>bufs := (bufs s)(nx := (bufs s nx)\<lparr>b_prev := pv\<rparr>)\<rparr>"
  define s2 where "s2 = s1\<lparr>bufs := (bufs s1)(pv := (bufs s1 pv)\<lparr>b_next := nx\<rparr>)\<rparr>"
  define h where "h = nexts_of s2 NBUF"
  define s3 where "s3 = s2\<lparr>bufs := (bufs s2)(b := (bufs s2 b)\<lparr>b_next := h\<rparr>)\<rparr>"
  define s4 where "s4 = s3\<lparr>bufs := (bufs s3)(b := (bufs s3 b)\<lparr>b_prev := NBUF\<rparr>)\<rparr>"
  define s5 where "s5 = s4\<lparr>bufs := (bufs s4)(h := (bufs s4 h)\<lparr>b_prev := b\<rparr>)\<rparr>"
  define s6 where "s6 = s5\<lparr>bufs := (bufs s5)(NBUF := (bufs s5 NBUF)\<lparr>b_next := b\<rparr>)\<rparr>"
  note defs = s6_def s5_def s4_def s3_def s2_def s1_def
  have L: "nexts_of s1 = nexts_of s" "prevs_of s1 = (prevs_of s)(nx := pv)" "nexts_of s2 = (nexts_of s1)(pv := nx)"
    "prevs_of s2 = prevs_of s1" "nexts_of s3 = (nexts_of s2)(b := h)" "prevs_of s3 = prevs_of s2" "nexts_of s4 = nexts_of s3"
    "prevs_of s4 = (prevs_of s3)(b := NBUF)" "nexts_of s5 = nexts_of s4" "prevs_of s5 = (prevs_of s4)(h := b)"
    "nexts_of s6 = (nexts_of s5)(NBUF := b)" "prevs_of s6 = prevs_of s5"
    by (simp_all only: defs links_upd)
  have r: "dlc NBUF (nexts_of s2) (prevs_of s2) (ys @ zs)"
    using dlc_remove [OF d] by (simp add: L nx_def pv_def)
  have hle: "h \<le> NBUF"
    using r sub fst_or_in [of "ys @ zs" NBUF] by (cases "ys @ zs = []") (auto simp: h_def dlc_def)
  have "dlc NBUF (nexts_of s6) (prevs_of s6) (b # ys @ zs)"
    by (rule dlc_insert [OF r]) (use dist b in \<open>auto simp: L h_def\<close>)
  then have "lru s6 (b # ys @ zs)" using set by (auto simp: lru_links)
  moreover have "to_front b s = Inr ((), s6)"
  proof -
    have g: "prevs_of s1 b = pv" "nexts_of s1 b = nx" "nexts_of s4 NBUF = h"
      using ne b by (simp_all add: L h_def nx_def pv_def)
    have p: "buf_get b_next b s = Inr (nx, s)" "buf_get b_prev b s = Inr (pv, s)"
      "buf_put (\<lambda>x. x\<lparr>b_prev := pv\<rparr>) nx s = Inr ((), s1)" "buf_get b_prev b s1 = Inr (pv, s1)" "buf_get b_next b s1 = Inr (nx, s1)"
      "buf_put (\<lambda>x. x\<lparr>b_next := nx\<rparr>) pv s1 = Inr ((), s2)" "buf_get b_next NBUF s2 = Inr (h, s2)"
      "buf_put (\<lambda>x. x\<lparr>b_next := h\<rparr>) b s2 = Inr ((), s3)" "buf_put (\<lambda>x. x\<lparr>b_prev := NBUF\<rparr>) b s3 = Inr ((), s4)"
      "buf_get b_next NBUF s4 = Inr (h, s4)" "buf_put (\<lambda>x. x\<lparr>b_prev := b\<rparr>) h s4 = Inr ((), s5)"
      "buf_put (\<lambda>x. x\<lparr>b_next := b\<rparr>) NBUF s5 = Inr ((), s6)"
      using b le hle g by (simp_all only: get_links buf_put_ok order.refl less_imp_le nx_def [symmetric] pv_def [symmetric] h_def [symmetric] defs [symmetric])
    show ?thesis unfolding to_front_def using p by (simp del: buf_get_ok buf_put_ok)
  qed
  moreover have "core (bufs s6 j) = core (bufs s j)" for j
    unfolding s6_def s5_def s4_def s3_def s2_def s1_def by (simp only: core_upd)
  moreover have "s6 = s\<lparr>bufs := bufs s6\<rparr>" by (simp add: defs)
  ultimately show thesis using that by blast
qed

lemma bufcache_release_wp:
  fixes s :: "'z fs_state_scheme"
  assumes s: "bc c s M B D" and i: "holds s i k" and clean: "k \<in> D \<or> M k = disk s (fst k) (snd k)"
    and Q: "\<And>t. bc c t M (B - {k}) D \<Longrightarrow> fs_keep s t \<Longrightarrow> disk t = disk s \<Longrightarrow> ide_writes t = ide_writes s \<Longrightarrow>
      (\<And>j k'. holds s j k' \<Longrightarrow> j \<noteq> i \<Longrightarrow> holds t j k') \<Longrightarrow> Q () t"
  shows "kwp (bufcache_release i) Q s"
proof -
  have lt: "i < NBUF" "bit (b_flags (bufs s i)) 0" "bkey_of (bufs s i) = k" using i by (auto simp: holds_def)
  have held: "b_data (bufs s i) = M k" "bit (b_flags (bufs s i)) 1" using bc_held [OF s i(1)] by auto
  have dk: "k \<in> D \<longleftrightarrow> bit (b_flags (bufs s i)) 2" using bc_marked(2) [OF s lt(1) held(2)] lt(3) by simp
  obtain xs where xs: "lru s xs" using bcD(2) [OF s] by blast
  then have "i \<in> set xs" using lt(1) by (simp add: lru_def)
  then obtain ys zs where "xs = ys @ i # zs" by (auto simp: in_set_conv_decomp)
  let ?s1 = "s\<lparr>bcache_lock := taken (cur_kstack s) (bcache_lock s)\<rparr>"
  have "lru ?s1 (ys @ i # zs)" using xs \<open>xs = ys @ i # zs\<close> by (simp add: lru_def)
  then obtain s2 where s2: "to_front i ?s1 = Inr ((), s2)" "lru s2 (i # ys @ zs)" "\<And>j. core (bufs s2 j) = core (bufs s j)"
    "s2 = ?s1\<lparr>bufs := bufs s2\<rparr>" by (rule to_front_ok) simp
  let ?s3 = "s2\<lparr>bufs := (bufs s2)(i := (bufs s2 i)\<lparr>b_flags := b_flags (bufs s2 i) AND NOT B_BUSY\<rparr>)\<rparr>"
  note ok = fs_ok_upd [OF bcD(1) [OF s]]
  have same: "b_flags (bufs s2 j) = b_flags (bufs s j)" "bkey_of (bufs s2 j) = bkey_of (bufs s j)" "b_data (bufs s2 j) = b_data (bufs s j)" for j
    using s2(3) [of j] by (simp_all add: core_def)
  have wake: "kwp (thread_wakeup (bufs_addr s + i * 536)) (\<lambda>_ t. Q () (t\<lparr>bcache_lock := spinlock_release_A (bcache_lock t)\<rparr>)) ?s3"
  proof (rule thread_wakeup_wp [of c])
    show "sched_live c ?s3" using bcD(1) [OF s] by (subst s2(4)) (simp add: fs_ok_def)
    fix t assume t: "woke ?s3 t" "sched_live c t"
    note w = woke_sel [OF t(1)]
    let ?t = "t\<lparr>bcache_lock := spinlock_release_A (bcache_lock t)\<rparr>"
    have bt: "bufs ?t = (bufs s2)(i := (bufs s2 i)\<lparr>b_flags := b_flags (bufs s2 i) AND NOT B_BUSY\<rparr>)" using w(1) by simp
    have st: "disk s2 = disk s" "ide_writes s2 = ide_writes s" "idequeue s2 = idequeue s" "ide_lk s2 = ide_lk s"
      "cur_kstack s2 = cur_kstack s" "ide_status s2 = ide_status s" by (subst s2(4), simp)+
    have fs: "fs_ok c ?t"
      using w t(2) st bcD(1) [OF s] ok(4) by (simp add: fs_ok_def dev_ready_def)
    have "fs_keep s s2" by (subst s2(4)) simp
    then have keep: "fs_keep s ?t" using fs_keep_trans [of s ?s3 t] fs_keep_woke [OF t(1)] by simp
    have o: "others_same i s ?t" using same by (simp add: others_same_def bt)
    have l: "lru ?t (i # ys @ zs)" using s2(2) lru_upd [OF bt] by simp
    have x: "bkey_of (bufs ?t i) = k" "bit (b_flags (bufs ?t i)) 1" "\<not> bit (b_flags (bufs ?t i)) 0"
      "bit (b_flags (bufs ?t i)) 2 \<longleftrightarrow> k \<in> D" "b_data (bufs ?t i) = M k"
      using same [of i] lt(3) held dk by (auto simp: bt bit_simps)
    have "bc c ?t (M(k := b_data (bufs ?t i))) (B - {k}) D"
    proof (rule bc_upd [OF s lt(1) held(2) lt(3) fs l o x(1,2)])
      show "B - {k} = (if bit (b_flags (bufs ?t i)) 0 then insert k B else B - {k})" using x(3) by simp
      show "D = (if bit (b_flags (bufs ?t i)) 2 then insert k D else D - {k})" using x(4) by auto
      show "b_data (bufs ?t i) = disk ?t (fst k) (snd k)" if "k \<notin> B - {k} \<union> D"
        using that clean x(5) w(2) st(1) by simp
      show "disk ?t d n = disk s d n" for d n using w(2) st(1) by simp
    qed
    then have "bc c ?t M (B - {k}) D" using x(5) by simp
    then show "Q () ?t"
    proof (rule Q [OF _ keep])
      show "holds ?t j k'" if "holds s j k'" "j \<noteq> i" for j k' using that same [of j] by (simp add: holds_def bt)
    qed (use w st in simp_all)
  qed
  have "bufs_addr s2 = bufs_addr s" by (subst s2(4)) simp
  then show ?thesis
    using lt ok(5) wake by (simp add: bufcache_release_def kwp_def s2(1) buf_addr_def)
qed

text \<open>The same rules, for reasoning forwards along a sequence of calls.\<close>

lemma bread:
  assumes "bc c s M B D" "(d, n) \<notin> B" "sector_ok s d n" "card (insert (d, n) (B \<union> D)) \<le> 10"
  shows "\<exists>i t. bufcache_read d n s = Inr (i, t) \<and> bc c t M (insert (d, n) B) D \<and> holds t i (d, n) \<and> fs_keep s t \<and>
    disk t = disk s \<and> ide_writes t = ide_writes s \<and> (\<forall>j k. holds s j k \<longrightarrow> holds t j k)"
  by (rule kwp_def [THEN iffD1], rule bufcache_read_wp [OF assms]) blast

lemma bwrite:
  assumes "bc c s M B D" "holds s i (d, n)" "sector_ok s d n"
  shows "\<exists>t. bufcache_write i s = Inr ((), t) \<and> bc c t M B (D - {(d, n)}) \<and> fs_keep s t \<and>
    disk t = disk_upd (disk s) d n (M (d, n)) \<and> ide_writes t = ide_writes s @ [(d, n, M (d, n))] \<and>
    (\<forall>j k. holds t j k = holds s j k)"
  by (rule kwp_unit [THEN iffD1], rule bufcache_write_wp [OF assms]) blast

lemma brelse:
  assumes "bc c s M B D" "holds s i k" "k \<in> D \<or> M k = disk s (fst k) (snd k)"
  shows "\<exists>t. bufcache_release i s = Inr ((), t) \<and> bc c t M (B - {k}) D \<and> fs_keep s t \<and> disk t = disk s \<and>
    ide_writes t = ide_writes s \<and> (\<forall>j k'. holds s j k' \<longrightarrow> j \<noteq> i \<longrightarrow> holds t j k')"
  by (rule kwp_unit [THEN iffD1], rule bufcache_release_wp [OF assms]) blast

lemma bput:
  assumes "bc c s M B D" "holds s i k"
  shows "\<exists>t. buf_put (\<lambda>x. x\<lparr>b_data := f (b_data x)\<rparr>) i s = Inr ((), t) \<and> bc c t (M(k := f (M k))) B D \<and> fs_keep s t \<and>
    disk t = disk s \<and> ide_writes t = ide_writes s \<and> (\<forall>j k. holds t j k = holds s j k)"
  by (rule kwp_unit [THEN iffD1], rule buf_data_wp [OF assms]) blast

lemma bdirty:
  assumes "bc c s M B D" "holds s i k"
  shows "\<exists>t. buf_put (\<lambda>x. x\<lparr>b_flags := b_flags x OR B_DIRTY\<rparr>) i s = Inr ((), t) \<and> bc c t M B (insert k D) \<and> fs_keep s t \<and>
    disk t = disk s \<and> ide_writes t = ide_writes s \<and> (\<forall>j k. holds t j k = holds s j k)"
  by (rule kwp_unit [THEN iffD1], rule buf_dirty_wp [OF assms]) blast

lemma bget:
  assumes "bc c s M B D" "holds s i k"
  shows "buf_get b_data i s = Inr (M k, s)" "buf_get b_sector i s = Inr (snd k, s)" "buf_get b_dev i s = Inr (fst k, s)"
  using assms bc_held [OF assms] by (auto simp: holds_def)

end
