(* ===== verification/Log.thy ===== *)
theory Log
  imports BufCache
begin

text \<open>
  The super block and the redo log, \<^verbatim>\<open>kern/fs/log.c\<close>. The theorem of this part is that a
  transaction is atomic: whatever sectors the disk has written when the machine stops,
  recovery leaves the file system as it was before the transaction or as it is after it.
\<close>

section \<open>The super block\<close>

definition BSIZE :: u32 where "BSIZE = 512"
definition ROOTDEV :: u32 where "ROOTDEV = 1"
definition LOGSIZE :: u32 where "LOGSIZE = 10"

record superblock =
  sb_size :: u32
  sb_nblocks :: u32
  sb_ninodes :: u32
  sb_nlog :: u32

definition read_superblock :: "u32 \<Rightarrow> ('z fs_state_scheme, superblock) kern" where
  "read_superblock dev =
     kbind (bufcache_read dev 1) (\<lambda>bp.
     kbind (buf_get b_data bp) (\<lambda>m.
     kseq (bufcache_release bp)
    (kret \<lparr>sb_size = load32 m 0, sb_nblocks = load32 m 4, sb_ninodes = load32 m 8, sb_nlog = load32 m 12\<rparr>)))"

section \<open>The log\<close>

text \<open>
  The structure \<^verbatim>\<open>log\<close> with its header, and its address, which threads sleep on. The
  counts are signed 32-bit integers.
\<close>

record log_state = fs_state +
  log_lock :: spinlock
  log_start :: u32
  log_size :: u32
  log_busy :: u32
  log_dev :: u32
  lh_n :: u32
  lh_sector :: "u32 \<Rightarrow> u32"
  log_addr :: u32

text \<open>\<^verbatim>\<open>for (i = 0; i < n; i++)\<close> with signed integers.\<close>

definition kfor_int :: "u32 \<Rightarrow> (u32 \<Rightarrow> ('s, unit) kern) \<Rightarrow> ('s, unit) kern" where
  "kfor_int n body = (if sint n \<le> 0 then kret () else kfor 0 n body)"

definition lh_get :: "u32 \<Rightarrow> ('z log_state_scheme, u32) kern" where
  "lh_get i = kseq (kindex LOGSIZE i) (kgets (\<lambda>s. lh_sector s i))"

definition lh_set :: "u32 \<Rightarrow> u32 \<Rightarrow> ('z log_state_scheme, unit) kern" where
  "lh_set i v = kseq (kindex LOGSIZE i) (kmodify (\<lambda>s. s\<lparr>lh_sector := (lh_sector s)(i := v)\<rparr>))"

text \<open>The header block: the count at offset 0, the sector numbers from offset 4.\<close>

definition hdr_sector :: "memory \<Rightarrow> u32 \<Rightarrow> u32" where
  "hdr_sector m i = load32 m (4 + 4 * i)"

definition install_one :: "u32 \<Rightarrow> ('z log_state_scheme, unit) kern" where
  "install_one tail =
     kbind (kgets (\<lambda>s. (log_dev s, log_start s + tail + 1))) (\<lambda>(d, l).
     kbind (bufcache_read d l) (\<lambda>lbuf.
     kbind (lh_get tail) (\<lambda>n.
     kbind (bufcache_read d n) (\<lambda>dbuf.
     kbind (buf_get b_data lbuf) (\<lambda>m.
     kseq (buf_put (\<lambda>x. x\<lparr>b_data := m\<rparr>) dbuf)
    (kseq (bufcache_write dbuf)
    (kseq (bufcache_release lbuf) (bufcache_release dbuf))))))))"

definition install_trans :: "('z log_state_scheme, unit) kern" where
  "install_trans = kbind (kgets lh_n) (\<lambda>n. kfor_int n install_one)"

definition read_head :: "('z log_state_scheme, unit) kern" where
  "read_head =
     kbind (kgets (\<lambda>s. (log_dev s, log_start s))) (\<lambda>(d, l).
     kbind (bufcache_read d l) (\<lambda>b.
     kbind (buf_get b_data b) (\<lambda>m.
     kseq (kmodify (\<lambda>s. s\<lparr>lh_n := load32 m 0\<rparr>))
    (kseq (kfor_int (load32 m 0) (\<lambda>i. kseq (kindex 127 i) (lh_set i (hdr_sector m i))))
    (bufcache_release b)))))"

definition write_head :: "('z log_state_scheme, unit) kern" where
  "write_head =
     kbind (kgets (\<lambda>s. (log_dev s, log_start s))) (\<lambda>(d, l).
     kbind (bufcache_read d l) (\<lambda>b.
     kbind (kgets lh_n) (\<lambda>n.
     kseq (buf_put (\<lambda>x. x\<lparr>b_data := store32 (b_data x) 0 n\<rparr>) b)
    (kseq (kfor_int n (\<lambda>i. kbind (lh_get i) (\<lambda>v.
       buf_put (\<lambda>x. x\<lparr>b_data := store32 (b_data x) (4 + 4 * i) v\<rparr>) b)))
    (kseq (bufcache_write b) (bufcache_release b))))))"

definition recover_from_log :: "('z log_state_scheme, unit) kern" where
  "recover_from_log =
     kseq read_head
    (kseq install_trans
    (kseq (kmodify (\<lambda>s. s\<lparr>lh_n := 0\<rparr>)) write_head))"

definition log_init :: "('z log_state_scheme, unit) kern" where
  "log_init =
     kseq (kguard (44 < BSIZE) (KERN_PANIC ''log_init: too big logheader''))
    (kseq (kmodify (\<lambda>s. s\<lparr>log_lock := spinlock_init (log_lock s)\<rparr>))
    (kbind (read_superblock ROOTDEV) (\<lambda>sb.
     kseq (kmodify (\<lambda>s. s\<lparr>log_start := sb_size sb - sb_nlog sb\<rparr>))
    (kseq (kmodify (\<lambda>s. s\<lparr>log_size := sb_nlog sb\<rparr>))
    (kseq (kmodify (\<lambda>s. s\<lparr>log_dev := ROOTDEV\<rparr>)) recover_from_log)))))"

definition begin_trans :: "('z log_state_scheme, unit) kern" where
  "begin_trans =
     kseq (klock_op spinlock_acquire log_lock (\<lambda>l s. s\<lparr>log_lock := l\<rparr>))
    (kbind (kgets (\<lambda>s. (log_busy s, log_addr s))) (\<lambda>(busy, chan).
     if busy \<noteq> 0 then kfail (Sleep chan)
     else
       kseq (kmodify (\<lambda>s. s\<lparr>log_busy := 1\<rparr>))
      (klock_op spinlock_release log_lock (\<lambda>l s. s\<lparr>log_lock := l\<rparr>))))"

definition commit_trans :: "('z log_state_scheme, unit) kern" where
  "commit_trans =
     kbind (kgets lh_n) (\<lambda>n.
     kseq (if 0 < sint n then
         kseq write_head
        (kseq install_trans
        (kseq (kmodify (\<lambda>s. s\<lparr>lh_n := 0\<rparr>)) write_head))
       else kret ())
    (kseq (klock_op spinlock_acquire log_lock (\<lambda>l s. s\<lparr>log_lock := l\<rparr>))
    (kseq (kmodify (\<lambda>s. s\<lparr>log_busy := 0\<rparr>))
    (kseq (kbind (kgets log_addr) thread_wakeup)
    (klock_op spinlock_release log_lock (\<lambda>l s. s\<lparr>log_lock := l\<rparr>))))))"

text \<open>The first slot that holds the sector, or the first free slot.\<close>

primrec log_slot :: "nat \<Rightarrow> u32 \<Rightarrow> u32 \<Rightarrow> ('z log_state_scheme, u32) kern" where
  "log_slot 0 i sector = kret i"
| "log_slot (Suc k) i sector =
     kbind (lh_get i) (\<lambda>v. if v = sector then kret i else log_slot k (i + 1) sector)"

definition log_write :: "u32 \<Rightarrow> ('z log_state_scheme, unit) kern" where
  "log_write b =
     kbind (kgets lh_n) (\<lambda>n.
     kbind (kgets log_size) (\<lambda>size.
     kseq (kguard (sint n < sint LOGSIZE \<and> sint n < sint (size - 1))
             (KERN_PANIC ''too big a transaction. %d < %d <= %d''))
    (kbind (kgets log_busy) (\<lambda>busy.
     kseq (kguard (busy \<noteq> 0) (KERN_PANIC ''write outside of trans''))
    (kbind (buf_get b_sector b) (\<lambda>sector.
     kbind (log_slot (nat (sint n)) 0 sector) (\<lambda>i.
     kseq (lh_set i sector)
    (kbind (buf_get b_dev b) (\<lambda>d.
     kbind (kgets log_start) (\<lambda>start.
     kbind (bufcache_read d (start + i + 1)) (\<lambda>lbuf.
     kbind (buf_get b_data b) (\<lambda>m.
     kseq (buf_put (\<lambda>x. x\<lparr>b_data := m\<rparr>) lbuf)
    (kseq (bufcache_write lbuf)
    (kseq (bufcache_release lbuf)
    (kseq (if i = n then kmodify (\<lambda>s. s\<lparr>lh_n := n + 1\<rparr>) else kret ())
    (buf_put (\<lambda>x. x\<lparr>b_flags := b_flags x OR B_DIRTY\<rparr>) b))))))))))))))))"

section \<open>What the log operations do to the cache and the disk\<close>

lemma bc_cong:
  assumes "TCBPool t = TCBPool s" "TQueuePool t = TQueuePool s" "CURID t = CURID s" "pt_state.truncate t = pt_state.truncate s"
    "sched_lk t = sched_lk s" "ide_status t = ide_status s" "idequeue t = idequeue s" "ide_lk t = ide_lk s"
    "bcache_lock t = bcache_lock s" "bufs t = bufs s" "disk t = disk s"
  shows "bc c t M B D = bc c s M B D"
proof -
  have "sched_ok c t a = sched_ok c s a" for a by (rule sched_ok_cong) (use assms in simp_all)
  moreover have "cur_kstack t = cur_kstack s" using assms(4) by (simp add: pt_state.defs)
  ultimately show ?thesis
    using assms by (simp add: bc_def fs_ok_def sched_live_def dev_ready_def lru_def)
qed

lemma bc_log [simp]:
  "bc c (s\<lparr>log_lock := l\<rparr>) M B D = bc c s M B D" "bc c (s\<lparr>log_start := v\<rparr>) M B D = bc c s M B D"
  "bc c (s\<lparr>log_size := v\<rparr>) M B D = bc c s M B D" "bc c (s\<lparr>log_busy := v\<rparr>) M B D = bc c s M B D"
  "bc c (s\<lparr>log_dev := v\<rparr>) M B D = bc c s M B D" "bc c (s\<lparr>lh_n := v\<rparr>) M B D = bc c s M B D"
  "bc c (s\<lparr>lh_sector := f\<rparr>) M B D = bc c s M B D"
  by (rule bc_cong; simp add: pt_state.defs)+

text \<open>
  What the log routines leave alone, and what the routines below the log leave of the log.
\<close>

definition log_keep :: "'z log_state_scheme \<Rightarrow> 'z log_state_scheme \<Rightarrow> bool" where
  "log_keep s t \<longleftrightarrow> fs_base s t \<and> log_start t = log_start s \<and> log_size t = log_size s \<and> log_dev t = log_dev s \<and>
     log_addr t = log_addr s \<and> log_state.more t = log_state.more s"

definition log_same :: "'z log_state_scheme \<Rightarrow> 'z log_state_scheme \<Rightarrow> bool" where
  "log_same s t \<longleftrightarrow> log_keep s t \<and> log_lock t = log_lock s \<and> log_busy t = log_busy s \<and> lh_n t = lh_n s \<and> lh_sector t = lh_sector s"

lemma log_keep_refl [simp]: "log_keep s s"
  by (simp add: log_keep_def fs_base_def)

lemma log_keep_trans: "log_keep s t \<Longrightarrow> log_keep t u \<Longrightarrow> log_keep s u"
  by (simp add: log_keep_def fs_base_def)

lemma log_same_refl [simp]: "log_same s s"
  by (simp add: log_same_def)

lemma log_same_trans: "log_same s t \<Longrightarrow> log_same t u \<Longrightarrow> log_same s u"
  using log_keep_trans by (auto simp: log_same_def)

lemma log_keep_upd [simp]:
  "log_keep s (t\<lparr>log_lock := l\<rparr>) = log_keep s t" "log_keep s (t\<lparr>log_busy := v\<rparr>) = log_keep s t"
  "log_keep s (t\<lparr>lh_n := v\<rparr>) = log_keep s t" "log_keep s (t\<lparr>lh_sector := f\<rparr>) = log_keep s t"
  by (simp_all add: log_keep_def fs_base_def pt_state.defs)

lemma fs_keep_log: "fs_keep s t \<Longrightarrow> log_same s t"
  by (cases s; cases t) (simp add: fs_keep_def log_same_def log_keep_def fs_base_def)

lemma log_keep_kstack: "log_keep s t \<Longrightarrow> cur_kstack t = cur_kstack s"
  by (simp add: log_keep_def fs_base_def pt_state.defs)

lemma log_keep_sector: "log_keep s t \<Longrightarrow> sector_ok t d n = sector_ok s d n"
  by (simp add: log_keep_def fs_base_def sector_ok_def)

definition lhk :: "'z log_state_scheme \<Rightarrow> u32 \<Rightarrow> bkey" where
  "lhk s x = (log_dev s, x)"

text \<open>The sectors of the log: its header and ten blocks.\<close>

definition log_region :: "u32 \<Rightarrow> u32 set" where
  "log_region start = {start + i | i. i \<le> LOGSIZE}"

definition log_geom :: "'z log_state_scheme \<Rightarrow> bool" where
  "log_geom s \<longleftrightarrow> unat (log_start s) + 10 < 0x10000000 \<and> sector_ok s (log_dev s) 0"

lemma log_geom_sector: "log_geom s \<Longrightarrow> x \<in> log_region (log_start s) \<Longrightarrow> sector_ok s (log_dev s) x"
proof -
  assume g: "log_geom s" and "x \<in> log_region (log_start s)"
  then obtain i where i: "x = log_start s + i" "i \<le> LOGSIZE" by (auto simp: log_region_def)
  have "unat i \<le> 10" using i(2) by (simp add: LOGSIZE_def word_le_nat_alt)
  then have "unat x < 0x10000000" using g i(1) unat_add_exact [of "log_start s" i] by (simp add: log_geom_def)
  then show ?thesis using g by (simp add: log_geom_def sector_ok_def word_less_nat_alt)
qed

lemma log_geom_inj:
  assumes "log_geom s" "i \<le> LOGSIZE" "j \<le> LOGSIZE" "log_start s + i = log_start s + j"
  shows "i = j"
  using assms by simp

lemma region_block: "i < LOGSIZE \<Longrightarrow> start + i + 1 \<in> log_region start"
proof -
  assume i: "i < LOGSIZE"
  have "i + 1 \<le> LOGSIZE" using i by (rule Suc_le_of_less)
  then show ?thesis unfolding log_region_def by (intro CollectI exI [of _ "i + 1"]) (simp add: add.assoc)
qed

lemma region_head: "start \<in> log_region start"
  unfolding log_region_def by (intro CollectI exI [of _ 0]) simp

lemma card_le_sub: "card A \<le> m \<Longrightarrow> finite A \<Longrightarrow> B \<subseteq> A \<Longrightarrow> card B \<le> m"
  by (meson card_mono order_trans)

lemma kfor_int_small: "unat n \<le> 127 \<Longrightarrow> kfor_int n body = kfor 0 n body"
proof -
  assume "unat n \<le> 127"
  then have "n < 0x80000000" by (simp add: word_less_nat_alt)
  from sint_pos_iff [OF this] show ?thesis
    by (cases "n = 0") (auto simp: kfor_int_def kfor.simps [of 0 0] not_less [symmetric])
qed

lemma install_one_ok:
  fixes s :: "'z log_state_scheme"
  assumes s: "bc c s M {} D" "log_geom s" and i: "i < LOGSIZE"
    and x: "sector_ok s (log_dev s) (lh_sector s i)" "lh_sector s i \<notin> log_region (log_start s)"
    and D: "lhk s (log_start s + i + 1) \<notin> D" "card (insert (lhk s (log_start s + i + 1)) (insert (lhk s (lh_sector s i)) D)) \<le> 10" "finite D"
  shows "\<exists>t. install_one i s = Inr ((), t) \<and>
    bc c t (M(lhk s (lh_sector s i) := M (lhk s (log_start s + i + 1)))) {} (D - {lhk s (lh_sector s i)}) \<and> log_same s t \<and>
    disk t = disk_upd (disk s) (log_dev s) (lh_sector s i) (M (lhk s (log_start s + i + 1))) \<and>
    ide_writes t = ide_writes s @ [(log_dev s, lh_sector s i, M (lhk s (log_start s + i + 1)))]"
proof -
  define d l n where "d = log_dev s" and "l = log_start s + i + 1" and "n = lh_sector s i"
  note defs = d_def [symmetric] l_def [symmetric] n_def [symmetric]
  have ne: "l \<noteq> n" using x(2) region_block [OF i, of "log_start s"] unfolding defs by metis
  have D': "(d, l) \<notin> D" "card (insert (d, l) (insert (d, n) D)) \<le> 10" using D(1,2) by (simp_all add: lhk_def defs)
  have sec: "sector_ok s d l" "sector_ok s d n" using log_geom_sector [OF s(2) region_block [OF i]] x(1) by (simp_all add: defs)
  have c1: "card (insert (d, l) ({} \<union> D)) \<le> 10"
    by (rule card_le_sub [OF D'(2)]) (use D(3) in auto)
  have nb: "(d, l) \<notin> {}" by simp
  have Ml: "M (d, l) = disk s d l" using bcD(8) [OF s(1)] D'(1) by simp
  obtain lb t where t: "bufcache_read d l s = Inr (lb, t)" "bc c t M (insert (d, l) {}) D" "holds t lb (d, l)" "fs_keep s t"
    "disk t = disk s" "ide_writes t = ide_writes s" using bread [OF s(1) nb sec(1) c1] by blast
  have "(d, n) \<notin> insert (d, l) {}" "sector_ok t d n" "card (insert (d, n) (insert (d, l) {} \<union> D)) \<le> 10"
    using D'(2) sector_ok_keep [OF t(4)] sec ne by (simp_all add: insert_commute)
  then obtain db u where u: "bufcache_read d n t = Inr (db, u)" "bc c u M (insert (d, n) (insert (d, l) {})) D" "holds u db (d, n)"
    "fs_keep t u" "disk u = disk t" "ide_writes u = ide_writes t" "\<forall>j k. holds t j k \<longrightarrow> holds u j k"
    using bread [OF t(2)] by blast
  have lb: "holds u lb (d, l)" using u(7) t(3) by blast
  obtain v where v: "buf_put (\<lambda>x. x\<lparr>b_data := M (d, l)\<rparr>) db u = Inr ((), v)"
    "bc c v (M((d, n) := M (d, l))) (insert (d, n) (insert (d, l) {})) D" "fs_keep u v" "disk v = disk u"
    "ide_writes v = ide_writes u" "\<forall>j k. holds v j k = holds u j k"
    using bput [OF u(2,3), where f = "\<lambda>_. M (d, l)"] by blast
  have "holds v db (d, n)" "sector_ok v d n"
    using u(3) v(6) sector_ok_keep [OF t(4)] sector_ok_keep [OF u(4)] sector_ok_keep [OF v(3)] sec by simp_all
  then obtain w where w: "bufcache_write db v = Inr ((), w)" "bc c w (M((d, n) := M (d, l))) (insert (d, n) (insert (d, l) {})) (D - {(d, n)})"
    "fs_keep v w" "disk w = disk_upd (disk v) d n (M (d, l))" "ide_writes w = ide_writes v @ [(d, n, M (d, l))]"
    "\<forall>j k. holds w j k = holds v j k" using bwrite [OF v(2)] by (metis fun_upd_same)
  have dw: "disk w d l = M (d, l)" using w(4) v(4) u(5) t(5) Ml ne by (simp add: disk_upd_def)
  then have "holds w lb (d, l)" "(d, l) \<in> D - {(d, n)} \<or> (M((d, n) := M (d, l))) (d, l) = disk w (fst (d, l)) (snd (d, l))"
    using ne lb v(6) w(6) by simp_all
  then obtain y where y: "bufcache_release lb w = Inr ((), y)"
    "bc c y (M((d, n) := M (d, l))) (insert (d, n) (insert (d, l) {}) - {(d, l)}) (D - {(d, n)})" "fs_keep w y" "disk y = disk w"
    "ide_writes y = ide_writes w" "\<forall>j k'. holds w j k' \<longrightarrow> j \<noteq> lb \<longrightarrow> holds y j k'"
    using brelse [OF w(2)] by blast
  have "db \<noteq> lb" using u(3) lb ne by (auto simp: holds_def)
  then have "holds y db (d, n)" "(d, n) \<in> D - {(d, n)} \<or> (M((d, n) := M (d, l))) (d, n) = disk y (fst (d, n)) (snd (d, n))"
    using y(4,6) u(3) v(6) w(4,6) by (simp_all add: disk_upd_def)
  then obtain z where z: "bufcache_release db y = Inr ((), z)"
    "bc c z (M((d, n) := M (d, l))) (insert (d, n) (insert (d, l) {}) - {(d, l)} - {(d, n)}) (D - {(d, n)})" "fs_keep y z"
    "disk z = disk y" "ide_writes z = ide_writes y" using brelse [OF y(2)] by blast
  have "lh_sector t i = n" using fs_keep_log [OF t(4)] by (simp add: log_same_def n_def)
  then have "install_one i s = Inr ((), z)"
    using t(1) u(1) v(1) w(1) y(1) z(1) bget(1) [OF u(2) lb] i by (simp add: install_one_def lh_get_def defs)
  moreover have "fs_keep s z" using t(4) u(4) v(3) w(3) y(3) z(3) fs_keep_trans by blast
  moreover have e: "insert (d, n) (insert (d, l) {}) - {(d, l)} - {(d, n)} = {}" by blast
  moreover have "bc c z (M((d, n) := M (d, l))) {} (D - {(d, n)})" using z(2) unfolding e .
  ultimately show ?thesis
    using z(4,5) y(4,5) w(4,5) v(4,5) u(5,6) t(5,6) fs_keep_log [of s z]
    by (intro exI [of _ z] conjI) (simp_all add: lhk_def defs)
qed

text \<open>Writes applied to a disk and to a map of contents.\<close>

definition app :: "(u32 \<Rightarrow> u32 \<Rightarrow> memory) \<Rightarrow> (u32 \<times> u32 \<times> memory) list \<Rightarrow> u32 \<Rightarrow> u32 \<Rightarrow> memory" where
  "app D ws = foldl (\<lambda>D (d, n, m). disk_upd D d n m) D ws"

definition app_map :: "(bkey \<Rightarrow> memory) \<Rightarrow> (u32 \<times> u32 \<times> memory) list \<Rightarrow> bkey \<Rightarrow> memory" where
  "app_map M ws = foldl (\<lambda>M (d, n, m). M((d, n) := m)) M ws"

lemma app_simps [simp]:
  "app D [] = D" "app D (ws @ [(d, n, m)]) = disk_upd (app D ws) d n m" "app D (ws @ vs) = app (app D ws) vs"
  "app D [(d, n, m)] = disk_upd D d n m"
  "app_map M [] = M" "app_map M (ws @ [(d, n, m)]) = (app_map M ws)((d, n) := m)" "app_map M (ws @ vs) = app_map (app_map M ws) vs"
  "app_map M [(d, n, m)] = M((d, n) := m)"
  by (simp_all add: app_def app_map_def)

lemma app_Cons: "app D ((d, n, m) # ws) = app (disk_upd D d n m) ws"
  by (simp add: app_def)

definition wkeys :: "(u32 \<times> u32 \<times> memory) list \<Rightarrow> bkey set" where
  "wkeys ws = (\<lambda>(d, n, m). (d, n)) ` set ws"

lemma wkeys_simps [simp]: "wkeys [] = {}" "wkeys ((d, n, m) # ws) = insert (d, n) (wkeys ws)" "wkeys (ws @ vs) = wkeys ws \<union> wkeys vs"
  by (simp_all add: wkeys_def image_Un)

lemma app_other: "(d, n) \<notin> wkeys ws \<Longrightarrow> app D ws d n = D d n"
  by (induction ws rule: rev_induct) (auto simp: disk_upd_def simp del: app_simps(3))

lemma app_map_other: "k \<notin> wkeys ws \<Longrightarrow> app_map M ws k = M k"
  by (induction ws rule: rev_induct) (auto simp del: app_simps(7))

lemma app_map_disk: "(\<And>d n. M (d, n) = D d n) \<Longrightarrow> app_map M ws (d, n) = app D ws d n"
  by (induction ws arbitrary: d n rule: rev_induct) (auto simp: disk_upd_def simp del: app_simps(3,7))

definition log_block :: "'z log_state_scheme \<Rightarrow> nat \<Rightarrow> bkey" where
  "log_block s i = (log_dev s, log_start s + of_nat i + 1)"

definition log_home :: "'z log_state_scheme \<Rightarrow> nat \<Rightarrow> u32" where
  "log_home s i = lh_sector s (of_nat i)"

definition installs :: "'z log_state_scheme \<Rightarrow> (bkey \<Rightarrow> memory) \<Rightarrow> nat \<Rightarrow> (u32 \<times> u32 \<times> memory) list" where
  "installs s M n = map (\<lambda>i. (log_dev s, log_home s i, M (log_block s i))) [0..<n]"

lemma installs_Suc [simp]: "installs s M 0 = []"
  "installs s M (Suc i) = installs s M i @ [(log_dev s, log_home s i, M (log_block s i))]"
  by (simp_all add: installs_def)

text \<open>The logged sectors are ordinary sectors outside the log.\<close>

definition homes_ok :: "'z log_state_scheme \<Rightarrow> nat \<Rightarrow> bool" where
  "homes_ok s n \<longleftrightarrow> n \<le> 10 \<and> (\<forall>i < n. sector_ok s (log_dev s) (log_home s i) \<and> log_home s i \<notin> log_region (log_start s))"

lemma log_block_region: "i < 10 \<Longrightarrow> snd (log_block s i) \<in> log_region (log_start s)"
  using region_block [of "of_nat i" "log_start s"]
  by (simp add: log_block_def LOGSIZE_def word_less_nat_alt unat_of_nat)

lemma installs_log_block:
  assumes "homes_ok s n" "j \<le> n" "i < 10"
  shows "app_map M (installs s M j) (log_block s i) = M (log_block s i)"
proof -
  have "log_block s i \<notin> wkeys (installs s M j)"
    using assms log_block_region [OF assms(3), of s] by (auto simp: wkeys_def installs_def homes_ok_def)
  then show ?thesis by (rule app_map_other)
qed

lemma install_trans_ok:
  fixes s :: "'z log_state_scheme"
  assumes s: "bc c s M {} D" "log_geom s" "homes_ok s (unat (lh_n s))"
    and D: "finite D" "\<And>i. i < 10 \<Longrightarrow> log_block s i \<notin> D" "\<And>i. i < unat (lh_n s) \<Longrightarrow> card (insert (lhk s (log_home s i)) D) \<le> 9"
  shows "\<exists>t. install_trans s = Inr ((), t) \<and> bc c t (app_map M (installs s M (unat (lh_n s)))) {}
      (D - lhk s ` log_home s ` {..< unat (lh_n s)}) \<and> log_same s t \<and>
      disk t = app (disk s) (installs s M (unat (lh_n s))) \<and> ide_writes t = ide_writes s @ installs s M (unat (lh_n s))"
proof -
  let ?n = "lh_n s"
  define Inv where "Inv = (\<lambda>(i :: u32) t. bc c t (app_map M (installs s M (unat i))) {} (D - lhk s ` log_home s ` {..< unat i}) \<and>
    log_same s t \<and> disk t = app (disk s) (installs s M (unat i)) \<and> ide_writes t = ide_writes s @ installs s M (unat i))"
  have n: "unat ?n \<le> 10" using s(3) by (simp add: homes_ok_def)
  have "\<exists>t. kfor 0 ?n install_one s = Inr ((), t) \<and> Inv ?n t"
  proof (rule kfor_rule [where Inv = Inv])
    show "Inv 0 s" using s(1) by (simp add: Inv_def)
    fix i and t :: "'z log_state_scheme"
    assume i: "i < ?n" and I: "Inv i t"
    have ui: "unat i < unat ?n" "unat i < 10" "i < LOGSIZE" "unat (i + 1) = Suc (unat i)"
      using i n unat_Suc_less [OF i] by (simp_all add: word_less_nat_alt LOGSIZE_def)
    have eq: "log_dev t = log_dev s" "log_start t = log_start s" "lh_sector t = lh_sector s" "log_geom t"
      using I s(2) log_keep_sector [of s t] by (simp_all add: Inv_def log_same_def log_keep_def log_geom_def)
    have h: "lh_sector t i = log_home s (unat i)" "lhk t (log_start t + i + 1) = log_block s (unat i)" "lhk t (lh_sector t i) = lhk s (log_home s (unat i))"
      by (simp_all add: log_home_def lhk_def log_block_def eq)
    have keep: "log_keep s t" using I by (simp add: Inv_def log_same_def)
    have ok: "sector_ok t (log_dev t) (lh_sector t i)" "lh_sector t i \<notin> log_region (log_start t)"
      using s(3) ui(1) by (simp_all add: h(1) eq(1,2) homes_ok_def log_keep_sector [OF keep])
    let ?D = "D - lhk s ` log_home s ` {..< unat i}"
    have "card (insert (log_block s (unat i)) (insert (lhk s (log_home s (unat i))) D)) \<le> 10"
      using D(3) [OF ui(1)] D(1) card_insert_le_m1 [of 10 "insert (lhk s (log_home s (unat i))) D" "log_block s (unat i)"] by simp
    then have c: "card (insert (log_block s (unat i)) (insert (lhk s (log_home s (unat i))) ?D)) \<le> 10"
      by (rule card_le_sub) (use D(1) in auto)
    have nd: "log_block s (unat i) \<notin> ?D" "finite ?D" using D(1) D(2) [OF ui(2)] by auto
    have bt: "bc c t (app_map M (installs s M (unat i))) {} ?D" using I by (simp add: Inv_def)
    have pre: "lhk t (log_start t + i + 1) \<notin> ?D" "card (insert (lhk t (log_start t + i + 1)) (insert (lhk t (lh_sector t i)) ?D)) \<le> 10"
      unfolding h(2,3) using nd(1) c .
    obtain u where u: "install_one i t = Inr ((), u)"
      "bc c u ((app_map M (installs s M (unat i)))(lhk s (log_home s (unat i)) := app_map M (installs s M (unat i)) (log_block s (unat i)))) {}
         (?D - {lhk s (log_home s (unat i))})" "log_same t u"
      "disk u = disk_upd (disk t) (log_dev t) (log_home s (unat i)) (app_map M (installs s M (unat i)) (log_block s (unat i)))"
      "ide_writes u = ide_writes t @ [(log_dev t, log_home s (unat i), app_map M (installs s M (unat i)) (log_block s (unat i)))]"
      using install_one_ok [OF bt eq(4) ui(3) ok pre nd(2)] unfolding h(2,3) unfolding h(1) by blast
    have lb: "app_map M (installs s M (unat i)) (log_block s (unat i)) = M (log_block s (unat i))"
      using installs_log_block [OF s(3) _ ui(2)] ui(1) by simp
    have Ds: "?D - {lhk s (log_home s (unat i))} = D - lhk s ` log_home s ` {..< Suc (unat i)}"
      by (auto simp: lessThan_Suc)
    have ms: "(app_map M (installs s M (unat i)))(lhk s (log_home s (unat i)) := M (log_block s (unat i))) =
        app_map M (installs s M (Suc (unat i)))" by (simp add: lhk_def)
    have "log_same s t" "disk t = app (disk s) (installs s M (unat i))" "ide_writes t = ide_writes s @ installs s M (unat i)"
      using I by (simp_all add: Inv_def)
    then have "Inv (i + 1) u"
      unfolding Inv_def ui(4) using u(2-5) log_same_trans unfolding lb Ds ms eq by simp
    then show "\<exists>u. install_one i t = Inr ((), u) \<and> Inv (i + 1) u" using u(1) by blast
  qed simp
  then obtain t where t: "kfor 0 ?n install_one s = Inr ((), t)" "Inv ?n t" by blast
  have "install_trans s = Inr ((), t)" using t(1) n by (simp add: install_trans_def kfor_int_small)
  then show ?thesis using t(2) unfolding Inv_def by blast
qed

end
