(* ===== verification/LogSafe.thy ===== *)
theory LogSafe
  imports Log
begin

text \<open>
  Transactions are atomic. A transaction writes copies of its blocks to the log, then the
  header that commits it, then the blocks at their places, then an empty header. Whatever
  part of these writes has reached the disk when the machine stops, recovery leaves either
  the contents from before the transaction or those after it, and a recovery that is itself
  interrupted is completed by the next.
\<close>

section \<open>The header block\<close>

lemma log_geom_keep: "log_keep s t \<Longrightarrow> log_geom t = log_geom s"
  using log_keep_sector [of s t] by (simp add: log_geom_def log_keep_def)

lemma log_geom_upd [simp]:
  "log_geom (s\<lparr>log_lock := l\<rparr>) = log_geom s" "log_geom (s\<lparr>log_busy := v\<rparr>) = log_geom s"
  "log_geom (s\<lparr>lh_n := v\<rparr>) = log_geom s" "log_geom (s\<lparr>lh_sector := f\<rparr>) = log_geom s"
  by (simp_all add: log_geom_def sector_ok_def)

definition hdr_has :: "memory \<Rightarrow> u32 \<Rightarrow> (u32 \<Rightarrow> u32) \<Rightarrow> bool" where
  "hdr_has m n f \<longleftrightarrow> load32 m 0 = n \<and> (\<forall>i < n. hdr_sector m i = f i)"

lemma hdr_offset:
  assumes "unat i \<le> 10"
  shows "unat (4 + 4 * i) = 4 + 4 * unat i" "aligned4 (4 + 4 * i)" "4 + 4 * i \<noteq> 0"
proof -
  have m: "unat (4 * i) = 4 * unat i" using assms by (subst unat_mult_exact) simp_all
  show u: "unat (4 + 4 * i) = 4 + 4 * unat i" using assms m by (subst unat_add_exact) simp_all
  show "aligned4 (4 + 4 * i)" by (simp add: aligned4_iff u)
  show "4 + 4 * i \<noteq> 0" using u by (metis add_is_0 unat_0 zero_neq_numeral)
qed

lemma hdr_offset_inj: "unat (i :: u32) \<le> 10 \<Longrightarrow> unat j \<le> 10 \<Longrightarrow> 4 + 4 * i = 4 + 4 * j \<longleftrightarrow> i = j"
  using hdr_offset(1) [of i] hdr_offset(1) [of j] by (auto simp: word_unat_eq_iff)

lemma hdr_store:
  assumes "unat i \<le> 10"
  shows "load32 (store32 m (4 + 4 * i) v) 0 = load32 m 0" "hdr_sector (store32 m (4 + 4 * i) v) i = v"
    "unat j \<le> 10 \<Longrightarrow> j \<noteq> i \<Longrightarrow> hdr_sector (store32 m (4 + 4 * i) v) j = hdr_sector m j"
proof -
  note o = hdr_offset [OF assms]
  show "load32 (store32 m (4 + 4 * i) v) 0 = load32 m 0"
    using o by (intro load32_store32_other) (simp_all add: aligned4_def)
  show "hdr_sector (store32 m (4 + 4 * i) v) i = v" by (simp add: hdr_sector_def)
  show "hdr_sector (store32 m (4 + 4 * i) v) j = hdr_sector m j" if "unat j \<le> 10" "j \<noteq> i"
    unfolding hdr_sector_def using o hdr_offset(2) [OF that(1)] hdr_offset_inj [OF assms that(1)] that(2)
    by (intro load32_store32_other) auto
qed

lemma write_head_ok:
  fixes s :: "'z log_state_scheme"
  assumes s: "bc c s M {} D" "log_geom s" "unat (lh_n s) \<le> 10"
    and D: "lhk s (log_start s) \<notin> D" "card (insert (lhk s (log_start s)) D) \<le> 10"
  shows "\<exists>t m. write_head s = Inr ((), t) \<and> hdr_has m (lh_n s) (lh_sector s) \<and>
    bc c t (M(lhk s (log_start s) := m)) {} D \<and> log_same s t \<and>
    disk t = disk_upd (disk s) (log_dev s) (log_start s) m \<and>
    ide_writes t = ide_writes s @ [(log_dev s, log_start s, m)]"
proof -
  define d l n where "d = log_dev s" and "l = log_start s" and "n = lh_n s"
  note defs = d_def [symmetric] l_def [symmetric] n_def [symmetric]
  have D': "(d, l) \<notin> D" "card (insert (d, l) ({} \<union> D)) \<le> 10" using D by (simp_all add: lhk_def defs)
  have sec: "sector_ok s d l" using log_geom_sector [OF s(2) region_head] by (simp add: defs)
  have nb: "(d, l) \<notin> {}" by simp
  have n10: "unat n \<le> 10" "unat n \<le> 127" using s(3) by (simp_all add: n_def)
  obtain b t where t: "bufcache_read d l s = Inr (b, t)" "bc c t M (insert (d, l) {}) D" "holds t b (d, l)" "fs_keep s t"
    "disk t = disk s" "ide_writes t = ide_writes s" using bread [OF s(1) nb sec D'(2)] by blast
  obtain u where u: "buf_put (\<lambda>x. x\<lparr>b_data := store32 (b_data x) 0 n\<rparr>) b t = Inr ((), u)"
    "bc c u (M((d, l) := store32 (M (d, l)) 0 n)) (insert (d, l) {}) D" "fs_keep t u" "disk u = disk t"
    "ide_writes u = ide_writes t" "\<forall>j k. holds u j k = holds t j k"
    using bput [OF t(2,3), where f = "\<lambda>m. store32 m 0 n"] by blast
  let ?body = "\<lambda>i. kbind (lh_get i) (\<lambda>v. buf_put (\<lambda>x. x\<lparr>b_data := store32 (b_data x) (4 + 4 * i) v\<rparr>) b)"
  define Inv where "Inv = (\<lambda>(i :: u32) v. \<exists>m. load32 m 0 = n \<and> (\<forall>j < i. hdr_sector m j = lh_sector s j) \<and>
    bc c v (M((d, l) := m)) (insert (d, l) {}) D \<and> fs_keep s v \<and> disk v = disk s \<and> ide_writes v = ide_writes s \<and> holds v b (d, l))"
  have keep: "fs_keep s u" using t(4) u(3) fs_keep_trans by blast
  have "\<exists>v. kfor 0 n ?body u = Inr ((), v) \<and> Inv n v"
  proof (rule kfor_rule [where Inv = Inv])
    have "load32 (store32 (M (d, l)) 0 n) 0 = n" by simp
    then show "Inv 0 u" unfolding Inv_def using u keep t by (intro exI [of _ "store32 (M (d, l)) 0 n"]) auto
    fix i and v :: "'z log_state_scheme"
    assume i: "i < n" and "Inv i v"
    then obtain m where m: "load32 m 0 = n" "\<forall>j < i. hdr_sector m j = lh_sector s j" "bc c v (M((d, l) := m)) (insert (d, l) {}) D"
      "fs_keep s v" "disk v = disk s" "ide_writes v = ide_writes s" "holds v b (d, l)" unfolding Inv_def by blast
    have ui: "unat i < unat n" "unat i \<le> 10" "i < LOGSIZE" using i n10 by (simp_all add: word_less_nat_alt LOGSIZE_def)
    let ?m = "store32 m (4 + 4 * i) (lh_sector s i)"
    obtain w where w: "buf_put (\<lambda>x. x\<lparr>b_data := store32 (b_data x) (4 + 4 * i) (lh_sector s i)\<rparr>) b v = Inr ((), w)"
      "bc c w ((M((d, l) := m))((d, l) := store32 ((M((d, l) := m)) (d, l)) (4 + 4 * i) (lh_sector s i))) (insert (d, l) {}) D" "fs_keep v w" "disk w = disk v"
      "ide_writes w = ide_writes v" "\<forall>j k. holds w j k = holds v j k"
      using bput [OF m(3,7), where f = "\<lambda>m. store32 m (4 + 4 * i) (lh_sector s i)"] by blast
    have "lh_sector v = lh_sector s" using fs_keep_log [OF m(4)] by (simp add: log_same_def)
    then have run: "?body i v = Inr ((), w)" using w(1) ui(3) by (simp add: lh_get_def)
    have ih: "hdr_sector ?m j = lh_sector s j" if j: "j < i + 1" for j
    proof (cases "j = i")
      case False
      then have "j < i" using j word_less_Suc_iff [OF i, of j] by auto
      then have "unat j \<le> 10" using ui by (simp add: word_less_nat_alt)
      then show ?thesis using hdr_store(3) [OF ui(2) _ False] m(2) \<open>j < i\<close> by simp
    qed (simp add: hdr_store(2) [OF ui(2)])
    have "Inv (i + 1) w"
      unfolding Inv_def using w m hdr_store(1) [OF ui(2)] ih fs_keep_trans [OF m(4) w(3)] by (intro exI [of _ ?m]) simp
    then show "\<exists>w. ?body i v = Inr ((), w) \<and> Inv (i + 1) w" using run by blast
  qed simp
  then obtain v m where v: "kfor 0 n ?body u = Inr ((), v)" "load32 m 0 = n" "\<forall>j < n. hdr_sector m j = lh_sector s j"
    "bc c v (M((d, l) := m)) (insert (d, l) {}) D" "fs_keep s v" "disk v = disk s" "ide_writes v = ide_writes s" "holds v b (d, l)"
    unfolding Inv_def by blast
  have "sector_ok v d l" using sec sector_ok_keep [OF v(5)] by simp
  then obtain w where w: "bufcache_write b v = Inr ((), w)" "bc c w (M((d, l) := m)) (insert (d, l) {}) (D - {(d, l)})" "fs_keep v w"
    "disk w = disk_upd (disk v) d l m" "ide_writes w = ide_writes v @ [(d, l, m)]" "\<forall>j k. holds w j k = holds v j k"
    using bwrite [OF v(4,8)] by (metis fun_upd_same)
  have "holds w b (d, l)" "(d, l) \<in> D - {(d, l)} \<or> (M((d, l) := m)) (d, l) = disk w (fst (d, l)) (snd (d, l))"
    using v(8) w(4,6) by (simp_all add: disk_upd_def)
  then obtain y where y: "bufcache_release b w = Inr ((), y)" "bc c y (M((d, l) := m)) (insert (d, l) {} - {(d, l)}) (D - {(d, l)})" "fs_keep w y"
    "disk y = disk w" "ide_writes y = ide_writes w" using brelse [OF w(2)] by blast
  have D2: "D - {(d, l)} = D" "insert (d, l) {} - {(d, l)} = {}" using D'(1) by auto
  have "lh_n t = n" using fs_keep_log [OF t(4)] by (simp add: log_same_def n_def)
  then have "write_head s = Inr ((), y)"
    using t(1) u(1) v(1) w(1) y(1) by (simp add: write_head_def defs kfor_int_small [OF n10(2)])
  moreover have "fs_keep s y" using v(5) w(3) y(3) fs_keep_trans by blast
  moreover have "bc c y (M((d, l) := m)) {} D" using y(2) unfolding D2 .
  ultimately show ?thesis
    using y(4,5) w(4,5) v(2,3,6,7) fs_keep_log [of s y]
    by (intro exI [of _ y] exI [of _ m] conjI) (simp_all add: lhk_def defs hdr_has_def)
qed

lemma read_head_ok:
  fixes s :: "'z log_state_scheme"
  assumes s: "bc c s M {} D" "log_geom s" and n: "load32 (M (lhk s (log_start s))) 0 = n" "unat n \<le> 10"
    and D: "lhk s (log_start s) \<notin> D" "card (insert (lhk s (log_start s)) D) \<le> 10"
  shows "\<exists>t. read_head s = Inr ((), t) \<and> bc c t M {} D \<and> log_keep s t \<and> disk t = disk s \<and> ide_writes t = ide_writes s \<and>
    lh_n t = n \<and> (\<forall>i < n. lh_sector t i = hdr_sector (M (lhk s (log_start s))) i) \<and>
    log_lock t = log_lock s \<and> log_busy t = log_busy s"
proof -
  define d l where "d = log_dev s" and "l = log_start s"
  note defs = d_def [symmetric] l_def [symmetric]
  have D': "(d, l) \<notin> D" "card (insert (d, l) ({} \<union> D)) \<le> 10" using D by (simp_all add: lhk_def defs)
  have sec: "sector_ok s d l" using log_geom_sector [OF s(2) region_head] by (simp add: defs)
  have nb: "(d, l) \<notin> {}" by simp
  have n': "load32 (M (d, l)) 0 = n" "unat n \<le> 127" using n by (simp_all add: lhk_def defs)
  obtain b t where t: "bufcache_read d l s = Inr (b, t)" "bc c t M (insert (d, l) {}) D" "holds t b (d, l)" "fs_keep s t"
    "disk t = disk s" "ide_writes t = ide_writes s" using bread [OF s(1) nb sec D'(2)] by blast
  let ?body = "\<lambda>i. kseq (kindex 127 i) (lh_set i (hdr_sector (M (d, l)) i))"
  let ?t = "t\<lparr>lh_n := n\<rparr>"
  define Inv where "Inv = (\<lambda>(i :: u32) v. \<exists>f. v = ?t\<lparr>lh_sector := f\<rparr> \<and> (\<forall>j < i. f j = hdr_sector (M (d, l)) j))"
  have "\<exists>v. kfor 0 n ?body ?t = Inr ((), v) \<and> Inv n v"
  proof (rule kfor_rule [where Inv = Inv])
    show "Inv 0 ?t" unfolding Inv_def by (intro exI [of _ "lh_sector t"]) simp
    fix i and v :: "'z log_state_scheme"
    assume i: "i < n" and "Inv i v"
    then obtain f where f: "v = ?t\<lparr>lh_sector := f\<rparr>" "\<forall>j < i. f j = hdr_sector (M (d, l)) j" unfolding Inv_def by blast
    have "i < LOGSIZE" "i < 127" using i n(2) by (simp_all add: word_less_nat_alt LOGSIZE_def)
    then have "?body i v = Inr ((), ?t\<lparr>lh_sector := f(i := hdr_sector (M (d, l)) i)\<rparr>)" by (simp add: f(1) lh_set_def)
    moreover have "Inv (i + 1) (?t\<lparr>lh_sector := f(i := hdr_sector (M (d, l)) i)\<rparr>)"
      unfolding Inv_def using f(2) word_less_Suc_iff [OF i] by (intro exI) auto
    ultimately show "\<exists>w. ?body i v = Inr ((), w) \<and> Inv (i + 1) w" by blast
  qed simp
  then obtain f where f: "kfor 0 n ?body ?t = Inr ((), ?t\<lparr>lh_sector := f\<rparr>)" "\<forall>j < n. f j = hdr_sector (M (d, l)) j"
    unfolding Inv_def by blast
  let ?v = "?t\<lparr>lh_sector := f\<rparr>"
  have "bc c ?v M (insert (d, l) {}) D" "holds ?v b (d, l)" using t(2,3) by (simp_all add: holds_def)
  moreover have "(d, l) \<in> D \<or> M (d, l) = disk ?v (fst (d, l)) (snd (d, l))" using bcD(8) [OF s(1)] t(5) D'(1) by simp
  ultimately obtain y where y: "bufcache_release b ?v = Inr ((), y)" "bc c y M (insert (d, l) {} - {(d, l)}) D" "fs_keep ?v y"
    "disk y = disk ?v" "ide_writes y = ide_writes ?v" using brelse by blast
  have e: "insert (d, l) {} - {(d, l)} = {}" by auto
  have "read_head s = Inr ((), y)"
    using t(1) bget(1) [OF t(2,3)] y(1) f(1) n' by (simp add: read_head_def defs kfor_int_small)
  moreover have "log_same ?v y" "log_same s t" using fs_keep_log [OF y(3)] fs_keep_log [OF t(4)] .
  then have "log_keep s y" "lh_n y = n" "lh_sector y = f" "log_lock y = log_lock s" "log_busy y = log_busy s"
    using log_keep_trans [of s ?v y] by (simp_all add: log_same_def)
  ultimately show ?thesis
    using y(2,4,5) t(5,6) f(2) unfolding e by (intro exI [of _ y]) (simp add: lhk_def defs)
qed

section \<open>Recovery\<close>

text \<open>
  What recovery does to a disk: the writes it makes for a committed header, and the
  contents it leaves.
\<close>

type_synonym sectors = "u32 \<Rightarrow> u32 \<Rightarrow> memory"

definition redo :: "u32 \<Rightarrow> u32 \<Rightarrow> sectors \<Rightarrow> (u32 \<times> u32 \<times> memory) list" where
  "redo d l D = map (\<lambda>i. (d, hdr_sector (D d l) (of_nat i), D d (l + of_nat i + 1))) [0..<unat (load32 (D d l) 0)]"

definition view :: "u32 \<Rightarrow> u32 \<Rightarrow> sectors \<Rightarrow> u32 \<Rightarrow> memory" where
  "view d l D = app D (redo d l D) d"

definition hdr_ok :: "'z log_state_scheme \<Rightarrow> sectors \<Rightarrow> bool" where
  "hdr_ok s D \<longleftrightarrow> (let h = D (log_dev s) (log_start s) in unat (load32 h 0) \<le> 10 \<and>
     (\<forall>i < load32 h 0. sector_ok s (log_dev s) (hdr_sector h i) \<and> hdr_sector h i \<notin> log_region (log_start s)))"

lemma hdr_okD:
  assumes "hdr_ok s D" "i < unat (load32 (D (log_dev s) (log_start s)) 0)"
  shows "sector_ok s (log_dev s) (hdr_sector (D (log_dev s) (log_start s)) (of_nat i))"
    "hdr_sector (D (log_dev s) (log_start s)) (of_nat i) \<notin> log_region (log_start s)" "i < 10"
proof -
  have n: "unat (load32 (D (log_dev s) (log_start s)) 0) \<le> 10" using assms(1) by (simp add: hdr_ok_def Let_def)
  then show "i < 10" using assms(2) by simp
  have "of_nat i < load32 (D (log_dev s) (log_start s)) 0"
    using assms(2) n by (simp add: word_less_nat_alt unat_of_nat)
  then show "sector_ok s (log_dev s) (hdr_sector (D (log_dev s) (log_start s)) (of_nat i))"
    "hdr_sector (D (log_dev s) (log_start s)) (of_nat i) \<notin> log_region (log_start s)"
    using assms(1) by (simp_all add: hdr_ok_def Let_def)
qed

lemma redo_keys:
  assumes "hdr_ok s D" "x \<in> log_region (log_start s)"
  shows "(log_dev s, x) \<notin> wkeys (redo (log_dev s) (log_start s) D)"
  using hdr_okD(2) [OF assms(1)] assms(2) by (auto simp: wkeys_def redo_def)

lemma app_determined: "(d, n) \<in> wkeys ws \<Longrightarrow> app D ws d n = app E ws d n"
  by (induction ws rule: rev_induct) (auto simp: disk_upd_def simp del: app_simps(3))

lemma wkeys_take: "wkeys (take k ws) \<subseteq> wkeys ws"
  unfolding wkeys_def by (intro image_mono set_take_subset)

lemma region_blk: "i < 10 \<Longrightarrow> l + of_nat i + 1 \<in> log_region l"
  using region_block [of "of_nat i" l] by (simp add: LOGSIZE_def word_less_nat_alt unat_of_nat)

text \<open>A disk with the same header and the same log blocks has the same writes to redo.\<close>

lemma redo_cong:
  assumes "E d l = D d l" "unat (load32 (D d l) 0) \<le> 10" "\<And>i. i < 10 \<Longrightarrow> E d (l + of_nat i + 1) = D d (l + of_nat i + 1)"
  shows "redo d l E = redo d l D"
  using assms by (auto simp: redo_def)

text \<open>Recovery may stop after any of its writes: the next recovery still gives the same contents.\<close>

lemma redo_prefix:
  fixes s :: "'z log_state_scheme" and D :: sectors and m :: memory and k :: nat
  assumes h: "hdr_ok s D" and m: "load32 m 0 = 0"
  defines "d \<equiv> log_dev s" and "l \<equiv> log_start s"
  defines "ws \<equiv> take k (redo d l D @ [(d, l, m)])"
  shows "hdr_ok s (app D ws)" "x \<notin> log_region l \<Longrightarrow> view d l (app D ws) x = view d l D x"
proof -
  have n: "unat (load32 (D d l) 0) \<le> 10" using h by (simp add: hdr_ok_def Let_def d_def l_def)
  have out: "(d, y) \<notin> wkeys (redo d l D)" if "y \<in> log_region l" for y
    using redo_keys [OF h, of y] that by (simp add: d_def l_def)
  consider "ws = take k (redo d l D)" | "ws = redo d l D @ [(d, l, m)]"
    unfolding ws_def by (cases "k \<le> length (redo d l D)") auto
  then have "hdr_ok s (app D ws) \<and> (x \<notin> log_region l \<longrightarrow> view d l (app D ws) x = view d l D x)"
  proof cases
    case 1
    have keep: "app D ws d y = D d y" if "y \<in> log_region l" for y
      using out [OF that] wkeys_take [of k "redo d l D"] unfolding 1 by (intro app_other) blast
    have hd: "app D ws d l = D d l" by (rule keep [OF region_head])
    have r: "redo d l (app D ws) = redo d l D" using hd n keep region_blk by (intro redo_cong) blast+
    have "view d l (app D ws) x = view d l D x"
    proof (cases "(d, x) \<in> wkeys (redo d l D)")
      case False
      then have "(d, x) \<notin> wkeys ws" using wkeys_take [of k "redo d l D"] 1 by auto
      then show ?thesis using False by (simp add: view_def r app_other)
    qed (simp add: view_def r app_determined [of d x])
    then show ?thesis using h hd by (simp add: hdr_ok_def Let_def d_def l_def)
  next
    case 2
    have hd: "app D ws d l = m" unfolding 2 by (simp add: disk_upd_def)
    then have "redo d l (app D ws) = []" using m by (simp add: redo_def)
    then have "view d l (app D ws) = app D ws d" by (simp add: view_def)
    moreover have "app D ws d x = app D (redo d l D) d x" if "x \<notin> log_region l"
      using that region_head [of l] unfolding 2 by (auto simp: disk_upd_def)
    ultimately have "x \<notin> log_region l \<longrightarrow> view d l (app D ws) x = view d l D x" by (simp add: view_def)
    moreover have "hdr_ok s (app D ws)" using hd m by (simp add: hdr_ok_def Let_def d_def l_def)
    ultimately show ?thesis by blast
  qed
  then show "hdr_ok s (app D ws)" "x \<notin> log_region l \<Longrightarrow> view d l (app D ws) x = view d l D x" by blast+
qed

text \<open>A machine that has just started: nothing cached, nothing held.\<close>

definition fresh :: "u32 \<Rightarrow> 'z log_state_scheme \<Rightarrow> bool" where
  "fresh c r \<longleftrightarrow> bc c r (\<lambda>(d, n). disk r d n) {} {} \<and> log_geom r"

lemma recover_ok:
  fixes r :: "'z log_state_scheme"
  assumes r: "fresh c r" and h: "hdr_ok r (disk r)"
  shows "\<exists>t m. recover_from_log r = Inr ((), t) \<and> fresh c t \<and> log_keep r t \<and> lh_n t = 0 \<and> load32 m 0 = 0 \<and>
    log_lock t = log_lock r \<and> log_busy t = log_busy r \<and>
    disk t = app (disk r) (redo (log_dev r) (log_start r) (disk r) @ [(log_dev r, log_start r, m)]) \<and>
    ide_writes t = ide_writes r @ redo (log_dev r) (log_start r) (disk r) @ [(log_dev r, log_start r, m)]"
proof -
  define d l where "d = log_dev r" and "l = log_start r"
  note defs = d_def [symmetric] l_def [symmetric]
  let ?M = "\<lambda>(d, n). disk r d n"
  define n where "n = load32 (disk r d l) 0"
  have bc: "bc c r ?M {} {}" "log_geom r" using r by (simp_all add: fresh_def)
  have n: "unat n \<le> 10" using h by (simp add: hdr_ok_def Let_def n_def defs)
  have n0: "load32 (?M (lhk r (log_start r))) 0 = n" by (simp add: lhk_def n_def defs)
  have e: "lhk r (log_start r) \<notin> {}" "card (insert (lhk r (log_start r)) {}) \<le> 10" by simp_all
  obtain s where s: "read_head r = Inr ((), s)" "bc c s ?M {} {}" "log_keep r s" "disk s = disk r" "ide_writes s = ide_writes r"
    "lh_n s = n" "\<forall>i < n. lh_sector s i = hdr_sector (disk r d l) i" "log_lock s = log_lock r" "log_busy s = log_busy r"
    using read_head_ok [OF bc n0 n e] by (auto simp: lhk_def defs)
  have k: "log_dev s = d" "log_start s = l" "log_geom s"
    using s(3) bc(2) log_geom_keep [OF s(3)] by (simp_all add: log_keep_def defs)
  have home: "log_home s i = hdr_sector (disk r d l) (of_nat i)" if "i < unat n" for i
    using s(7) that n by (simp add: log_home_def word_less_nat_alt unat_of_nat)
  have "homes_ok s (unat (lh_n s))"
    unfolding homes_ok_def s(6) k(1,2)
  proof (intro conjI allI impI n)
    fix i assume i: "i < unat n"
    then show "sector_ok s d (log_home s i)" "log_home s i \<notin> log_region l"
      using hdr_okD [OF h, of i] log_keep_sector [OF s(3)] by (simp_all add: home [OF i] defs n_def)
  qed
  then have "\<exists>t. install_trans s = Inr ((), t) \<and> bc c t (app_map ?M (installs s ?M (unat n))) {}
      ({} - lhk s ` log_home s ` {..< unat n}) \<and> log_same s t \<and>
      disk t = app (disk s) (installs s ?M (unat n)) \<and> ide_writes t = ide_writes s @ installs s ?M (unat n)"
    using install_trans_ok [OF s(2) k(3)] by (simp add: s(6))
  moreover have "installs s ?M (unat n) = redo d l (disk r)"
    by (simp add: installs_def redo_def n_def [symmetric] log_block_def k home)
  ultimately obtain t where t: "install_trans s = Inr ((), t)" "bc c t (app_map ?M (redo d l (disk r))) {} {}" "log_same s t"
    "disk t = app (disk r) (redo d l (disk r))" "ide_writes t = ide_writes r @ redo d l (disk r)"
    using s(4,5) by auto
  let ?t = "t\<lparr>lh_n := 0\<rparr>"
  have kt: "log_dev t = d" "log_start t = l" "log_geom ?t" "log_keep s t"
    using t(3) k log_geom_keep [of s t] by (simp_all add: log_same_def log_keep_def)
  have bt: "bc c ?t (app_map ?M (redo d l (disk r))) {} {}" "unat (lh_n ?t) \<le> 10" using t(2) by simp_all
  have et: "lhk ?t (log_start ?t) \<notin> {}" "card (insert (lhk ?t (log_start ?t)) {}) \<le> 10" by simp_all
  obtain u m where u: "write_head ?t = Inr ((), u)" "hdr_has m 0 (lh_sector ?t)" "bc c u ((app_map ?M (redo d l (disk r)))((d, l) := m)) {} {}"
    "log_same ?t u" "disk u = disk_upd (disk ?t) d l m" "ide_writes u = ide_writes ?t @ [(d, l, m)]"
    using write_head_ok [OF bt(1) kt(3) bt(2) et] by (auto simp: lhk_def kt)
  have ku: "log_keep r u" using log_keep_trans [OF log_keep_trans [OF s(3) kt(4)], of u] u(4) log_keep_trans [of t ?t u] by (simp add: log_same_def)
  have "disk u = app (disk r) (redo d l (disk r) @ [(d, l, m)])" using u(5) t(4) by simp
  moreover have "bc c u (\<lambda>(d, n). disk u d n) {} {}"
  proof -
    have "(app_map ?M (redo d l (disk r)))((d, l) := m) = (\<lambda>(d, n). disk u d n)"
      using u(5) t(4) app_map_disk [of ?M "disk r" "redo d l (disk r)"] by (auto simp: fun_eq_iff disk_upd_def)
    then show ?thesis using u(3) by simp
  qed
  moreover have "log_geom u" using bc(2) log_geom_keep [OF ku] by simp
  moreover have "recover_from_log r = Inr ((), u)" using s(1) t(1) u(1) by (simp add: recover_from_log_def)
  ultimately show ?thesis
    using ku u(2,4,6) t(3,5) s(8,9) by (intro exI [of _ u] exI [of _ m]) (simp add: fresh_def defs hdr_has_def log_same_def)
qed

section \<open>Inside a transaction\<close>

lemma holds_key: "holds s i k \<Longrightarrow> holds s i k' \<Longrightarrow> k = k'"
  by (auto simp: holds_def)

lemma holds_log [simp]:
  "holds (s\<lparr>log_lock := l\<rparr>) = holds s" "holds (s\<lparr>log_busy := v\<rparr>) = holds s"
  "holds (s\<lparr>lh_n := v\<rparr>) = holds s" "holds (s\<lparr>lh_sector := f\<rparr>) = holds s"
  by (simp_all add: holds_def fun_eq_iff)

text \<open>The place of a sector in the list of logged sectors, and the list with the sector in it.\<close>

definition slot :: "u32 list \<Rightarrow> u32 \<Rightarrow> nat" where
  "slot xs x = length (takeWhile (\<lambda>y. y \<noteq> x) xs)"

definition ins :: "u32 \<Rightarrow> u32 list \<Rightarrow> u32 list" where
  "ins x xs = (if x \<in> set xs then xs else xs @ [x])"

lemma slot_simps [simp]: "slot [] x = 0" "slot (y # ys) x = (if y = x then 0 else Suc (slot ys x))"
  by (simp_all add: slot_def)

lemma slot_notin [simp]: "x \<notin> set xs \<Longrightarrow> slot xs x = length xs"
  by (induction xs) auto

lemma slot_in: "x \<in> set xs \<Longrightarrow> slot xs x < length xs \<and> xs ! slot xs x = x"
  by (induction xs) auto

lemma set_ins [simp]: "set (ins x xs) = insert x (set xs)" "distinct (ins x xs) = distinct xs"
  by (auto simp: ins_def)

lemma ins_slot:
  "slot xs x < length (ins x xs)" "ins x xs ! slot xs x = x"
  "i < length (ins x xs) \<Longrightarrow> i \<noteq> slot xs x \<Longrightarrow> i < length xs \<and> ins x xs ! i = xs ! i"
  using slot_in [of x xs] by (cases "x \<in> set xs"; auto simp: ins_def nth_append)+

lemma log_slot_ok:
  "\<forall>j < length ys. lh_sector s (i + of_nat j) = ys ! j \<Longrightarrow> unat i + length ys \<le> 10 \<Longrightarrow>
   log_slot (length ys) i x s = Inr (i + of_nat (slot ys x), s)"
proof (induction ys arbitrary: i)
  case (Cons y ys)
  have i: "i < LOGSIZE" "unat (i + 1) = Suc (unat i)"
    using Cons.prems(2) unat_add_exact [of i 1] by (simp_all add: LOGSIZE_def word_less_nat_alt)
  have y: "lh_sector s i = y" using Cons.prems(1) [rule_format, of 0] by simp
  have "lh_sector s (i + 1 + of_nat j) = ys ! j" if "j < length ys" for j
    using Cons.prems(1) [rule_format, of "Suc j"] that by (simp add: add.assoc)
  then have "log_slot (length ys) (i + 1) x s = Inr (i + 1 + of_nat (slot ys x), s)"
    using Cons.prems(2) i(2) by (intro Cons.IH) auto
  then show ?case using i(1) y by (simp add: lh_get_def add.assoc)
qed simp

text \<open>
  \<open>txn c s H B U xs\<close>: a transaction is active, the home sectors have the contents \<open>H\<close>, the
  buffers of the sectors \<open>B\<close> are held, those of \<open>U\<close> are changed and not yet logged, and \<open>xs\<close> are the
  logged sectors. Every logged sector not in \<open>U\<close> has its contents in its log block.
\<close>

definition home :: "'z log_state_scheme \<Rightarrow> bkey \<Rightarrow> bool" where
  "home s k \<longleftrightarrow> fst k = log_dev s \<and> snd k \<notin> log_region (log_start s) \<and> sector_ok s (fst k) (snd k)"

definition logged :: "'z log_state_scheme \<Rightarrow> (bkey \<Rightarrow> memory) \<Rightarrow> u32 list \<Rightarrow> u32 \<Rightarrow> bool" where
  "logged s M xs n \<longleftrightarrow> (\<forall>i < length xs. xs ! i = n \<longrightarrow> M (log_block s i) = M (lhk s n))"

definition log_room :: "'z log_state_scheme \<Rightarrow> bool" where
  "log_room s \<longleftrightarrow> 11 \<le> log_size s \<and> log_size s < 0x80000000"

definition txn_map :: "u32 \<Rightarrow> 'z log_state_scheme \<Rightarrow> (bkey \<Rightarrow> memory) \<Rightarrow> bkey set \<Rightarrow> bkey set \<Rightarrow> u32 list \<Rightarrow> bool" where
  "txn_map c s M B U xs \<longleftrightarrow> bc c s M B (lhk s ` set xs) \<and> log_geom s \<and> log_room s \<and> log_busy s \<noteq> 0 \<and>
     distinct xs \<and> length xs \<le> 9 \<and> lh_n s = of_nat (length xs) \<and> (\<forall>i < length xs. log_home s i = xs ! i) \<and>
     (\<forall>x \<in> set xs. home s (lhk s x)) \<and> (\<forall>k \<in> B. home s k) \<and> U \<subseteq> B \<and>
     (\<forall>n. lhk s n \<notin> U \<longrightarrow> logged s M xs n) \<and>
     (\<forall>k \<in> B - U. snd k \<notin> set xs \<longrightarrow> M k = disk s (fst k) (snd k))"

definition txn :: "u32 \<Rightarrow> 'z log_state_scheme \<Rightarrow> (bkey \<Rightarrow> memory) \<Rightarrow> bkey set \<Rightarrow> bkey set \<Rightarrow> u32 list \<Rightarrow> bool" where
  "txn c s H B U xs \<longleftrightarrow> (\<exists>M. txn_map c s M B U xs \<and> (\<forall>k. home s k \<longrightarrow> M k = H k))"

text \<open>What a step inside a transaction does to the machine: it writes log blocks only.\<close>

definition lstep :: "'z log_state_scheme \<Rightarrow> 'z log_state_scheme \<Rightarrow> bool" where
  "lstep s t \<longleftrightarrow> log_keep s t \<and> log_lock t = log_lock s \<and> log_busy t = log_busy s \<and>
     (\<exists>ws. ide_writes t = ide_writes s @ ws \<and> disk t = app (disk s) ws \<and> wkeys ws \<subseteq> log_block s ` {..< 10})"

lemma lstep_same:
  assumes "fs_keep s t" "disk t = disk s" "ide_writes t = ide_writes s"
  shows "lstep s t"
  using fs_keep_log [OF assms(1)] assms(2,3) by (auto simp: lstep_def log_same_def intro!: exI [of _ "[]"])

lemma lstep_refl [simp]: "lstep s s"
  by (rule lstep_same) simp_all

lemma lstep_trans: "lstep s t \<Longrightarrow> lstep t u \<Longrightarrow> lstep s u"
proof -
  assume a: "lstep s t" "lstep t u"
  obtain ws where ws: "ide_writes t = ide_writes s @ ws" "disk t = app (disk s) ws" "wkeys ws \<subseteq> log_block s ` {..< 10}"
    using a(1) by (auto simp: lstep_def)
  obtain vs where vs: "ide_writes u = ide_writes t @ vs" "disk u = app (disk t) vs" "wkeys vs \<subseteq> log_block t ` {..< 10}"
    using a(2) by (auto simp: lstep_def)
  have "log_block t = log_block s" using a(1) by (simp add: lstep_def log_keep_def log_block_def fun_eq_iff)
  then have "ide_writes u = ide_writes s @ (ws @ vs) \<and> disk u = app (disk s) (ws @ vs) \<and> wkeys (ws @ vs) \<subseteq> log_block s ` {..< 10}"
    using ws vs by simp
  moreover have "log_keep s u" using a log_keep_trans [of s t u] by (simp add: lstep_def)
  ultimately show ?thesis using a unfolding lstep_def by auto
qed

lemma lstep_sels:
  assumes "log_keep s t"
  shows "log_dev t = log_dev s" "log_start t = log_start s" "log_geom t = log_geom s" "log_room t = log_room s"
    "home t = home s" "lhk t = lhk s" "log_block t = log_block s"
  using assms log_geom_keep [OF assms] log_keep_sector [OF assms]
  by (simp_all add: log_keep_def log_room_def home_def lhk_def log_block_def fun_eq_iff)

lemma logged_cong: "log_block t = log_block s \<Longrightarrow> lhk t = lhk s \<Longrightarrow> logged t M xs n = logged s M xs n"
  by (simp add: logged_def)

lemma home_not_block: "home s k \<Longrightarrow> i < 10 \<Longrightarrow> k \<noteq> log_block s i"
  using log_block_region [of i s] by (auto simp: home_def)

lemma lhk_inj [simp]: "lhk s x = lhk s y \<longleftrightarrow> x = y" "lhk s x \<in> lhk s ` A \<longleftrightarrow> x \<in> A"
  "snd (lhk s x) = x" "fst (lhk s x) = log_dev s"
  by (auto simp: lhk_def)

text \<open>The invariant in a state that differs in the cache only.\<close>

lemma txn_map_cong:
  assumes "txn_map c s M B U xs" "fs_keep s t" "bc c t M' B' (lhk s ` set xs)"
    and "\<forall>k \<in> B'. home s k" "U' \<subseteq> B'" "\<And>n. lhk s n \<notin> U' \<Longrightarrow> logged s M' xs n"
    and "\<And>k. k \<in> B' - U' \<Longrightarrow> snd k \<notin> set xs \<Longrightarrow> M' k = disk t (fst k) (snd k)"
  shows "txn_map c t M' B' U' xs"
proof -
  have k: "log_same s t" by (rule fs_keep_log [OF assms(2)])
  then have "log_keep s t" by (simp add: log_same_def)
  note e = lstep_sels [OF this]
  have "log_home t = log_home s" using k by (simp add: log_home_def log_same_def fun_eq_iff)
  then show ?thesis
    using assms k logged_cong [OF e(7,6)] unfolding txn_map_def e by (simp add: log_same_def)
qed

lemma home_dev: "home s k \<Longrightarrow> lhk s (snd k) = k" "home s k \<Longrightarrow> k = (log_dev s, snd k)"
  by (cases k, simp add: home_def lhk_def)+

lemma t_read:
  assumes s: "txn c s H B U xs" and n: "home s (lhk s n)" "lhk s n \<notin> B" "card (insert (lhk s n) (B \<union> lhk s ` set xs)) \<le> 10"
  shows "\<exists>b t. bufcache_read (log_dev s) n s = Inr (b, t) \<and> txn c t H (insert (lhk s n) B) U xs \<and> holds t b (lhk s n) \<and>
    lstep s t \<and> (\<forall>j k. holds s j k \<longrightarrow> holds t j k)"
proof -
  obtain M where M: "txn_map c s M B U xs" "\<And>k. home s k \<Longrightarrow> M k = H k" using s by (auto simp: txn_def)
  have bc: "bc c s M B (lhk s ` set xs)" using M(1) by (simp add: txn_map_def)
  have "(log_dev s, n) \<notin> B" "sector_ok s (log_dev s) n" "card (insert (log_dev s, n) (B \<union> lhk s ` set xs)) \<le> 10"
    using n by (simp_all add: lhk_def home_def)
  then obtain b t where t: "bufcache_read (log_dev s) n s = Inr (b, t)" "bc c t M (insert (log_dev s, n) B) (lhk s ` set xs)"
    "holds t b (log_dev s, n)" "fs_keep s t" "disk t = disk s" "ide_writes t = ide_writes s" "\<forall>j k. holds s j k \<longrightarrow> holds t j k"
    using bread [OF bc] by blast
  have k: "log_keep s t" using fs_keep_log [OF t(4)] by (simp add: log_same_def)
  have "txn_map c t M (insert (lhk s n) B) U xs"
  proof (rule txn_map_cong [OF M(1) t(4)])
    show "bc c t M (insert (lhk s n) B) (lhk s ` set xs)" using t(2) by (simp add: lhk_def)
    fix k assume k: "k \<in> insert (lhk s n) B - U" "snd k \<notin> set xs"
    show "M k = disk t (fst k) (snd k)"
    proof (cases "k = lhk s n")
      case True
      then have "(log_dev s, n) \<notin> B \<union> lhk s ` set xs" using k(2) n(2) by (auto simp: lhk_def)
      from bcD(8) [OF bc this] show ?thesis using True t(5) by (simp add: lhk_def)
    qed (use M(1) k t(5) in \<open>auto simp: txn_map_def\<close>)
  qed (use M(1) n in \<open>auto simp: txn_map_def\<close>)
  then have "txn c t H (insert (lhk s n) B) U xs" using M(2) by (auto simp: txn_def lstep_sels(5) [OF k])
  then show ?thesis using t lstep_same [OF t(4,5,6)] by (simp add: lhk_def)
qed

lemma t_put:
  assumes s: "txn c s H B U xs" and b: "holds s b k"
  shows "\<exists>t. buf_put (\<lambda>x. x\<lparr>b_data := f (b_data x)\<rparr>) b s = Inr ((), t) \<and> txn c t (H(k := f (H k))) B (insert k U) xs \<and>
    lstep s t \<and> (\<forall>j k. holds t j k = holds s j k)"
proof -
  obtain M where M: "txn_map c s M B U xs" "\<And>k. home s k \<Longrightarrow> M k = H k" using s by (auto simp: txn_def)
  have bc: "bc c s M B (lhk s ` set xs)" "length xs \<le> 9" using M(1) by (simp_all add: txn_map_def)
  have k: "k \<in> B" using bc_held [OF bc(1) b] by simp
  then have hk: "home s k" using M(1) by (simp add: txn_map_def)
  obtain t where t: "buf_put (\<lambda>x. x\<lparr>b_data := f (b_data x)\<rparr>) b s = Inr ((), t)" "bc c t (M(k := f (M k))) B (lhk s ` set xs)"
    "fs_keep s t" "disk t = disk s" "ide_writes t = ide_writes s" "\<forall>j k. holds t j k = holds s j k"
    using bput [OF bc(1) b] by blast
  have lk: "log_keep s t" using fs_keep_log [OF t(3)] by (simp add: log_same_def)
  have "txn_map c t (M(k := f (M k))) B (insert k U) xs"
  proof (rule txn_map_cong [OF M(1) t(3,2)])
    fix n assume n: "lhk s n \<notin> insert k U"
    have "log_block s i \<noteq> k" if "i < length xs" for i using home_not_block [OF hk, of i] that bc(2) by auto
    then show "logged s (M(k := f (M k))) xs n" using M(1) n by (auto simp: txn_map_def logged_def)
  qed (use M(1) k t(4) in \<open>auto simp: txn_map_def\<close>)
  moreover have "(M(k := f (M k))) k' = (H(k := f (H k))) k'" if "home s k'" for k' using M(2) [OF that] M(2) [OF hk] by simp
  ultimately have "txn c t (H(k := f (H k))) B (insert k U) xs" unfolding txn_def lstep_sels(5) [OF lk] by blast
  then show ?thesis using t lstep_same [OF t(3,4,5)] by blast
qed

lemma t_get:
  assumes s: "txn c s H B U xs" and b: "holds s b k"
  shows "buf_get b_data b s = Inr (H k, s)" "k \<in> B" "home s k"
proof -
  obtain M where M: "txn_map c s M B U xs" "\<And>k. home s k \<Longrightarrow> M k = H k" using s by (auto simp: txn_def)
  have bc: "bc c s M B (lhk s ` set xs)" using M(1) by (simp add: txn_map_def)
  show "k \<in> B" using bc_held [OF bc b] by simp
  then show "home s k" using M(1) by (simp add: txn_map_def)
  then show "buf_get b_data b s = Inr (H k, s)" using bget(1) [OF bc b] M(2) by simp
qed

lemma t_rel:
  assumes s: "txn c s H B U xs" and b: "holds s b k" "k \<notin> U"
  shows "\<exists>t. bufcache_release b s = Inr ((), t) \<and> txn c t H (B - {k}) U xs \<and> lstep s t \<and>
    (\<forall>j k'. holds s j k' \<longrightarrow> j \<noteq> b \<longrightarrow> holds t j k')"
proof -
  obtain M where M: "txn_map c s M B U xs" "\<And>k. home s k \<Longrightarrow> M k = H k" using s by (auto simp: txn_def)
  have bc: "bc c s M B (lhk s ` set xs)" using M(1) by (simp add: txn_map_def)
  have k: "k \<in> B" "home s k" using t_get(2,3) [OF s b(1)] .
  have "k \<in> lhk s ` set xs \<or> M k = disk s (fst k) (snd k)"
  proof (cases "snd k \<in> set xs")
    case True
    then show ?thesis using lhk_inj(2) [of s "snd k" "set xs"] home_dev(1) [OF k(2)] by simp
  qed (use M(1) k b(2) in \<open>auto simp: txn_map_def\<close>)
  then obtain t where t: "bufcache_release b s = Inr ((), t)" "bc c t M (B - {k}) (lhk s ` set xs)" "fs_keep s t" "disk t = disk s"
    "ide_writes t = ide_writes s" "\<forall>j k'. holds s j k' \<longrightarrow> j \<noteq> b \<longrightarrow> holds t j k'"
    using brelse [OF bc b(1)] by blast
  have lk: "log_keep s t" using fs_keep_log [OF t(3)] by (simp add: log_same_def)
  have "txn_map c t M (B - {k}) U xs"
    by (rule txn_map_cong [OF M(1) t(3,2)]) (use M(1) b(2) t(4) in \<open>auto simp: txn_map_def\<close>)
  then have "txn c t H (B - {k}) U xs" using M(2) by (auto simp: txn_def lstep_sels(5) [OF lk])
  then show ?thesis using t lstep_same [OF t(3,4,5)] by blast
qed

lemma small_sint: "n \<le> 10 \<Longrightarrow> sint (of_nat n :: u32) = int n"
proof -
  assume n: "n \<le> 10"
  then have u: "unat (of_nat n :: u32) = n" by (simp add: unat_of_nat)
  then have "sint (of_nat n :: u32) = uint (of_nat n :: u32)"
    using sint_nonneg [of "of_nat n"] n by (simp add: word_less_nat_alt)
  moreover have "uint (of_nat n :: u32) = int n" using arg_cong [OF u, of int] unfolding of_nat_unat .
  ultimately show ?thesis by simp
qed

lemma log_room_sint: "log_room s \<Longrightarrow> 10 \<le> sint (log_size s - 1)"
proof -
  assume a: "log_room s"
  then have u: "unat (log_size s - 1) = unat (log_size s) - 1" "11 \<le> unat (log_size s)" "unat (log_size s) < 0x80000000"
    by (simp_all add: log_room_def word_le_nat_alt word_less_nat_alt unat_sub_exact)
  then have "log_size s - 1 < 0x80000000" by (simp add: word_less_nat_alt)
  then have "sint (log_size s - 1) = int (unat (log_size s - 1))" using sint_nonneg by simp
  then show ?thesis using u by linarith
qed

lemma log_write_ok:
  fixes s :: "'z log_state_scheme"
  assumes bc: "bc c s M B D" and b: "holds s b (log_dev s, n)"
    and xs: "lh_n s = of_nat (length xs)" "length xs \<le> 9" "\<forall>i < length xs. log_home s i = xs ! i"
    and g: "log_room s" "log_busy s \<noteq> 0" "log_geom s" and i: "i = slot xs n" "i < 10"
    and nb: "log_block s i \<notin> B" "log_block s i \<notin> D" "card (insert (log_block s i) (B \<union> D)) \<le> 10"
  shows "\<exists>z. log_write b s = Inr ((), z) \<and> bc c z (M(log_block s i := M (log_dev s, n))) B (insert (log_dev s, n) D) \<and>
    log_keep s z \<and> log_lock z = log_lock s \<and> log_busy z = log_busy s \<and>
    lh_n z = (if i = length xs then lh_n s + 1 else lh_n s) \<and> lh_sector z = (lh_sector s)(of_nat i := n) \<and>
    disk z = disk_upd (disk s) (fst (log_block s i)) (snd (log_block s i)) (M (log_dev s, n)) \<and>
    ide_writes z = ide_writes s @ [(fst (log_block s i), snd (log_block s i), M (log_dev s, n))] \<and>
    (\<forall>j k. holds s j k \<longrightarrow> holds z j k)"
proof -
  define d l k where "d = log_dev s" and "l = log_start s + of_nat i + 1" and "k = (log_dev s, n)"
  have lb: "log_block s i = (d, l)" by (simp add: d_def l_def log_block_def)
  have nb': "(d, l) \<notin> B" "(d, l) \<notin> D" "card (insert (d, l) (B \<union> D)) \<le> 10" using nb unfolding lb .
  have i': "of_nat i < LOGSIZE" using i(2) by (simp add: LOGSIZE_def word_less_nat_alt unat_of_nat)
  let ?s = "s\<lparr>lh_sector := (lh_sector s)(of_nat i := n)\<rparr>"
  have bs: "bc c ?s M B D" "holds ?s b k" using bc b by (simp_all add: k_def)
  have sec: "sector_ok ?s d l" using log_geom_sector [OF g(3) region_blk [OF i(2)]] by (simp add: sector_ok_def d_def l_def)
  obtain lbuf t where t: "bufcache_read d l ?s = Inr (lbuf, t)" "bc c t M (insert (d, l) B) D" "holds t lbuf (d, l)"
    "fs_keep ?s t" "disk t = disk ?s" "ide_writes t = ide_writes ?s" "\<forall>j k. holds ?s j k \<longrightarrow> holds t j k"
    using bread [OF bs(1) nb'(1) sec nb'(3)] by blast
  obtain u where u: "buf_put (\<lambda>x. x\<lparr>b_data := M k\<rparr>) lbuf t = Inr ((), u)" "bc c u (M((d, l) := M k)) (insert (d, l) B) D"
    "fs_keep t u" "disk u = disk t" "ide_writes u = ide_writes t" "\<forall>j k. holds u j k = holds t j k"
    using bput [OF t(2,3), where f = "\<lambda>_. M k"] by blast
  have "holds u lbuf (d, l)" "sector_ok u d l"
    using u(6) t(3) sec sector_ok_keep [OF t(4)] sector_ok_keep [OF u(3)] by simp_all
  then obtain w where w: "bufcache_write lbuf u = Inr ((), w)" "bc c w (M((d, l) := M k)) (insert (d, l) B) (D - {(d, l)})"
    "fs_keep u w" "disk w = disk_upd (disk u) d l (M k)" "ide_writes w = ide_writes u @ [(d, l, M k)]" "\<forall>j k. holds w j k = holds u j k"
    using bwrite [OF u(2)] by (metis fun_upd_same)
  have e: "D - {(d, l)} = D" "insert (d, l) B - {(d, l)} = B" using nb' by auto
  have hw: "holds w lbuf (d, l)" "(d, l) \<in> D \<or> (M((d, l) := M k)) (d, l) = disk w (fst (d, l)) (snd (d, l))"
    using u(6) w(4,6) t(3) by (simp_all add: disk_upd_def)
  obtain y where y: "bufcache_release lbuf w = Inr ((), y)" "bc c y (M((d, l) := M k)) B D" "fs_keep w y"
    "disk y = disk w" "ide_writes y = ide_writes w" "\<forall>j k'. holds w j k' \<longrightarrow> j \<noteq> lbuf \<longrightarrow> holds y j k'"
    using brelse [OF w(2) [unfolded e(1)] hw, unfolded e(2)] by blast
  have hy: "holds y j k'" if h: "holds s j k'" for j k'
  proof -
    have "k' \<noteq> (d, l)" using bc_held [OF bc h] nb'(1) by auto
    moreover have ht: "holds t j k'" using t(7) [rule_format, of j k'] h by simp
    ultimately have "j \<noteq> lbuf" using holds_key [of t lbuf "(d, l)" k'] t(3) by auto
    moreover have "holds w j k'" using ht u(6) [rule_format, of j k'] w(6) [rule_format, of j k'] by simp
    ultimately show ?thesis using y(6) by blast
  qed
  let ?y = "if i = length xs then y\<lparr>lh_n := lh_n s + 1\<rparr> else y"
  have by': "bc c ?y (M((d, l) := M k)) B D" "holds ?y b k" using y(2) hy [OF b] by (simp_all add: k_def)
  obtain z where z: "buf_put (\<lambda>x. x\<lparr>b_flags := b_flags x OR B_DIRTY\<rparr>) b ?y = Inr ((), z)"
    "bc c z (M((d, l) := M k)) B (insert k D)" "fs_keep ?y z" "disk z = disk ?y" "ide_writes z = ide_writes ?y"
    "\<forall>j k. holds z j k = holds ?y j k" using bdirty [OF by'] by blast
  have sy: "log_same ?s y" using fs_keep_log [of ?s y] t(4) u(3) w(3) y(3) fs_keep_trans by blast
  have ky: "log_keep s ?y" "log_lock ?y = log_lock s" "log_busy ?y = log_busy s" "lh_sector ?y = (lh_sector s)(of_nat i := n)"
    "lh_n ?y = (if i = length xs then lh_n s + 1 else lh_n s)"
    using sy log_keep_trans [of s ?s y] by (simp_all add: log_same_def)
  have kz: "log_same ?y z" by (rule fs_keep_log [OF z(3)])
  have iff: "of_nat i = lh_n s \<longleftrightarrow> i = length xs" using xs(2) i(2) by (simp add: xs(1) word_unat_eq_iff unat_of_nat)
  have sz: "sint (lh_n s) = int (length xs)" using small_sint [of "length xs"] xs by simp
  have g1: "sint (lh_n s) < sint LOGSIZE" "sint (lh_n s) < sint (log_size s - 1)"
    using log_room_sint [OF g(1)] xs(2) by (simp_all add: sz LOGSIZE_def)
  have g2: "buf_get b_sector b s = Inr (n, s)" "buf_get b_dev b ?s = Inr (d, ?s)" "buf_get b_data b t = Inr (M k, t)"
    using bget [OF bc b] bget [OF bs] bget(1) [OF t(2), of b k] t(7) [rule_format, of b k] bs(2) by (simp_all add: d_def k_def)
  have "log_slot (length xs) 0 n s = Inr (of_nat i, s)"
    using log_slot_ok [of xs s 0 n] xs by (simp add: log_home_def i(1))
  moreover have "(if of_nat i = lh_n s then kmodify (\<lambda>s'. s'\<lparr>lh_n := lh_n s + 1\<rparr>) else kret ()) y = Inr ((), ?y)"
    unfolding iff by simp
  ultimately have "log_write b s = Inr ((), z)"
    using g(2) g1 g2 t(1) u(1) w(1) y(1) z(1) i' by (simp add: log_write_def sz lh_set_def l_def [symmetric])
  moreover have "\<forall>j k'. holds s j k' \<longrightarrow> holds z j k'" using hy z(6) by (cases "i = length xs") auto
  ultimately show ?thesis
    using z(2,4,5) y(4,5) w(4,5) u(4,5) t(5,6) ky kz log_keep_trans [OF ky(1), of z]
    unfolding lb by (intro exI [of _ z]) (simp add: log_same_def k_def)
qed

lemma ins_homes:
  assumes "\<forall>j < length xs. f (of_nat j :: u32) = xs ! j" "length (ins n xs) \<le> 10" "j < length (ins n xs)"
  shows "(f(of_nat (slot xs n) := n)) (of_nat j) = ins n xs ! j"
proof (cases "j = slot xs n")
  case True
  then show ?thesis using ins_slot(2) [of n xs] by simp
next
  case False
  then have "(of_nat j :: u32) \<noteq> of_nat (slot xs n)"
    using assms(2,3) ins_slot(1) [of xs n] by (simp add: word_unat_eq_iff unat_of_nat)
  then show ?thesis using ins_slot(3) [OF assms(3) False] assms(1) by simp
qed

lemma log_block_inj: "i < 10 \<Longrightarrow> j < 10 \<Longrightarrow> log_block s i = log_block s j \<longleftrightarrow> i = j"
proof -
  assume a: "i < 10" "j < 10"
  have "log_block s i = log_block s j \<longleftrightarrow> (of_nat i :: u32) = of_nat j" by (simp add: log_block_def)
  also have "\<dots> \<longleftrightarrow> i = j" using a by (simp add: word_unat_eq_iff unat_of_nat)
  finally show ?thesis .
qed

text \<open>The log after a write: the block of the slot has the contents of the sector.\<close>

lemma logged_ins:
  assumes "distinct xs" "length (ins n xs) \<le> 9" "\<forall>x \<in> set (ins n xs). home s (lhk s x)"
    and old: "m \<noteq> n \<Longrightarrow> logged s M xs m"
  shows "logged s (M(log_block s (slot xs n) := M (lhk s n))) (ins n xs) m"
  unfolding logged_def
proof (intro allI impI)
  let ?i = "slot xs n"
  fix j assume j: "j < length (ins n xs)" "ins n xs ! j = m"
  have i: "?i < 10" "j < 10" using ins_slot(1) [of xs n] assms(2) j(1) by simp_all
  have "home s (lhk s m)" using assms(3) nth_mem [OF j(1)] j(2) by auto
  then have m: "lhk s m \<noteq> log_block s ?i" by (rule home_not_block [OF _ i(1)])
  show "(M(log_block s ?i := M (lhk s n))) (log_block s j) = (M(log_block s ?i := M (lhk s n))) (lhk s m)"
  proof (cases "j = ?i")
    case True
    then show ?thesis using m j(2) ins_slot(2) [of n xs] by simp
  next
    case False
    note jj = ins_slot(3) [OF j(1) False]
    have "m \<noteq> n"
      using False j ins_slot(1,2) nth_eq_iff_index_eq [of "ins n xs" j ?i] assms(1) by auto
    then have "M (log_block s j) = M (lhk s m)" using old jj j(2) by (simp add: logged_def)
    then show ?thesis using False m log_block_inj [OF i(2,1), of s] by simp
  qed
qed

lemma ins_length:
  assumes "distinct xs" "lhk s n \<in> B" "card (B \<union> lhk s ` set xs) \<le> 9" "finite B"
  shows "length (ins n xs) \<le> 9"
proof -
  have "length (ins n xs) = card (lhk s ` set (ins n xs))"
    using distinct_card [of "ins n xs"] card_image [of "lhk s" "set (ins n xs)"] assms(1) by (simp add: inj_on_def del: set_ins(1))
  also have "\<dots> \<le> card (B \<union> lhk s ` set xs)" using assms(2,4) by (intro card_mono) auto
  finally show ?thesis using assms(3) by simp
qed

lemma t_log:
  fixes s :: "'z log_state_scheme"
  assumes s: "txn c s H B U xs" and b: "holds s b (lhk s n)" and card: "card (B \<union> lhk s ` set xs) \<le> 9" "finite B"
  shows "\<exists>t. log_write b s = Inr ((), t) \<and> txn c t H B (U - {lhk s n}) (ins n xs) \<and> lstep s t \<and>
    (\<forall>j k. holds s j k \<longrightarrow> holds t j k)"
proof -
  obtain M where M: "txn_map c s M B U xs" "\<And>k. home s k \<Longrightarrow> M k = H k" using s by (auto simp: txn_def)
  define i where "i = slot xs n"
  note inv = M(1) [unfolded txn_map_def]
  have bc: "bc c s M B (lhk s ` set xs)" and xs: "lh_n s = of_nat (length xs)" "length xs \<le> 9" "\<forall>i < length xs. log_home s i = xs ! i" "distinct xs"
    and g: "log_room s" "log_busy s \<noteq> 0" "log_geom s" using inv by simp_all
  have k: "lhk s n \<in> B" "home s (lhk s n)" using t_get(2,3) [OF s b] .
  have len: "length (ins n xs) \<le> 9" by (rule ins_length [OF xs(4) k(1) card])
  have i: "i < 10" using ins_slot(1) [of xs n] len by (simp add: i_def)
  have homes: "\<forall>x \<in> set (ins n xs). home s (lhk s x)" using inv k(2) by auto
  have out: "k \<noteq> log_block s i" if "k \<in> B \<union> lhk s ` set xs" for k
  proof -
    have "home s k" using that inv by auto
    then show ?thesis by (rule home_not_block [OF _ i])
  qed
  then have nb: "log_block s i \<notin> B" "log_block s i \<notin> lhk s ` set xs" by blast+
  have c10: "card (insert (log_block s i) (B \<union> lhk s ` set xs)) \<le> 10"
    using card card_insert_le_m1 [of 10 "B \<union> lhk s ` set xs" "log_block s i"] by simp
  let ?M = "M(log_block s i := M (lhk s n))"
  obtain z where z: "log_write b s = Inr ((), z)" "bc c z ?M B (insert (lhk s n) (lhk s ` set xs))" "log_keep s z"
    "log_lock z = log_lock s" "log_busy z = log_busy s" "lh_n z = (if i = length xs then lh_n s + 1 else lh_n s)"
    "lh_sector z = (lh_sector s)(of_nat i := n)" "disk z = disk_upd (disk s) (fst (log_block s i)) (snd (log_block s i)) (M (lhk s n))"
    "ide_writes z = ide_writes s @ [(fst (log_block s i), snd (log_block s i), M (lhk s n))]" "\<forall>j k. holds s j k \<longrightarrow> holds z j k"
    using log_write_ok [OF bc b [unfolded lhk_def] xs(1-3) g i_def i nb c10, folded lhk_def] by blast
  note ez = lstep_sels [OF z(3)]
  have "txn_map c z ?M B (U - {lhk s n}) (ins n xs)"
    unfolding txn_map_def ez
  proof (intro conjI allI impI ballI)
    show "bc c z ?M B (lhk s ` set (ins n xs))" using z(2) by simp
    show "lh_n z = of_nat (length (ins n xs))"
      using z(6) slot_in [of n xs] by (auto simp: xs(1) ins_def i_def)
    show "log_home z j = ins n xs ! j" if "j < length (ins n xs)" for j
      using ins_homes [of xs "lh_sector s" n j] xs(3) len that by (simp add: log_home_def z(7) i_def)
    show "logged z ?M (ins n xs) m" if "lhk s m \<notin> U - {lhk s n}" for m
      unfolding logged_cong [OF ez(7,6)] i_def using inv that by (intro logged_ins [OF xs(4) len homes]) auto
    show "?M k' = disk z (fst k') (snd k')" if k': "k' \<in> B - (U - {lhk s n})" "snd k' \<notin> set (ins n xs)" for k'
    proof -
      have ne: "k' \<noteq> lhk s n" "k' \<noteq> log_block s i" using k' nb(1) by auto
      then have "M k' = disk s (fst k') (snd k')" using k' inv by auto
      moreover have "disk z (fst k') (snd k') = disk s (fst k') (snd k')"
        using ne(2) by (cases k'; cases "log_block s i") (auto simp: z(8) disk_upd_def)
      ultimately show ?thesis using ne by simp
    qed
  qed (use inv homes len z in auto)
  moreover have "?M k' = H k'" if "home s k'" for k' using M(2) [OF that] home_not_block [OF that i] by simp
  ultimately have "txn c z H B (U - {lhk s n}) (ins n xs)" unfolding txn_def ez by blast
  moreover have "lstep s z"
    unfolding lstep_def using z(3-5,8,9) i
    by (intro conjI exI [of _ "[(fst (log_block s i), snd (log_block s i), M (lhk s n))]"]) simp_all
  ultimately show ?thesis using z(1,10) by blast
qed

section \<open>Begin and commit\<close>

text \<open>Between transactions: nothing is cached that is not on the disk, and the log is empty.\<close>

definition idle :: "u32 \<Rightarrow> 'z log_state_scheme \<Rightarrow> (bkey \<Rightarrow> memory) \<Rightarrow> bool" where
  "idle c s H \<longleftrightarrow> fresh c s \<and> log_room s \<and> log_busy s = 0 \<and> lh_n s = 0 \<and> lock_ready (cur_kstack s) (log_lock s) \<and>
     load32 (disk s (log_dev s) (log_start s)) 0 = 0 \<and> (\<forall>k. home s k \<longrightarrow> disk s (fst k) (snd k) = H k)"

lemma begin_ok:
  assumes "idle c s H"
  shows "\<exists>t. begin_trans s = Inr ((), t) \<and> txn c t H {} {} [] \<and> log_keep s t \<and> disk t = disk s \<and> ide_writes t = ide_writes s \<and>
    lock_ready (cur_kstack t) (log_lock t)"
proof -
  let ?t = "s\<lparr>log_lock := taken (cur_kstack s) (log_lock s), log_busy := 1, log_lock := spinlock_release_A (taken (cur_kstack s) (log_lock s))\<rparr>"
  have l: "lock_ready (cur_kstack s) (log_lock s)" using assms by (simp add: idle_def)
  have run: "begin_trans s = Inr ((), ?t)" using assms l by (simp add: begin_trans_def idle_def)
  have k: "log_keep s ?t" by simp
  have "txn_map c ?t (\<lambda>(d, n). disk s d n) {} {} []"
    using assms lstep_sels(3,4) [OF k] by (simp add: txn_map_def idle_def fresh_def logged_def)
  then have "txn c ?t H {} {} []"
    using assms unfolding txn_def lstep_sels(5) [OF k] by (intro exI conjI) (auto simp: idle_def)
  then show ?thesis using run k lock_ready_magic [OF l] by (intro exI [of _ ?t]) simp
qed

lemma wakeup_bc:
  fixes s :: "'z log_state_scheme"
  assumes s: "bc c s M B D"
  shows "\<exists>t. thread_wakeup ch s = Inr ((), t) \<and> bc c t M B D \<and> fs_keep s t \<and> disk t = disk s \<and> ide_writes t = ide_writes s"
proof (rule kwp_unit [THEN iffD1], rule thread_wakeup_wp [of c])
  show "sched_live c s" using bcD(1) [OF s] by (simp add: fs_ok_def)
  fix t assume t: "woke s t" "sched_live c t"
  note w = woke_sel [OF t(1)]
  have "fs_ok c t" using bcD(1) [OF s] t(2) w by (simp add: fs_ok_def dev_ready_def)
  then have "bc c t M B D" using s w unfolding bc_def lru_def by simp
  then show "bc c t M B D \<and> fs_keep s t \<and> disk t = disk s \<and> ide_writes t = ide_writes s"
    using fs_keep_woke [OF t(1)] w by simp
qed

lemma app_map_same: "\<forall>(d, n, m) \<in> set ws. m = M (d, n) \<Longrightarrow> app_map M ws = M"
proof (induction ws rule: rev_induct)
  case (snoc w ws)
  obtain d n m where w: "w = (d, n, m)" by (cases w)
  then have "app_map M (ws @ [w]) = (app_map M ws)((d, n) := m)" by (simp del: app_simps(7))
  then show ?case using snoc by (auto simp: w)
qed simp

text \<open>The writes of a commit, and what they leave on the disk.\<close>

lemma commit_writes:
  fixes s :: "'z log_state_scheme"
  assumes s: "txn c s H {} {} xs" and ne: "xs \<noteq> []"
  defines "d \<equiv> log_dev s" and "l \<equiv> log_start s"
  shows "\<exists>t m m0. kseq write_head (kseq install_trans (kseq (kmodify (\<lambda>s. s\<lparr>lh_n := 0\<rparr>)) write_head)) s = Inr ((), t) \<and>
    bc c t (\<lambda>(d, n). disk t d n) {} {} \<and> log_keep s t \<and> log_lock t = log_lock s \<and> log_busy t = log_busy s \<and> lh_n t = 0 \<and>
    load32 m0 0 = 0 \<and> hdr_ok s (disk_upd (disk s) d l m) \<and>
    (let E = disk_upd (disk s) d l m; ws = redo d l E @ [(d, l, m0)] in
      disk t = app E ws \<and> ide_writes t = ide_writes s @ (d, l, m) # ws \<and> (\<forall>k. home s k \<longrightarrow> view d l E (snd k) = H k))"
proof -
  obtain M where M: "txn_map c s M {} {} xs" "\<And>k. home s k \<Longrightarrow> M k = H k" using s by (auto simp: txn_def)
  note inv = M(1) [unfolded txn_map_def]
  let ?D = "lhk s ` set xs"
  define n where "n = length xs"
  have un: "unat (lh_n s) = n" "n \<le> 9" "lh_n s = of_nat n" using inv by (simp_all add: n_def unat_of_nat)
  have homes: "home s k" if "k \<in> ?D" for k using that inv by auto
  have hl: "lhk s l \<notin> ?D" using homes [of "lhk s l"] region_head [of l] by (auto simp: home_def l_def)
  have cD: "card ?D \<le> 9" using un(2) card_length [of xs] card_image_le [of "set xs" "lhk s"] by (simp add: n_def)
  have c10: "card (insert (lhk s l) ?D) \<le> 10" using cD card_insert_le_m1 [of 10 ?D "lhk s l"] by simp
  have bc: "bc c s M {} ?D" "log_geom s" using inv by simp_all
  have "unat (lh_n s) \<le> 10" using un by simp
  then obtain s1 m where s1: "write_head s = Inr ((), s1)" "hdr_has m (lh_n s) (lh_sector s)" "bc c s1 (M(lhk s l := m)) {} ?D"
    "log_same s s1" "disk s1 = disk_upd (disk s) d l m" "ide_writes s1 = ide_writes s @ [(d, l, m)]"
    using write_head_ok [OF bc, of] hl c10 unfolding d_def l_def by blast
  let ?M = "M(lhk s l := m)" and ?E = "disk_upd (disk s) d l m"
  have k1: "log_keep s s1" "log_home s1 = log_home s" "lh_n s1 = lh_n s"
    using s1(4) by (simp_all add: log_same_def log_home_def fun_eq_iff)
  note e1 = lstep_sels [OF k1(1)]
  have hm: "log_home s i = xs ! i" "home s (lhk s (xs ! i))" if "i < n" for i using that inv by (auto simp: n_def)
  have hok: "homes_ok s1 (unat (lh_n s1))"
    using hm un log_keep_sector [OF k1(1)] by (auto simp: homes_ok_def k1(2,3) e1(1,2) home_def)
  have lbD: "log_block s i \<notin> ?D" if "i < 10" for i using homes home_not_block [OF _ that] by blast
  have lbl: "log_block s i \<noteq> lhk s l" if "i < 10" for i
  proof -
    have "(of_nat i + 1 :: u32) \<noteq> 0" using that by (simp add: word_unat_eq_iff unat_of_nat unat_word_ariths)
    then show ?thesis by (simp add: log_block_def lhk_def l_def add.assoc)
  qed
  have c9: "card (insert (lhk s1 (log_home s1 i)) ?D) \<le> 9" if "i < unat (lh_n s1)" for i
    using that cD un hm [of i] by (simp add: k1(2,3) e1(6) insert_absorb n_def)
  obtain s2 where s2: "install_trans s1 = Inr ((), s2)" "bc c s2 (app_map ?M (installs s1 ?M n)) {} (?D - lhk s ` log_home s ` {..< n})"
    "log_same s1 s2" "disk s2 = app ?E (installs s1 ?M n)" "ide_writes s2 = ide_writes s1 @ installs s1 ?M n"
    using install_trans_ok [OF s1(3) _ hok _ _ c9] bc(2) lbD un by (auto simp: k1(2,3) e1(3,6,7) s1(5))
  have De: "?D - lhk s ` log_home s ` {..< n} = {}" using hm(1) by (auto simp: image_iff in_set_conv_nth n_def)
  have Me: "app_map ?M (installs s1 ?M n) = ?M"
  proof (rule app_map_same, clarify)
    fix a b mm assume "(a, b, mm) \<in> set (installs s1 ?M n)"
    then obtain i where i: "i < n" "a = d" "b = xs ! i" "mm = ?M (log_block s i)"
      using hm(1) by (auto simp: installs_def k1(2) e1(1,7) d_def)
    have "M (log_block s i) = M (lhk s (xs ! i))" using inv i(1) by (auto simp: logged_def n_def)
    moreover have "lhk s (xs ! i) \<noteq> lhk s l" using hm(2) [OF i(1)] region_head [of l] by (auto simp: home_def l_def)
    ultimately show "mm = ?M (a, b)" using i un(2) lbl [of i] by (simp add: lhk_def d_def)
  qed
  have bc2: "bc c s2 ?M {} {}" using s2(2) unfolding De Me .
  have rd: "installs s1 ?M n = redo d l ?E"
  proof -
    have "hdr_sector m (of_nat i) = xs ! i" if "i < n" for i
      using s1(2) hm(1) [OF that] that un by (simp add: hdr_has_def log_home_def word_less_nat_alt unat_of_nat)
    moreover have "?M (log_block s i) = ?E d (l + of_nat i + 1)" if i: "i < n" for i
      using bcD(8) [OF bc(1), of "fst (log_block s i)" "snd (log_block s i)"] lbD [of i] lbl [of i] i un(2)
      by (simp add: disk_upd_def log_block_def d_def l_def lhk_def)
    moreover have "?E d l = m" "unat (load32 m 0) = n" using s1(2) un by (simp_all add: disk_upd_def hdr_has_def)
    ultimately show ?thesis by (auto simp: installs_def redo_def k1(2) e1(1,7) d_def hm(1))
  qed
  have hE: "hdr_ok s ?E"
  proof -
    have "home s (lhk s (hdr_sector m i))" if "i < lh_n s" for i
      using s1(2) hm [of "unat i"] that un by (simp add: hdr_has_def log_home_def word_less_nat_alt)
    then show ?thesis using s1(2) un by (auto simp: hdr_ok_def Let_def disk_upd_def d_def l_def hdr_has_def home_def lhk_def)
  qed
  let ?s2 = "s2\<lparr>lh_n := 0\<rparr>"
  have k2: "log_keep s s2" using log_keep_trans [OF k1(1)] s2(3) by (simp add: log_same_def)
  note e2 = lstep_sels [OF k2]
  have "bc c ?s2 ?M {} {}" "log_geom ?s2" "unat (lh_n ?s2) \<le> 10" "lhk ?s2 (log_start ?s2) \<notin> {}" "card (insert (lhk ?s2 (log_start ?s2)) {}) \<le> 10"
    using bc2 e2(3) bc(2) by simp_all
  from write_head_ok [OF this] obtain s3 m0 where s3: "write_head ?s2 = Inr ((), s3)" "hdr_has m0 0 (lh_sector ?s2)"
    "bc c s3 (?M(lhk s l := m0)) {} {}" "log_same ?s2 s3" "disk s3 = disk_upd (disk ?s2) d l m0" "ide_writes s3 = ide_writes ?s2 @ [(d, l, m0)]"
    by (auto simp: e2(1,2) lhk_def d_def l_def)
  have k3: "log_keep s s3" using log_keep_trans [OF k2, of s3] log_keep_trans [of s2 ?s2 s3] s3(4) by (simp add: log_same_def)
  have "?M(lhk s l := m0) = (\<lambda>(d, n). disk s3 d n)" using bcD(8) [OF s3(3)] by (auto simp: fun_eq_iff)
  then have "bc c s3 (\<lambda>(d, n). disk s3 d n) {} {}" using s3(3) by simp
  moreover have "\<forall>k. home s k \<longrightarrow> view d l ?E (snd k) = H k"
  proof (intro allI impI)
    fix k assume h: "home s k"
    have "view d l ?E (snd k) = disk s2 d (snd k)" by (simp add: view_def s2(4) rd)
    also have "\<dots> = ?M k" using bcD(8) [OF bc2, of d "snd k"] home_dev(2) [OF h] by (simp add: d_def)
    also have "\<dots> = H k" using M(2) [OF h] h region_head [of l] by (auto simp: home_def l_def lhk_def)
    finally show "view d l ?E (snd k) = H k" .
  qed
  moreover have "kseq write_head (kseq install_trans (kseq (kmodify (\<lambda>s. s\<lparr>lh_n := 0\<rparr>)) write_head)) s = Inr ((), s3)"
    using s1(1) s2(1) s3(1) by simp
  moreover have "disk s3 = app ?E (redo d l ?E @ [(d, l, m0)])" "ide_writes s3 = ide_writes s @ (d, l, m) # redo d l ?E @ [(d, l, m0)]"
    using s3(5,6) s2(4,5) s1(6) by (simp_all add: rd)
  ultimately show ?thesis
    using k3 hE s1(4) s2(3) s3(2,4)
    by - (rule exI [of _ s3], rule exI [of _ m], rule exI [of _ m0], simp add: Let_def log_same_def hdr_has_def)
qed

text \<open>A disk from which recovery gives the contents \<open>H\<close>.\<close>

definition recovers :: "'z log_state_scheme \<Rightarrow> sectors \<Rightarrow> (bkey \<Rightarrow> memory) \<Rightarrow> bool" where
  "recovers s D H \<longleftrightarrow> hdr_ok s D \<and> (\<forall>k. home s k \<longrightarrow> view (log_dev s) (log_start s) D (snd k) = H k)"

lemma recoversD: "recovers s D H \<Longrightarrow> home s k \<Longrightarrow> view (log_dev s) (log_start s) D (snd k) = H k"
  unfolding recovers_def by blast

lemma recovers_empty:
  assumes "load32 (D (log_dev s) (log_start s)) 0 = 0" "\<And>k. home s k \<Longrightarrow> D (fst k) (snd k) = H k"
  shows "recovers s D H"
proof -
  have "view (log_dev s) (log_start s) D = D (log_dev s)" using assms(1) by (simp add: view_def redo_def)
  moreover have "D (log_dev s) (snd k) = H k" if "home s k" for k using assms(2) [OF that] that by (simp add: home_def)
  ultimately show ?thesis using assms(1) by (simp add: recovers_def hdr_ok_def Let_def)
qed

lemma recovers_redo:
  assumes "recovers s D H" "load32 m 0 = 0"
  shows "recovers s (app D (take k (redo (log_dev s) (log_start s) D @ [(log_dev s, log_start s, m)]))) H"
  using redo_prefix [where s = s and D = D and m = m and k = k] assms unfolding recovers_def by (auto simp: home_def)

lemma app_block:
  assumes "wkeys ws \<subseteq> log_block s ` {..< 10}"
  shows "home s k \<Longrightarrow> app D ws (fst k) (snd k) = D (fst k) (snd k)" "app D ws (log_dev s) (log_start s) = D (log_dev s) (log_start s)"
proof -
  assume h: "home s k"
  have "k \<notin> wkeys ws" using assms home_not_block [OF h] by blast
  then show "app D ws (fst k) (snd k) = D (fst k) (snd k)" using app_other [of "fst k" "snd k" ws D] by simp
next
  have "(log_dev s, log_start s) \<noteq> log_block s i" if "i < 10" for i
  proof -
    have "(of_nat i + 1 :: u32) \<noteq> 0" using that by (simp add: word_unat_eq_iff unat_of_nat unat_word_ariths)
    then show ?thesis by (simp add: log_block_def add.assoc)
  qed
  then have "(log_dev s, log_start s) \<notin> wkeys ws" using assms by blast
  then show "app D ws (log_dev s) (log_start s) = D (log_dev s) (log_start s)" by (rule app_other)
qed

lemma recovers_cong: "log_keep s t \<Longrightarrow> recovers t D H = recovers s D H"
  using log_keep_sector [of s t] lstep_sels [of s t] by (simp add: recovers_def hdr_ok_def)

lemma commit_ok:
  fixes s :: "'z log_state_scheme"
  assumes s: "txn c s H {} {} xs" and l: "lock_ready (cur_kstack s) (log_lock s)" and h: "load32 (disk s (log_dev s) (log_start s)) 0 = 0"
  shows "\<exists>t ws. commit_trans s = Inr ((), t) \<and> idle c t H \<and> log_keep s t \<and> ide_writes t = ide_writes s @ ws \<and>
    disk t = app (disk s) ws \<and> (\<forall>k. 0 < k \<longrightarrow> k \<le> length ws \<longrightarrow> recovers s (app (disk s) (take k ws)) H)"
proof -
  obtain M where M: "txn_map c s M {} {} xs" "\<And>k. home s k \<Longrightarrow> M k = H k" using s by (auto simp: txn_def)
  note inv = M(1) [unfolded txn_map_def]
  have n: "sint (lh_n s) = int (length xs)" using small_sint [of "length xs"] inv by simp
  let ?w = "if 0 < sint (lh_n s) then kseq write_head (kseq install_trans (kseq (kmodify (\<lambda>s. s\<lparr>lh_n := 0\<rparr>)) write_head)) else kret ()"
  define d l where "d = log_dev s" and "l = log_start s"
  have "\<exists>t ws. ?w s = Inr ((), t) \<and> bc c t (\<lambda>(d, n). disk t d n) {} {} \<and> log_keep s t \<and> log_lock t = log_lock s \<and> lh_n t = 0 \<and>
    load32 (disk t d l) 0 = 0 \<and> (\<forall>k. home s k \<longrightarrow> disk t (fst k) (snd k) = H k) \<and>
    ide_writes t = ide_writes s @ ws \<and> disk t = app (disk s) ws \<and>
    (\<forall>k. 0 < k \<longrightarrow> k \<le> length ws \<longrightarrow> recovers s (app (disk s) (take k ws)) H)"
  proof (cases "xs = []")
    case True
    have e: "M = (\<lambda>(d, n). disk s d n)" using bcD(8) [of c s M "{}" "{}"] inv True by (auto simp: fun_eq_iff)
    then have "bc c s (\<lambda>(d, n). disk s d n) {} {}" "lh_n s = 0" using inv True by simp_all
    moreover have "\<forall>k. home s k \<longrightarrow> disk s (fst k) (snd k) = H k" using M(2) e by auto
    ultimately show ?thesis using n True h by (intro exI [of _ s] exI [of _ "[]"]) (simp add: d_def l_def)
  next
    case False
    then have pos: "0 < sint (lh_n s)" using n by simp
    let ?E = "\<lambda>m. disk_upd (disk s) d l m"
    obtain t m m0 where t: "?w s = Inr ((), t)" "bc c t (\<lambda>(d, n). disk t d n) {} {}" "log_keep s t" "log_lock t = log_lock s" "lh_n t = 0"
      "load32 m0 0 = 0" "hdr_ok s (?E m)" "disk t = app (?E m) (redo d l (?E m) @ [(d, l, m0)])"
      "ide_writes t = ide_writes s @ (d, l, m) # redo d l (?E m) @ [(d, l, m0)]" "\<forall>k. home s k \<longrightarrow> view d l (?E m) (snd k) = H k"
      using commit_writes [OF s False] pos unfolding d_def l_def Let_def by auto
    have r: "recovers s (?E m) H" using t(7,10) by (simp add: recovers_def d_def l_def)
    have p: "recovers s (app (disk s) (take k ((d, l, m) # redo d l (?E m) @ [(d, l, m0)]))) H" if "0 < k" for k
      using recovers_redo [OF r t(6), of "k - 1"] that unfolding d_def l_def by (cases k) (simp_all add: app_Cons)
    have "app (?E m) (redo d l (?E m) @ [(d, l, m0)]) = app (disk s) ((d, l, m) # redo d l (?E m) @ [(d, l, m0)])" by (simp only: app_Cons)
    moreover have hd: "disk t d l = m0" unfolding t(8) by (simp add: disk_upd_def)
    moreover have "disk t (fst k) (snd k) = H k" if k: "home s k" for k
    proof -
      have "recovers s (disk t) H" using recovers_redo [OF r t(6), of "length (redo d l (?E m) @ [(d, l, m0)])"] unfolding t(8) d_def l_def by simp
      then have "view d l (disk t) (snd k) = H k" using recoversD [OF _ k] by (simp add: d_def l_def)
      moreover have "view d l (disk t) = disk t d" using hd t(6) by (simp add: view_def redo_def)
      ultimately show ?thesis using k by (simp add: home_def d_def)
    qed
    ultimately show ?thesis using t p by (intro exI [of _ t] exI [of _ "(d, l, m) # redo d l (?E m) @ [(d, l, m0)]"]) simp
  qed
  then obtain t ws where t: "?w s = Inr ((), t)" "bc c t (\<lambda>(d, n). disk t d n) {} {}" "log_keep s t" "log_lock t = log_lock s" "lh_n t = 0"
    "load32 (disk t d l) 0 = 0" "\<forall>k. home s k \<longrightarrow> disk t (fst k) (snd k) = H k" "ide_writes t = ide_writes s @ ws" "disk t = app (disk s) ws"
    "\<forall>k. 0 < k \<longrightarrow> k \<le> length ws \<longrightarrow> recovers s (app (disk s) (take k ws)) H" by blast
  have lt: "lock_ready (cur_kstack t) (log_lock t)" using l t(4) log_keep_kstack [OF t(3)] by simp
  let ?t = "t\<lparr>log_lock := taken (cur_kstack t) (log_lock t), log_busy := 0\<rparr>"
  have bt: "bc c ?t (\<lambda>(d, n). disk t d n) {} {}" using t(2) by simp
  obtain u where u: "thread_wakeup (log_addr ?t) ?t = Inr ((), u)" "bc c u (\<lambda>(d, n). disk t d n) {} {}" "fs_keep ?t u"
    "disk u = disk ?t" "ide_writes u = ide_writes ?t" using wakeup_bc [OF bt] by blast
  let ?u = "u\<lparr>log_lock := spinlock_release_A (log_lock u)\<rparr>"
  have su: "log_same ?t u" by (rule fs_keep_log [OF u(3)])
  have ku: "log_keep s ?u" "log_busy ?u = 0" "lh_n ?u = 0"
    using log_keep_trans [OF t(3), of u] log_keep_trans [of t ?t u] su t(5) by (simp_all add: log_same_def)
  have "commit_trans s = Inr ((), ?u)" using t(1) lt u(1) by (simp add: commit_trans_def)
  moreover have "idle c ?u H"
    unfolding idle_def fresh_def lstep_sels [OF ku(1)] ku(2,3)
    using u(2,4) t(6,7) inv lock_ready_magic [OF l] log_keep_kstack [OF ku(1)] by (simp add: d_def l_def)
  ultimately show ?thesis using ku(1) t(8,9,10) u(4,5) by (intro exI [of _ ?u] exI [of _ ws]) simp
qed

section \<open>Atomic transactions\<close>

text \<open>
  A machine started on a given disk, and any number of recoveries each of which is cut off
  after some of its writes.
\<close>

definition crashed :: "u32 \<Rightarrow> 'z log_state_scheme \<Rightarrow> sectors \<Rightarrow> 'z log_state_scheme \<Rightarrow> bool" where
  "crashed c s D r \<longleftrightarrow> fresh c r \<and> log_dev r = log_dev s \<and> log_start r = log_start s \<and> havedisk1 r = havedisk1 s \<and> disk r = D"

inductive reboots :: "u32 \<Rightarrow> 'z log_state_scheme \<Rightarrow> 'z log_state_scheme \<Rightarrow> bool" for c where
  started: "reboots c r r"
| again: "reboots c r r1 \<Longrightarrow> recover_from_log r1 = Inr ((), u) \<Longrightarrow> ide_writes u = ide_writes r1 @ vs \<Longrightarrow>
    crashed c r1 (app (disk r1) (take j vs)) r2 \<Longrightarrow> reboots c r r2"

lemma crashed_home: "crashed c s D r \<Longrightarrow> home r = home s"
  by (simp add: crashed_def home_def sector_ok_def fun_eq_iff)

lemma crashed_recovers: "crashed c s D r \<Longrightarrow> recovers r E H = recovers s E H"
  using crashed_home [of c s D r] by (simp add: crashed_def recovers_def hdr_ok_def sector_ok_def)

lemma reboots_recovers:
  assumes "reboots c r r'" "fresh c r" "recovers r (disk r) H"
  shows "fresh c r' \<and> recovers r' (disk r') H \<and> home r' = home r"
  using assms
proof (induction rule: reboots.induct)
  case (again r r1 u vs j r2)
  then have r1: "fresh c r1" "recovers r1 (disk r1) H" "home r1 = home r" by blast+
  obtain t m where t: "recover_from_log r1 = Inr ((), t)" "load32 m 0 = 0"
    "ide_writes t = ide_writes r1 @ redo (log_dev r1) (log_start r1) (disk r1) @ [(log_dev r1, log_start r1, m)]"
    using recover_ok [OF r1(1)] r1(2) unfolding recovers_def by blast
  then have "vs = redo (log_dev r1) (log_start r1) (disk r1) @ [(log_dev r1, log_start r1, m)]" using again.hyps(2,3) by simp
  then have "recovers r1 (disk r2) H" using recovers_redo [OF r1(2) t(2), of j] again.hyps(4) by (simp add: crashed_def)
  then show ?case
    using crashed_recovers [OF again.hyps(4)] crashed_home [OF again.hyps(4)] again.hyps(4) r1(3) by (simp add: crashed_def)
qed simp

lemma recovered:
  assumes "fresh c r" "recovers r (disk r) H"
  shows "\<exists>u. recover_from_log r = Inr ((), u) \<and> (\<forall>k. home r k \<longrightarrow> disk u (fst k) (snd k) = H k)"
proof -
  let ?d = "log_dev r" and ?l = "log_start r"
  obtain t m where t: "recover_from_log r = Inr ((), t)" "load32 m 0 = 0" "disk t = app (disk r) (redo ?d ?l (disk r) @ [(?d, ?l, m)])"
    using recover_ok [OF assms(1)] assms(2) unfolding recovers_def by blast
  have r: "recovers r (disk t) H" using recovers_redo [OF assms(2) t(2), of "length (redo ?d ?l (disk r) @ [(?d, ?l, m)])"] t(3) by simp
  have "view ?d ?l (disk t) = disk t ?d" using t(2) by (simp add: t(3) view_def redo_def disk_upd_def)
  then have "disk t (fst k) (snd k) = H k" if "home r k" for k using recoversD [OF r that] that by (simp add: home_def)
  then show ?thesis using t(1) by blast
qed

text \<open>The machine stops with the disk \<open>D\<close>: it recovers the contents \<open>H\<close>.\<close>

definition restarts :: "u32 \<Rightarrow> 'z log_state_scheme \<Rightarrow> sectors \<Rightarrow> (bkey \<Rightarrow> memory) \<Rightarrow> bool" where
  "restarts c s D H \<longleftrightarrow> (\<forall>r r'. crashed c s D r \<longrightarrow> reboots c r r' \<longrightarrow>
     (\<exists>u. recover_from_log r' = Inr ((), u) \<and> (\<forall>k. home s k \<longrightarrow> disk u (fst k) (snd k) = H k)))"

lemma recovers_restarts: "recovers s D H \<Longrightarrow> restarts c s D H"
  unfolding restarts_def
proof (intro allI impI)
  fix r r' assume a: "recovers s D H" "crashed c s D r" "reboots c r r'"
  have "fresh c r" "recovers r (disk r) H" "home r = home s"
    using a(1,2) crashed_recovers [OF a(2)] crashed_home [OF a(2)] by (simp_all add: crashed_def)
  with reboots_recovers [OF a(3) this(1,2)] have r': "fresh c r'" "recovers r' (disk r') H" "home r' = home s" by simp_all
  show "\<exists>u. recover_from_log r' = Inr ((), u) \<and> (\<forall>k. home s k \<longrightarrow> disk u (fst k) (snd k) = H k)"
    using recovered [OF r'(1,2)] unfolding r'(3) .
qed

text \<open>
  The contract of a routine that runs inside a transaction: it returns with the invariant
  of the transaction, having written log blocks only. Around such a routine the transaction
  is atomic.
\<close>

definition transaction :: "('z log_state_scheme, 'a) kern \<Rightarrow> ('z log_state_scheme, 'a) kern" where
  "transaction m = kseq begin_trans (kbind m (\<lambda>x. kseq commit_trans (kret x)))"

locale trans_body =
  fixes body :: "('z log_state_scheme, 'a) kern"
    and pre :: "'z log_state_scheme \<Rightarrow> (bkey \<Rightarrow> memory) \<Rightarrow> bool"
    and post :: "'z log_state_scheme \<Rightarrow> (bkey \<Rightarrow> memory) \<Rightarrow> 'a \<Rightarrow> (bkey \<Rightarrow> memory) \<Rightarrow> bool"
  assumes body_ok: "txn c s H {} {} [] \<Longrightarrow> pre s H \<Longrightarrow>
      \<exists>x t H' xs. body s = Inr (x, t) \<and> txn c t H' {} {} xs \<and> lstep s t \<and> post s H x H'"
    and pre_keep: "pre s H \<Longrightarrow> log_keep s t \<Longrightarrow> pre t H"
    and post_keep: "post t H x H' \<Longrightarrow> log_keep s t \<Longrightarrow> post s H x H'"
begin

lemma atomic:
  assumes s: "idle c s H" and p: "pre s H"
  shows "\<exists>x t H' ws. transaction body s = Inr (x, t) \<and> idle c t H' \<and> post s H x H' \<and> log_keep s t \<and>
    ide_writes t = ide_writes s @ ws \<and> (\<forall>k \<le> length ws. \<exists>G \<in> {H, H'}. restarts c s (app (disk s) (take k ws)) G)"
proof -
  obtain s1 where s1: "begin_trans s = Inr ((), s1)" "txn c s1 H {} {} []" "log_keep s s1" "disk s1 = disk s" "ide_writes s1 = ide_writes s"
    "lock_ready (cur_kstack s1) (log_lock s1)" using begin_ok [OF s] by blast
  obtain x s2 H' xs where s2: "body s1 = Inr (x, s2)" "txn c s2 H' {} {} xs" "lstep s1 s2" "post s1 H x H'"
    using body_ok [OF s1(2) pre_keep [OF p s1(3)]] by blast
  obtain lw where lw: "ide_writes s2 = ide_writes s1 @ lw" "disk s2 = app (disk s1) lw" "wkeys lw \<subseteq> log_block s1 ` {..< 10}"
    "log_lock s2 = log_lock s1" "log_keep s1 s2" using s2(3) by (auto simp: lstep_def)
  have k2: "log_keep s s2" by (rule log_keep_trans [OF s1(3) lw(5)])
  note e1 = lstep_sels [OF s1(3)] and e2 = lstep_sels [OF k2]
  have lw3: "wkeys lw \<subseteq> log_block s ` {..< 10}" using lw(3) unfolding e1(7) .
  have h: "load32 (disk s2 (log_dev s2) (log_start s2)) 0 = 0" "lock_ready (cur_kstack s2) (log_lock s2)"
    using s s1(6) app_block(2) [OF lw3, of "disk s"] lw(4) log_keep_kstack [OF lw(5)]
    by (simp_all add: idle_def lw(2) s1(4) e2(1,2))
  obtain t ws where t: "commit_trans s2 = Inr ((), t)" "idle c t H'" "log_keep s2 t" "ide_writes t = ide_writes s2 @ ws"
    "\<forall>k. 0 < k \<longrightarrow> k \<le> length ws \<longrightarrow> recovers s2 (app (disk s2) (take k ws)) H'"
    using commit_ok [OF s2(2) h(2,1)] by blast
  have "\<exists>G \<in> {H, H'}. restarts c s (app (disk s) (take k (lw @ ws))) G" if k: "k \<le> length (lw @ ws)" for k
  proof (cases "k \<le> length lw")
    case True
    have sub: "wkeys (take k lw) \<subseteq> log_block s ` {..< 10}" using lw3 wkeys_take [of k lw] by blast
    have "recovers s (app (disk s) (take k lw)) H"
      by (rule recovers_empty) (use s app_block [OF sub] in \<open>auto simp: idle_def\<close>)
    then show ?thesis using recovers_restarts True by auto
  next
    case False
    then have "recovers s2 (app (disk s2) (take (k - length lw) ws)) H'" using t(5) k by simp
    then have "recovers s (app (disk s) (take k (lw @ ws))) H'"
      using False by (simp add: recovers_cong [OF k2] lw(2) s1(4))
    then show ?thesis using recovers_restarts by blast
  qed
  moreover have "transaction body s = Inr (x, t)" using s1(1) s2(1) t(1) by (simp add: transaction_def)
  moreover have "log_keep s t" by (rule log_keep_trans [OF k2 t(3)])
  moreover have "post s H x H'" by (rule post_keep [OF s2(4) s1(3)])
  moreover have "ide_writes t = ide_writes s @ (lw @ ws)" using t(4) lw(1) s1(5) by simp
  ultimately show ?thesis using t(2) by blast
qed

end

text \<open>
  The way blocks are changed under the log: read, change, log, release. A transaction of
  such changes.
\<close>

definition log_update :: "u32 \<Rightarrow> u32 \<Rightarrow> (memory \<Rightarrow> memory) \<Rightarrow> ('z log_state_scheme, unit) kern" where
  "log_update d n f =
     kbind (bufcache_read d n) (\<lambda>b.
     kseq (buf_put (\<lambda>x. x\<lparr>b_data := f (b_data x)\<rparr>) b)
    (kseq (log_write b) (bufcache_release b)))"

primrec log_updates :: "u32 \<Rightarrow> (u32 \<times> (memory \<Rightarrow> memory)) list \<Rightarrow> ('z log_state_scheme, unit) kern" where
  "log_updates d [] = kret ()"
| "log_updates d (u # us) = kseq (log_update d (fst u) (snd u)) (log_updates d us)"

definition update :: "u32 \<Rightarrow> (u32 \<times> (memory \<Rightarrow> memory)) \<Rightarrow> (bkey \<Rightarrow> memory) \<Rightarrow> bkey \<Rightarrow> memory" where
  "update d u H = H((d, fst u) := snd u (H (d, fst u)))"

text \<open>A held buffer changed, logged and released.\<close>

lemma t_change:
  fixes s :: "'z log_state_scheme"
  assumes s: "txn c s H (insert (lhk s n) B) {} xs" "holds s b (lhk s n)" and n: "lhk s n \<notin> B"
    and card: "card (insert (lhk s n) (B \<union> lhk s ` set xs)) \<le> 9" "finite B"
  shows "\<exists>t. kseq (buf_put (\<lambda>x. x\<lparr>b_data := f (b_data x)\<rparr>) b) (kseq (log_write b) (bufcache_release b)) s = Inr ((), t) \<and>
    txn c t (update (log_dev s) (n, f) H) B {} (ins n xs) \<and> lstep s t \<and> (\<forall>j k. holds s j k \<longrightarrow> k \<noteq> lhk s n \<longrightarrow> holds t j k)"
proof -
  obtain u where u: "buf_put (\<lambda>x. x\<lparr>b_data := f (b_data x)\<rparr>) b s = Inr ((), u)"
    "txn c u (H(lhk s n := f (H (lhk s n)))) (insert (lhk s n) B) (insert (lhk s n) {}) xs" "lstep s u" "\<forall>j k. holds u j k = holds s j k"
    using t_put [OF s] by blast
  have eu: "lhk u = lhk s" using lstep_sels(6) [of s u] u(3) by (simp add: lstep_def)
  have "holds u b (lhk u n)" "card (insert (lhk s n) B \<union> lhk u ` set xs) \<le> 9" "finite (insert (lhk s n) B)"
    using s(2) u(4) [rule_format, of b "lhk s n"] card unfolding eu by simp_all
  then obtain v where v: "log_write b u = Inr ((), v)" "txn c v (H(lhk s n := f (H (lhk s n)))) (insert (lhk s n) B) (insert (lhk s n) {} - {lhk u n}) (ins n xs)"
    "lstep u v" "\<forall>j k. holds u j k \<longrightarrow> holds v j k" using t_log [OF u(2)] by blast
  have e: "insert (lhk s n) {} - {lhk u n} = {}" "insert (lhk s n) B - {lhk s n} = B" using n by (auto simp: eu)
  have "holds v b (lhk s n)" "lhk s n \<notin> {}" using s(2) u(4) v(4) by blast+
  then obtain w where w: "bufcache_release b v = Inr ((), w)" "txn c w (H(lhk s n := f (H (lhk s n)))) B {} (ins n xs)"
    "lstep v w" "\<forall>j k'. holds v j k' \<longrightarrow> j \<noteq> b \<longrightarrow> holds w j k'"
    using t_rel [OF v(2) [unfolded e(1)], of b "lhk s n"] unfolding e(2) by blast
  have "holds w j k" if "holds s j k" "k \<noteq> lhk s n" for j k
  proof -
    have "j \<noteq> b" using holds_key [OF s(2)] that by blast
    then show ?thesis using that(1) u(4) v(4) w(4) by blast
  qed
  moreover have "lstep s w" using u(3) v(3) w(3) lstep_trans by blast
  ultimately show ?thesis
    using u(1) v(1) w(1,2) by (intro exI [of _ w]) (simp add: update_def lhk_def)
qed

lemma t_update:
  fixes s :: "'z log_state_scheme"
  assumes s: "txn c s H B {} xs" and n: "home s (lhk s n)" "lhk s n \<notin> B" and card: "card (insert (lhk s n) (B \<union> lhk s ` set xs)) \<le> 9" "finite B"
  shows "\<exists>t. log_update (log_dev s) n f s = Inr ((), t) \<and> txn c t (update (log_dev s) (n, f) H) B {} (ins n xs) \<and> lstep s t \<and>
    (\<forall>j k. holds s j k \<longrightarrow> holds t j k)"
proof -
  have c10: "card (insert (lhk s n) (B \<union> lhk s ` set xs)) \<le> 10" using card(1) by simp
  obtain b t where t: "bufcache_read (log_dev s) n s = Inr (b, t)" "txn c t H (insert (lhk s n) B) {} xs" "holds t b (lhk s n)"
    "lstep s t" "\<forall>j k. holds s j k \<longrightarrow> holds t j k" using t_read [OF s n c10] by blast
  have "log_keep s t" using t(4) by (simp add: lstep_def)
  note e = lstep_sels [OF this]
  obtain w where w: "kseq (buf_put (\<lambda>x. x\<lparr>b_data := f (b_data x)\<rparr>) b) (kseq (log_write b) (bufcache_release b)) t = Inr ((), w)"
    "txn c w (update (log_dev s) (n, f) H) B {} (ins n xs)" "lstep t w" "\<forall>j k. holds t j k \<longrightarrow> k \<noteq> lhk s n \<longrightarrow> holds w j k"
    using t_change [of c t H n B xs b f] t(2,3) n(2) card unfolding e by blast
  have "holds w j k" if h: "holds s j k" for j k
    using t(5) w(4) h t_get(2) [OF s h] n(2) by blast
  then show ?thesis using t(1) w(1,2) lstep_trans [OF t(4) w(3)] by (intro exI [of _ w]) (simp add: log_update_def)
qed

lemma t_updates:
  fixes s :: "'z log_state_scheme"
  assumes "txn c s H {} {} xs" "\<forall>u \<in> set us. home s (lhk s (fst u))" "card (set xs \<union> fst ` set us) \<le> 9"
  shows "\<exists>t ys. log_updates (log_dev s) us s = Inr ((), t) \<and> txn c t (fold (update (log_dev s)) us H) {} {} ys \<and> lstep s t"
  using assms
proof (induction us arbitrary: s H xs)
  case Nil
  then show ?case using lstep_refl [of s] by auto
next
  case (Cons u us)
  have "card (insert (lhk s (fst u)) ({} \<union> lhk s ` set xs)) = card (lhk s ` insert (fst u) (set xs))" by simp
  also have "\<dots> \<le> card (insert (fst u) (set xs))" by (rule card_image_le) simp
  also have "\<dots> \<le> card (set xs \<union> fst ` set (u # us))" by (intro card_mono) auto
  finally have c9: "card (insert (lhk s (fst u)) ({} \<union> lhk s ` set xs)) \<le> 9" using Cons.prems(3) by simp
  have hu: "home s (lhk s (fst u))" using Cons.prems(2) by simp
  obtain t where t: "log_update (log_dev s) (fst u) (snd u) s = Inr ((), t)" "txn c t (update (log_dev s) (fst u, snd u) H) {} {} (ins (fst u) xs)" "lstep s t"
    using t_update [OF Cons.prems(1) hu _ c9, of "snd u"] by blast
  have "log_keep s t" using t(3) by (simp add: lstep_def)
  note e = lstep_sels [OF this]
  have "card (set (ins (fst u) xs) \<union> fst ` set us) \<le> 9" using Cons.prems(3) by simp
  then obtain w ys where w: "log_updates (log_dev t) us t = Inr ((), w)"
    "txn c w (fold (update (log_dev t)) us (update (log_dev s) (fst u, snd u) H)) {} {} ys" "lstep t w"
    using Cons.IH [OF t(2)] Cons.prems(2) unfolding e by auto
  then show ?case using t(1,3) lstep_trans [of s t w] unfolding e by auto
qed

definition updates_pre :: "u32 \<Rightarrow> (u32 \<times> (memory \<Rightarrow> memory)) list \<Rightarrow> 'z log_state_scheme \<Rightarrow> (bkey \<Rightarrow> memory) \<Rightarrow> bool" where
  "updates_pre d us s H \<longleftrightarrow> log_dev s = d \<and> (\<forall>u \<in> set us. home s (d, fst u)) \<and> card (fst ` set us) \<le> 9"

interpretation upd: trans_body "log_updates d us" "updates_pre d us" "\<lambda>s H x H'. H' = fold (update d) us H"
proof
  fix c H and s t :: "'a log_state_scheme"
  assume "txn c s H {} {} []" "updates_pre d us s H"
  then show "\<exists>x t H' xs. log_updates d us s = Inr (x, t) \<and> txn c t H' {} {} xs \<and> lstep s t \<and> H' = fold (update d) us H"
    using t_updates [of c s H "[]" us] by (auto simp: updates_pre_def lhk_def)
next
  fix H and s t :: "'a log_state_scheme"
  assume "updates_pre d us s H" "log_keep s t"
  then show "updates_pre d us t H" using lstep_sels [of s t] by (simp add: updates_pre_def)
qed


section \<open>A machine with a disk\<close>

definition free_lock :: spinlock where
  "free_lock = spinlock_init \<lparr>lock = 0, lock_holder = 0\<rparr>"

definition empty_buf :: "u32 \<Rightarrow> buf" where
  "empty_buf i = \<lparr>b_flags = 0, b_dev = - 1, b_sector = 0, b_prev = (if i = 0 then NBUF else i - 1),
     b_next = (if i = NBUF then 0 else i + 1), b_qnext = None, b_data = (\<lambda>_. 0)\<rparr>"

definition with_disk :: "sectors \<Rightarrow> fs_state" where
  "with_disk D = thr_state.extend idle_machine
     (fs_state.fields free_lock free_lock None 1 free_lock empty_buf 0x400000 (\<lambda>_. 0) (\<lambda>_. IDE_DRDY) D [])"

definition with_log :: "sectors \<Rightarrow> log_state" where
  "with_log D = fs_state.extend (with_disk D) (log_state.fields free_lock 100 12 0 1 0 (\<lambda>_. 0) 0x500000)"

lemma sched_ok_truncate: "sched_ok c (thr_state.truncate s) a = sched_ok c s a"
  by (simp add: sched_ok_def sched_rel_def tq_def nexts_def prevs_def cpu_ok_def cont_inv_def mat_inv_def in_use_def thr_state.defs)

lemma with_log_sels [simp]:
  "bufs (with_log D) = empty_buf" "disk (with_log D) = D" "ide_writes (with_log D) = []" "idequeue (with_log D) = None"
  "ide_lk (with_log D) = free_lock" "bcache_lock (with_log D) = free_lock" "ide_status (with_log D) = (\<lambda>_. IDE_DRDY)"
  "havedisk1 (with_log D) = 1" "cur_kstack (with_log D) = cur_kstack idle_machine"
  "log_lock (with_log D) = free_lock" "log_start (with_log D) = 100" "log_size (with_log D) = 12" "log_busy (with_log D) = 0"
  "log_dev (with_log D) = 1" "lh_n (with_log D) = 0"
  by (simp_all add: with_log_def with_disk_def thr_state.defs fs_state.defs log_state.defs)

lemma with_log_live: "sched_live 0 (with_log D)" "ks_magic (cur_kstack (with_log D)) = SPIN_KSTACK_MAGIC"
proof -
  have "thr_state.truncate (with_log D) = idle_machine"
    by (cases idle_machine) (simp add: with_log_def with_disk_def thr_state.defs fs_state.defs log_state.defs)
  then show "sched_live 0 (with_log D)"
    using sched_ok_truncate [of 0 "with_log D"] idle_machine_ok(1) unfolding sched_live_def by metis
  show "ks_magic (cur_kstack (with_log D)) = SPIN_KSTACK_MAGIC"
    using idle_machine_ok(1) by (simp add: sched_ok_def lock_ready_def)
qed

lemma with_log_fresh: "fresh 0 (with_log D)"
proof -
  have "lru (with_log D) [0, 1, 2, 3, 4, 5, 6, 7, 8, 9]"
    by (simp add: lru_def NBUF_set) (simp add: dlc_def fst_or_def lst_or_def empty_buf_def NBUF_def)
  moreover have "fs_ok 0 (with_log D)"
    using with_log_live by (simp add: fs_ok_def dev_ready_def free_lock_def IDE_BSY_def IDE_DRDY_def IDE_DF_def IDE_ERR_def)
  ultimately have "bc 0 (with_log D) (\<lambda>(d, n). D d n) {} {}"
    by (intro bcI) (auto simp: empty_buf_def marked_def)
  then show ?thesis by (simp add: fresh_def log_geom_def sector_ok_def)
qed

lemma with_log_idle: "load32 (D 1 100) 0 = 0 \<Longrightarrow> idle 0 (with_log D) (\<lambda>(d, n). D d n)"
  using with_log_fresh [of D] with_log_live(2) by (auto simp: idle_def log_room_def free_lock_def)

lemma with_log_home: "n < 100 \<Longrightarrow> home (with_log D) (1, n)"
proof -
  assume n: "n < (100 :: u32)"
  have "n \<noteq> 100 + i" if "i \<le> LOGSIZE" for i
  proof
    assume "n = 100 + i"
    moreover have "unat (100 + i :: u32) = 100 + unat i" using that by (subst unat_add_exact) (simp_all add: LOGSIZE_def word_le_nat_alt)
    ultimately show False using n by (simp add: word_less_nat_alt)
  qed
  moreover have "n < 0x10000000" using n by (rule order_less_trans) simp
  ultimately show ?thesis by (auto simp: home_def sector_ok_def log_region_def)
qed


end
