(* ===== verification/Block.thy ===== *)
theory Block
  imports LogSafe
begin

text \<open>
  Disk blocks and the free bitmap, \<^verbatim>\<open>kern/fs/block.c\<close>, with the layout macros of
  \<^verbatim>\<open>kern/fs/dinode.h\<close>. Every change goes through the log.
\<close>

section \<open>The operations\<close>

definition BPB :: u32 where "BPB = 4096"
definition IPB :: u32 where "IPB = 8"

definition IBLOCK :: "u32 \<Rightarrow> u32" where
  "IBLOCK i = i div IPB + 2"

definition BBLOCK :: "u32 \<Rightarrow> u32 \<Rightarrow> u32" where
  "BBLOCK b ninodes = b div BPB + ninodes div IPB + 3"

definition block_zero :: "u32 \<Rightarrow> u32 \<Rightarrow> ('z log_state_scheme, unit) kern" where
  "block_zero dev bno =
     kbind (bufcache_read dev bno) (\<lambda>bp.
     kseq (buf_put (\<lambda>x. x\<lparr>b_data := memset 0 0 BSIZE (b_data x)\<rparr>) bp)
    (kseq (log_write bp) (bufcache_release bp)))"

text \<open>The mask \<^verbatim>\<open>1 << (bi % 8)\<close> as the byte it is combined with.\<close>

definition bit_mask :: "u32 \<Rightarrow> u8" where
  "bit_mask bi = push_bit (unat (bi mod 8)) 1"

definition set_used :: "u32 \<Rightarrow> memory \<Rightarrow> memory" where
  "set_used bi m = m(bi div 8 := m (bi div 8) OR bit_mask bi)"

definition set_free :: "u32 \<Rightarrow> memory \<Rightarrow> memory" where
  "set_free bi m = m(bi div 8 := m (bi div 8) AND NOT (bit_mask bi))"

text \<open>The inner loop of \<^verbatim>\<open>block_alloc\<close>; it returns the block it allocates.\<close>

definition block_take :: "u32 \<Rightarrow> u32 \<Rightarrow> u32 \<Rightarrow> u32 \<Rightarrow> ('z log_state_scheme, u32 option) kern" where
  "block_take dev bp b bi =
     kseq (buf_put (\<lambda>x. x\<lparr>b_data := set_used bi (b_data x)\<rparr>) bp)
    (kseq (log_write bp)
    (kseq (bufcache_release bp)
    (kseq (block_zero dev (b + bi)) (kret (Some (b + bi))))))"

function block_scan :: "u32 \<Rightarrow> u32 \<Rightarrow> u32 \<Rightarrow> u32 \<Rightarrow> u32 \<Rightarrow> ('z log_state_scheme, u32 option) kern" where
  "block_scan dev sz bp b bi =
     (if bi < BPB \<and> b + bi < sz then
        kbind (buf_get b_data bp) (\<lambda>m.
          if m (bi div 8) AND bit_mask bi = 0 then block_take dev bp b bi
          else block_scan dev sz bp b (bi + 1))
      else kret None)"
  by pat_completeness auto
termination
  by (relation "measure (\<lambda>(dev, sz, bp, b, bi). unat BPB - unat bi)") (auto simp: unat_Suc_less word_less_nat_alt)

declare block_scan.simps [simp del]

text \<open>
  The outer loop, whose counter is a signed integer. When no block is free the routine falls
  off its end and its result is undefined.
\<close>

function block_alloc_loop :: "u32 \<Rightarrow> superblock \<Rightarrow> u32 \<Rightarrow> ('z log_state_scheme, u32) kern" where
  "block_alloc_loop dev sb b =
     (if b < sb_size sb then
        kbind (bufcache_read dev (BBLOCK b (sb_ninodes sb))) (\<lambda>bp.
        kbind (block_scan dev (sb_size sb) bp b 0) (\<lambda>r. case r of
          Some n \<Rightarrow> kret n
        | None \<Rightarrow>
            kseq (bufcache_release bp)
              (if b < 0x7ffff000 then block_alloc_loop dev sb (b + BPB) else kfail IntOverflow)))
      else kfail Uninitialised)"
  by pat_completeness auto
termination
proof (relation "measure (\<lambda>(dev, sb, b). 2 ^ 32 - unat b)")
  fix dev b bp t and sb :: superblock assume "b < (0x7ffff000 :: u32)"
  then have "unat (b + BPB) = unat b + 4096" by (subst unat_add_exact) (simp_all add: BPB_def word_less_nat_alt)
  then show "((dev, sb, b + BPB), dev, sb, b) \<in> measure (\<lambda>(dev, sb, b). 2 ^ 32 - unat b)"
    using unat_lt2p [of b] by simp
qed simp

declare block_alloc_loop.simps [simp del]

definition block_alloc :: "u32 \<Rightarrow> ('z log_state_scheme, u32) kern" where
  "block_alloc dev = kbind (read_superblock dev) (\<lambda>sb. block_alloc_loop dev sb 0)"

definition block_free :: "u32 \<Rightarrow> u32 \<Rightarrow> ('z log_state_scheme, unit) kern" where
  "block_free dev b =
     kbind (read_superblock dev) (\<lambda>sb.
     kbind (bufcache_read dev (BBLOCK b (sb_ninodes sb))) (\<lambda>bp.
     let bi = b mod BPB in
     kbind (buf_get b_data bp) (\<lambda>m.
     kseq (kguard (m (bi div 8) AND bit_mask bi \<noteq> 0) (KERN_PANIC ''freeing free block''))
    (kseq (buf_put (\<lambda>x. x\<lparr>b_data := set_free bi (b_data x)\<rparr>) bp)
    (kseq (log_write bp) (bufcache_release bp))))))"

section \<open>Allocation under the log\<close>

definition sb_of :: "memory \<Rightarrow> superblock" where
  "sb_of m = \<lparr>sb_size = load32 m 0, sb_nblocks = load32 m 4, sb_ninodes = load32 m 8, sb_nlog = load32 m 12\<rparr>"

definition bit_used :: "memory \<Rightarrow> u32 \<Rightarrow> bool" where
  "bit_used m bi \<longleftrightarrow> m (bi div 8) AND bit_mask bi \<noteq> 0"

text \<open>The bits of a bitmap block are independent.\<close>

lemma bit_mask_bit: "bit (bit_mask bi) k \<longleftrightarrow> k = unat (bi mod 8)"
proof -
  have "unat (bi mod 8) < 8" by (simp add: unat_mod)
  then show ?thesis by (auto simp: bit_mask_def bit_exp_iff)
qed

lemma bit_used_iff: "bit_used m bi \<longleftrightarrow> bit (m (bi div 8)) (unat (bi mod 8))"
proof -
  have "m (bi div 8) AND bit_mask bi = 0 \<longleftrightarrow> \<not> bit (m (bi div 8)) (unat (bi mod 8))"
  proof
    assume "m (bi div 8) AND bit_mask bi = 0"
    then have "\<not> bit (m (bi div 8) AND bit_mask bi) (unat (bi mod 8))" by simp
    then show "\<not> bit (m (bi div 8)) (unat (bi mod 8))" by (simp add: bit_and_iff bit_mask_bit)
  qed (auto intro!: bit_eqI simp: bit_and_iff bit_mask_bit)
  then show ?thesis by (simp add: bit_used_def)
qed

lemma bit_index: "bi div 8 = bj div 8 \<Longrightarrow> unat (bi mod 8) = unat (bj mod 8) \<Longrightarrow> bi = bj" for bi bj :: u32
  by (metis word_mod_div_equality word_unat_eq_iff)

lemma used_set [simp]: "bit_used (set_used bi m) bj \<longleftrightarrow> bj = bi \<or> bit_used m bj"
proof (cases "bj div 8 = bi div 8")
  case True
  then show ?thesis using bit_index [OF True] by (auto simp: bit_used_iff set_used_def bit_or_iff bit_mask_bit)
qed (auto simp: bit_used_iff set_used_def)

lemma used_free [simp]: "bit_used (set_free bi m) bj \<longleftrightarrow> bj \<noteq> bi \<and> bit_used m bj"
proof (cases "bj div 8 = bi div 8")
  case True
  have "unat (bj mod 8) < 8" by (simp add: unat_mod)
  then show ?thesis using True bit_index [OF True] by (auto simp: bit_used_iff set_free_def bit_and_iff bit_not_iff bit_mask_bit)
qed (auto simp: bit_used_iff set_free_def)

lemma free_used: "\<not> bit_used m bi \<Longrightarrow> set_free bi (set_used bi m) = m"
proof -
  assume "\<not> bit_used m bi"
  then have "(m (bi div 8) OR bit_mask bi) AND NOT (bit_mask bi) = m (bi div 8)"
    unfolding bit_used_iff by (intro bit_eqI) (auto simp: bit_and_iff bit_or_iff bit_not_iff bit_mask_bit)
  then show ?thesis by (simp add: set_free_def set_used_def)
qed

lemma block_zero_eq: "block_zero d n = log_update d n (memset 0 0 BSIZE)"
  by (simp add: block_zero_def log_update_def)

lemma t_superblock:
  fixes s :: "'z log_state_scheme"
  assumes s: "txn c s H B U xs" and n: "home s (lhk s 1)" "lhk s 1 \<notin> B" "card (insert (lhk s 1) (B \<union> lhk s ` set xs)) \<le> 10"
  shows "\<exists>t. read_superblock (log_dev s) s = Inr (sb_of (H (lhk s 1)), t) \<and> txn c t H B U xs \<and> lstep s t \<and>
    (\<forall>j k. holds s j k \<longrightarrow> holds t j k)"
proof -
  obtain b t where t: "bufcache_read (log_dev s) 1 s = Inr (b, t)" "txn c t H (insert (lhk s 1) B) U xs" "holds t b (lhk s 1)"
    "lstep s t" "\<forall>j k. holds s j k \<longrightarrow> holds t j k" using t_read [OF s n] by blast
  have nu: "lhk s 1 \<notin> U" using s n(2) by (auto simp: txn_def txn_map_def)
  obtain w where w: "bufcache_release b t = Inr ((), w)" "txn c w H (insert (lhk s 1) B - {lhk s 1}) U xs" "lstep t w"
    "\<forall>j k'. holds t j k' \<longrightarrow> j \<noteq> b \<longrightarrow> holds w j k'" using t_rel [OF t(2,3) nu] by blast
  have e: "insert (lhk s 1) B - {lhk s 1} = B" using n(2) by auto
  have "holds w j k" if h: "holds s j k" for j k
  proof -
    have "holds t j k" "k \<noteq> lhk s 1" using t(5) h t_get(2) [OF s h] n(2) by blast+
    then show ?thesis using w(4) holds_key [OF t(3)] by blast
  qed
  moreover have "read_superblock (log_dev s) s = Inr (sb_of (H (lhk s 1)), w)"
    using t(1) w(1) t_get(1) [OF t(2,3)] by (simp add: read_superblock_def sb_of_def)
  ultimately show ?thesis using w(2) lstep_trans [OF t(4) w(3)] unfolding e by blast
qed

text \<open>The inner loop finds the first free bit.\<close>

lemma scan_none:
  assumes d: "buf_get b_data bp s = Inr (m, s)" and sz: "unat b + 4096 < 2 ^ 32" "bi \<le> BPB"
    and used: "\<And>j. bi \<le> j \<Longrightarrow> j < BPB \<Longrightarrow> b + j < sz \<Longrightarrow> bit_used m j"
  shows "block_scan dev sz bp b bi s = Inr (None, s)"
  using sz(2) used
proof (induction bi rule: upto_induct)
  case finish
  then show ?case by (simp add: block_scan.simps [of dev sz bp b BPB])
next
  case (step bi)
  show ?case
  proof (cases "b + bi < sz")
    case True
    have "bit_used m bi" using step.prems [of bi] step.hyps True by simp
    moreover have "block_scan dev sz bp b (bi + 1) s = Inr (None, s)"
      using step.prems unat_Suc_less [OF step.hyps] by (intro step.IH) (simp add: word_le_nat_alt)
    ultimately show ?thesis using True step.hyps d by (simp add: block_scan.simps [of dev sz bp b bi] bit_used_def)
  qed (simp add: block_scan.simps [of dev sz bp b bi])
qed

lemma scan_some:
  assumes d: "buf_get b_data bp s = Inr (m, s)" and j: "j < BPB" "unat b + 4096 < 2 ^ 32" "b + j < sz" "\<not> bit_used m j"
    and le: "bi \<le> j" and used: "\<And>i. bi \<le> i \<Longrightarrow> i < j \<Longrightarrow> bit_used m i"
  shows "block_scan dev sz bp b bi s = block_take dev bp b j s"
  using le used
proof (induction bi rule: upto_induct)
  case finish
  then show ?case using d j by (simp add: block_scan.simps [of dev sz bp b j] bit_used_def)
next
  case (step bi)
  have bd: "unat (b + i) = unat b + unat i" if "i < BPB" for i
    using that j(2) by (intro unat_add_exact) (simp add: BPB_def word_less_nat_alt)
  have bi: "bi < BPB" using step.hyps j(1) by simp
  then have "b + bi < sz" using j(1,3) step.hyps bd [of bi] bd [OF j(1)] by (simp add: word_less_nat_alt)
  moreover have "bit_used m bi" using step.prems [of bi] step.hyps by simp
  moreover have "block_scan dev sz bp b (bi + 1) s = block_take dev bp b j s"
    using step.prems unat_Suc_less [OF step.hyps] by (intro step.IH) (simp add: word_le_nat_alt)
  ultimately show ?case using bi d by (simp add: block_scan.simps [of dev sz bp b bi] bit_used_def)
qed

lemma kseq_assoc: "kseq (kseq m n) p = kseq m (kseq n p)"
  by (simp add: kseq_def kbind_assoc)

lemma block_take_ok:
  fixes s :: "'z log_state_scheme"
  assumes s: "txn c s H (insert (lhk s m) B) {} xs" "holds s bp (lhk s m)" "lhk s m \<notin> B"
    and n: "home s (lhk s (b + bi))" "lhk s (b + bi) \<notin> B"
    and card: "card (B \<union> lhk s ` set xs) \<le> 7" "finite B"
  shows "\<exists>t ys. block_take (log_dev s) bp b bi s = Inr (Some (b + bi), t) \<and> lstep s t \<and>
    txn c t (update (log_dev s) (b + bi, memset 0 0 BSIZE) (update (log_dev s) (m, set_used bi) H)) B {} ys \<and> set ys \<subseteq> {m, b + bi} \<union> set xs"
proof -
  let ?n = "b + bi"
  have fin: "finite (B \<union> lhk s ` set xs)" using card(2) by simp
  have c8: "card (insert (lhk s m) (B \<union> lhk s ` set xs)) \<le> 8" using card(1) card_insert_le_m1 [of 8 "B \<union> lhk s ` set xs" "lhk s m"] by simp
  then have c9: "card (insert (lhk s ?n) (insert (lhk s m) (B \<union> lhk s ` set xs))) \<le> 9"
    using card_insert_le_m1 [of 9 "insert (lhk s m) (B \<union> lhk s ` set xs)" "lhk s ?n"] by simp
  have "card (insert (lhk s m) (B \<union> lhk s ` set xs)) \<le> 9" using c8 by simp
  from t_change [OF s this card(2), of "set_used bi"] obtain t where t:
    "kseq (buf_put (\<lambda>x. x\<lparr>b_data := set_used bi (b_data x)\<rparr>) bp) (kseq (log_write bp) (bufcache_release bp)) s = Inr ((), t)"
    "txn c t (update (log_dev s) (m, set_used bi) H) B {} (ins m xs)" "lstep s t" by blast
  have "log_keep s t" using t(3) by (simp add: lstep_def)
  note e = lstep_sels [OF this]
  have "home t (lhk t ?n)" "lhk t ?n \<notin> B" "card (insert (lhk t ?n) (B \<union> lhk t ` set (ins m xs))) \<le> 9"
    using n c9 unfolding e by simp_all
  from t_update [OF t(2) this card(2), of "memset 0 0 BSIZE"] obtain u where u:
    "block_zero (log_dev s) ?n t = Inr ((), u)" "lstep t u"
    "txn c u (update (log_dev s) (?n, memset 0 0 BSIZE) (update (log_dev s) (m, set_used bi) H)) B {} (ins ?n (ins m xs))"
    unfolding e block_zero_eq by blast
  have "(block_take (log_dev s) bp b bi :: ('z log_state_scheme, u32 option) kern) =
    kseq (kseq (buf_put (\<lambda>x. x\<lparr>b_data := set_used bi (b_data x)\<rparr>) bp) (kseq (log_write bp) (bufcache_release bp)))
      (kseq (block_zero (log_dev s) ?n) (kret (Some ?n)))"
    by (simp only: block_take_def kseq_assoc)
  then have "block_take (log_dev s) bp b bi s = Inr (Some ?n, u)" using t(1) u(1) by simp
  moreover have "set (ins ?n (ins m xs)) \<subseteq> {m, ?n} \<union> set xs" by auto
  ultimately show ?thesis using u(3) lstep_trans [OF t(3) u(2)] by blast
qed

text \<open>Block \<open>m\<close> in the bitmap, and the block that the search finds.\<close>

definition blk_used :: "u32 \<Rightarrow> u32 \<Rightarrow> (bkey \<Rightarrow> memory) \<Rightarrow> u32 \<Rightarrow> bool" where
  "blk_used d ni H m \<longleftrightarrow> bit_used (H (d, BBLOCK m ni)) (m mod BPB)"

definition first_free :: "u32 \<Rightarrow> (bkey \<Rightarrow> memory) \<Rightarrow> u32 \<Rightarrow> bool" where
  "first_free d H n \<longleftrightarrow> (let sb = sb_of (H (d, 1)) in n < sb_size sb \<and> \<not> blk_used d (sb_ninodes sb) H n \<and>
     (\<forall>m < n. blk_used d (sb_ninodes sb) H m))"

text \<open>The super block and the bitmap up to block \<open>n\<close> are where the log keeps their contents.\<close>

definition bitmap_ok :: "'z log_state_scheme \<Rightarrow> (bkey \<Rightarrow> memory) \<Rightarrow> u32 \<Rightarrow> bool" where
  "bitmap_ok s H n \<longleftrightarrow> (let d = log_dev s; sb = sb_of (H (d, 1)) in sb_size sb \<le> 0x7ffff000 \<and> home s (d, 1) \<and> home s (d, n) \<and>
     (\<forall>m \<le> n. home s (d, BBLOCK m (sb_ninodes sb))))"

definition allocated :: "u32 \<Rightarrow> u32 \<Rightarrow> (bkey \<Rightarrow> memory) \<Rightarrow> bkey \<Rightarrow> memory" where
  "allocated d n H = update d (n, memset 0 0 BSIZE) (update d (BBLOCK n (sb_ninodes (sb_of (H (d, 1)))), set_used (n mod BPB)) H)"

lemma bblock_arith:
  assumes "4096 * i + 4096 < (2 ^ 32 :: nat)" "j < BPB"
  shows "unat (of_nat (4096 * i) + j :: u32) = 4096 * i + unat j" "BBLOCK (of_nat (4096 * i) + j) ni = BBLOCK (of_nat (4096 * i)) ni"
    "(of_nat (4096 * i) + j) mod BPB = j"
proof -
  have j: "unat j < 4096" using assms(2) by (simp add: BPB_def word_less_nat_alt)
  have b: "unat (of_nat (4096 * i) :: u32) = 4096 * i" using assms(1) by (subst unat_of_nat) simp
  show u: "unat (of_nat (4096 * i) + j :: u32) = 4096 * i + unat j" using b j assms(1) by (subst unat_add_exact) simp_all
  have "unat ((of_nat (4096 * i) + j) div BPB) = unat (of_nat (4096 * i) div BPB :: u32)"
    unfolding unat_div u b using j by (simp add: BPB_def)
  then have "(of_nat (4096 * i) + j) div BPB = of_nat (4096 * i) div BPB" by (simp only: word_unat_eq_iff)
  then show "BBLOCK (of_nat (4096 * i) + j) ni = BBLOCK (of_nat (4096 * i)) ni" by (simp only: BBLOCK_def)
  have "unat ((of_nat (4096 * i) + j) mod BPB) = unat j" unfolding unat_mod u using j by (simp add: BPB_def)
  then show "(of_nat (4096 * i) + j) mod BPB = j" by (simp add: word_unat_eq_iff)
qed

lemma first_free_used:
  assumes "first_free d H n" "4096 * i + 4096 < (2 ^ 32 :: nat)" "j < BPB" "of_nat (4096 * i) + j < n"
  shows "bit_used (H (d, BBLOCK (of_nat (4096 * i)) (sb_ninodes (sb_of (H (d, 1)))))) j"
proof -
  have "blk_used d (sb_ninodes (sb_of (H (d, 1)))) H (of_nat (4096 * i) + j)"
    using assms(1,4) unfolding first_free_def Let_def by blast
  then show ?thesis unfolding blk_used_def bblock_arith(2,3) [OF assms(2,3)] .
qed

text \<open>What a search for block \<open>n\<close> needs of the held and the logged sectors.\<close>

definition alloc_room :: "'z log_state_scheme \<Rightarrow> (bkey \<Rightarrow> memory) \<Rightarrow> bkey set \<Rightarrow> u32 list \<Rightarrow> u32 \<Rightarrow> bool" where
  "alloc_room s H B xs n \<longleftrightarrow> finite B \<and> card (B \<union> lhk s ` set xs) \<le> 7 \<and> lhk s 1 \<notin> B \<and> lhk s n \<notin> B \<and>
     (\<forall>m \<le> n. lhk s (BBLOCK m (sb_ninodes (sb_of (H (lhk s 1))))) \<notin> B)"

lemma alloc_room_keep:
  assumes "log_keep s t"
  shows "alloc_room t H B xs n = alloc_room s H B xs n" "bitmap_ok t H n = bitmap_ok s H n"
  unfolding alloc_room_def bitmap_ok_def lstep_sels [OF assms] by simp_all

lemma room_card: "alloc_room s H B xs n \<Longrightarrow> card (insert k (B \<union> lhk s ` set xs)) \<le> 10"
  using card_insert_le_m1 [of 10 "B \<union> lhk s ` set xs" k] by (simp add: alloc_room_def)

text \<open>The bitmap block that holds the free bit, and a bitmap block before it.\<close>

lemma alloc_found:
  fixes s :: "'z log_state_scheme"
  assumes "txn c s H B {} xs" "i = unat n div 4096" "first_free (log_dev s) H n" "bitmap_ok s H n" "alloc_room s H B xs n"
  shows "\<exists>t ys. block_alloc_loop (log_dev s) (sb_of (H (lhk s 1))) (of_nat (4096 * i)) s = Inr (n, t) \<and> lstep s t \<and>
    txn c t (allocated (log_dev s) n H) B {} ys"
proof -
  let ?sb = "sb_of (H (lhk s 1))" and ?b = "of_nat (4096 * i) :: u32" and ?j = "n mod BPB"
  let ?m = "BBLOCK ?b (sb_ninodes ?sb)"
  note q = assms(2)
  have sz: "n < sb_size ?sb" "sb_size ?sb \<le> 0x7ffff000" using assms(3,4) by (simp_all add: first_free_def bitmap_ok_def Let_def lhk_def)
  then have un: "unat n < 0x7ffff000" by (simp add: word_less_nat_alt word_le_nat_alt)
  have qn: "4096 * i \<le> unat n" unfolding q by simp
  then have small: "4096 * i + 4096 < (2 ^ 32 :: nat)" using un by simp
  have uj: "unat ?j = unat n mod 4096" "?j < BPB" by (simp_all add: BPB_def unat_mod word_less_nat_alt)
  have n: "n = ?b + ?j"
    using bblock_arith(1) [OF small uj(2)] uj(1) q mult_div_mod_eq [of 4096 "unat n"] by (simp only: word_unat_eq_iff)
  have nm: "BBLOCK n (sb_ninodes ?sb) = ?m" using bblock_arith(2) [OF small uj(2), folded n] .
  have "home s (lhk s ?m)" "lhk s ?m \<notin> B" using assms(4,5) nm by (auto simp: bitmap_ok_def Let_def alloc_room_def lhk_def)
  with t_read [OF assms(1) this room_card [OF assms(5)]] obtain bp t where t: "bufcache_read (log_dev s) ?m s = Inr (bp, t)"
    "txn c t H (insert (lhk s ?m) B) {} xs" "holds t bp (lhk s ?m)" "lstep s t" by blast
  have "log_keep s t" using t(4) by (simp add: lstep_def)
  note e = lstep_sels [OF this]
  have used: "bit_used (H (lhk s ?m)) k" if "k < ?j" for k
  proof -
    have k: "k < BPB" using that uj(2) by (rule order_less_trans)
    have "?b + k < n" using bblock_arith(1) [OF small k] bblock_arith(1) [OF small uj(2)] that n by (simp only: word_less_nat_alt)
    then show ?thesis using first_free_used [OF assms(3) small k] by (simp add: lhk_def)
  qed
  have free: "\<not> bit_used (H (lhk s ?m)) ?j" using assms(3) nm by (simp add: first_free_def Let_def blk_used_def lhk_def)
  have ub: "unat ?b + 4096 < 2 ^ 32" using small by (subst unat_of_nat) simp
  have scan: "block_scan (log_dev s) (sb_size ?sb) bp ?b 0 t = block_take (log_dev s) bp ?b ?j t"
    using scan_some [OF t_get(1) [OF t(2,3)] uj(2) ub _ free, of "sb_size ?sb" 0] used sz(1) n by simp
  have "home t (lhk t (?b + ?j))" "lhk t (?b + ?j) \<notin> B" "card (B \<union> lhk t ` set xs) \<le> 7" "finite B" "lhk t ?m \<notin> B"
    "txn c t H (insert (lhk t ?m) B) {} xs" "holds t bp (lhk t ?m)"
    using assms(4,5) t(2,3) n \<open>lhk s ?m \<notin> B\<close> unfolding e by (simp_all add: bitmap_ok_def Let_def alloc_room_def lhk_def)
  from block_take_ok [OF this(6,7,5,1-4)] obtain u ys where u: "block_take (log_dev s) bp ?b ?j t = Inr (Some n, u)" "lstep t u"
    "txn c u (allocated (log_dev s) n H) B {} ys"
    unfolding e n [symmetric] allocated_def nm [symmetric] by (auto simp: lhk_def)
  have "?b < sb_size ?sb"
    using sz(1) qn small by (simp only: word_less_nat_alt unat_of_nat) simp
  then have "block_alloc_loop (log_dev s) ?sb ?b s = Inr (n, u)"
    using t(1) scan u(1) by (simp add: block_alloc_loop.simps [of _ _ ?b] del: of_nat_mult)
  then show ?thesis using u(2,3) lstep_trans [OF t(4) u(2)] by blast
qed

lemma alloc_next:
  fixes s :: "'z log_state_scheme"
  assumes "txn c s H B {} xs" "i < unat n div 4096" "first_free (log_dev s) H n" "bitmap_ok s H n" "alloc_room s H B xs n"
  shows "\<exists>u. block_alloc_loop (log_dev s) (sb_of (H (lhk s 1))) (of_nat (4096 * i)) s =
    block_alloc_loop (log_dev s) (sb_of (H (lhk s 1))) (of_nat (4096 * Suc i)) u \<and> txn c u H B {} xs \<and> lstep s u"
proof -
  let ?sb = "sb_of (H (lhk s 1))" and ?b = "of_nat (4096 * i) :: u32"
  let ?m = "BBLOCK ?b (sb_ninodes ?sb)"
  have sz: "n < sb_size ?sb" "sb_size ?sb \<le> 0x7ffff000" using assms(3,4) by (simp_all add: first_free_def bitmap_ok_def Let_def lhk_def)
  then have un: "unat n < 0x7ffff000" by (simp add: word_less_nat_alt word_le_nat_alt)
  have "Suc i \<le> unat n div 4096" using assms(2) by simp
  then have "4096 * Suc i \<le> 4096 * (unat n div 4096)" by simp
  also have "\<dots> \<le> unat n" by simp
  finally have qn: "4096 * i + 4096 \<le> unat n" by simp
  then have small: "4096 * i + 4096 < (2 ^ 32 :: nat)" using un by simp
  have ub: "unat ?b = 4096 * i" using small by (subst unat_of_nat) simp
  have ub2: "unat ?b + 4096 < 2 ^ 32" using small unfolding ub .
  have bn: "?b \<le> n" "?b < sb_size ?sb" "?b < 0x7ffff000" using qn sz(1) un unfolding word_le_nat_alt word_less_nat_alt ub by simp_all
  have "home s (lhk s ?m)" "lhk s ?m \<notin> B" using assms(4,5) bn(1) by (auto simp: bitmap_ok_def Let_def alloc_room_def lhk_def)
  from t_read [OF assms(1) this room_card [OF assms(5)]] obtain bp t where t: "bufcache_read (log_dev s) ?m s = Inr (bp, t)"
    "txn c t H (insert (lhk s ?m) B) {} xs" "holds t bp (lhk s ?m)" "lstep s t" by blast
  obtain u where u: "bufcache_release bp t = Inr ((), u)" "txn c u H (insert (lhk s ?m) B - {lhk s ?m}) {} xs" "lstep t u"
    using t_rel [OF t(2,3)] by blast
  have "bit_used (H (lhk s ?m)) j" if j: "j < BPB" for j
  proof -
    have "?b + j < n" using bblock_arith(1) [OF small j] qn j by (simp add: word_less_nat_alt BPB_def del: of_nat_mult)
    then show ?thesis using first_free_used [OF assms(3) small j] by (simp add: lhk_def)
  qed
  then have scan: "block_scan (log_dev s) (sb_size ?sb) bp ?b 0 t = Inr (None, t)"
    by (intro scan_none [OF t_get(1) [OF t(2,3)] ub2]) simp_all
  have "insert (lhk s ?m) B - {lhk s ?m} = B" using \<open>lhk s ?m \<notin> B\<close> by simp
  then have "txn c u H B {} xs" using u(2) by simp
  moreover have "block_alloc_loop (log_dev s) ?sb ?b s = block_alloc_loop (log_dev s) ?sb (?b + BPB) u"
    using t(1) scan u(1) bn by (simp add: block_alloc_loop.simps [of _ _ ?b] del: of_nat_mult)
  moreover have "?b + BPB = of_nat (4096 * Suc i)" by (simp add: BPB_def)
  ultimately show ?thesis using lstep_trans [OF t(4) u(3)] by metis
qed

lemma block_alloc_loop_ok:
  fixes s :: "'z log_state_scheme"
  assumes "txn c s H B {} xs" "i \<le> unat n div 4096" "first_free (log_dev s) H n" "bitmap_ok s H n" "alloc_room s H B xs n"
  shows "\<exists>t ys. block_alloc_loop (log_dev s) (sb_of (H (lhk s 1))) (of_nat (4096 * i)) s = Inr (n, t) \<and> lstep s t \<and>
    txn c t (allocated (log_dev s) n H) B {} ys"
  using assms
proof (induction "unat n div 4096 - i" arbitrary: s i)
  case (0 i s)
  then show ?case by (intro alloc_found) simp_all
next
  case (Suc k i s)
  have "i < unat n div 4096" using Suc.hyps(2) by simp
  from alloc_next [OF Suc.prems(1) this Suc.prems(3-5)] obtain u where u: "txn c u H B {} xs" "lstep s u"
    "block_alloc_loop (log_dev s) (sb_of (H (lhk s 1))) (of_nat (4096 * i)) s =
     block_alloc_loop (log_dev s) (sb_of (H (lhk s 1))) (of_nat (4096 * Suc i)) u" by blast
  have k: "log_keep s u" using u(2) by (simp add: lstep_def)
  note e = lstep_sels [OF k]
  have "\<exists>t ys. block_alloc_loop (log_dev u) (sb_of (H (lhk u 1))) (of_nat (4096 * Suc i)) u = Inr (n, t) \<and> lstep u t \<and>
    txn c t (allocated (log_dev u) n H) B {} ys"
    using Suc.hyps(2) Suc.prems(3-5) u(1) \<open>i < _\<close> alloc_room_keep [OF k] by (intro Suc.hyps(1)) (simp_all add: e)
  then show ?case unfolding e u(3) using lstep_trans [OF u(2)] by blast
qed

lemma block_alloc_ok:
  fixes s :: "'z log_state_scheme"
  assumes "txn c s H B {} xs" "first_free (log_dev s) H n" "bitmap_ok s H n" "alloc_room s H B xs n"
  shows "\<exists>t ys. block_alloc (log_dev s) s = Inr (n, t) \<and> lstep s t \<and> txn c t (allocated (log_dev s) n H) B {} ys"
proof -
  have "home s (lhk s 1)" "lhk s 1 \<notin> B" using assms(3,4) by (simp_all add: bitmap_ok_def alloc_room_def Let_def lhk_def)
  from t_superblock [OF assms(1) this room_card [OF assms(4)]] obtain t where t:
    "read_superblock (log_dev s) s = Inr (sb_of (H (lhk s 1)), t)" "txn c t H B {} xs" "lstep s t" by blast
  have k: "log_keep s t" using t(3) by (simp add: lstep_def)
  note e = lstep_sels [OF k]
  have "\<exists>u ys. block_alloc_loop (log_dev t) (sb_of (H (lhk t 1))) (of_nat (4096 * 0)) t = Inr (n, u) \<and> lstep t u \<and>
    txn c u (allocated (log_dev t) n H) B {} ys"
    using assms t(2) alloc_room_keep [OF k] by (intro block_alloc_loop_ok) (simp_all add: e)
  then obtain u ys where u: "block_alloc_loop (log_dev s) (sb_of (H (lhk s 1))) 0 t = Inr (n, u)" "lstep t u"
    "txn c u (allocated (log_dev s) n H) B {} ys" unfolding e by auto
  have "block_alloc (log_dev s) s = Inr (n, u)" using t(1) u(1) by (simp add: block_alloc_def)
  then show ?thesis using u(3) lstep_trans [OF t(3) u(2)] by blast
qed

lemma block_free_ok:
  fixes s :: "'z log_state_scheme"
  assumes s: "txn c s H B {} xs" "bitmap_ok s H n" "alloc_room s H B xs n"
  defines "ni \<equiv> sb_ninodes (sb_of (H (log_dev s, 1)))"
  shows "\<not> blk_used (log_dev s) ni H n \<Longrightarrow> block_free (log_dev s) n s = Inl (KERN_PANIC ''freeing free block'')"
    "blk_used (log_dev s) ni H n \<Longrightarrow> \<exists>t ys. block_free (log_dev s) n s = Inr ((), t) \<and> lstep s t \<and>
      txn c t (update (log_dev s) (BBLOCK n ni, set_free (n mod BPB)) H) B {} ys"
proof -
  let ?m = "BBLOCK n ni"
  have m: "home s (lhk s 1)" "lhk s 1 \<notin> B" "home s (lhk s ?m)" "lhk s ?m \<notin> B"
    using s(2,3) by (auto simp: bitmap_ok_def alloc_room_def Let_def lhk_def ni_def)
  from t_superblock [OF s(1) m(1,2) room_card [OF s(3)]] obtain t where t:
    "read_superblock (log_dev s) s = Inr (sb_of (H (lhk s 1)), t)" "txn c t H B {} xs" "lstep s t" by blast
  have e: "log_dev t = log_dev s" "lhk t = lhk s" "home t = home s" using t(3) lstep_sels [of s t] by (simp_all add: lstep_def)
  have "home t (lhk t ?m)" "lhk t ?m \<notin> B" "card (insert (lhk t ?m) (B \<union> lhk t ` set xs)) \<le> 10"
    using m(3,4) room_card [OF s(3)] unfolding e by simp_all
  from t_read [OF t(2) this] obtain bp u where u: "bufcache_read (log_dev s) ?m t = Inr (bp, u)"
    "txn c u H (insert (lhk s ?m) B) {} xs" "holds u bp (lhk s ?m)" "lstep t u" unfolding e by blast
  have f: "log_dev u = log_dev s" "lhk u = lhk s" using u(4) e lstep_sels [of t u] by (simp_all add: lstep_def)
  have run: "block_free (log_dev s) n s = kseq (kguard (blk_used (log_dev s) ni H n) (KERN_PANIC ''freeing free block''))
    (kseq (buf_put (\<lambda>x. x\<lparr>b_data := set_free (n mod BPB) (b_data x)\<rparr>) bp) (kseq (log_write bp) (bufcache_release bp))) u"
    using t(1) u(1) t_get(1) [OF u(2,3)]
    by (simp add: block_free_def blk_used_def bit_used_def Let_def lhk_def ni_def)
  show "\<not> blk_used (log_dev s) ni H n \<Longrightarrow> block_free (log_dev s) n s = Inl (KERN_PANIC ''freeing free block'')"
    by (simp add: run)
  assume used: "blk_used (log_dev s) ni H n"
  have "card (insert (lhk s ?m) (B \<union> lhk s ` set xs)) \<le> 9" "finite B"
    using s(3) card_insert_le_m1 [of 9 "B \<union> lhk s ` set xs" "lhk s ?m"] by (simp_all add: alloc_room_def)
  then obtain v where v: "kseq (buf_put (\<lambda>x. x\<lparr>b_data := set_free (n mod BPB) (b_data x)\<rparr>) bp) (kseq (log_write bp) (bufcache_release bp)) u = Inr ((), v)"
    "txn c v (update (log_dev s) (?m, set_free (n mod BPB)) H) B {} (ins ?m xs)" "lstep u v"
    using t_change [of c u H ?m B xs bp "set_free (n mod BPB)"] u(2,3) m(4) unfolding f by blast
  then have "block_free (log_dev s) n s = Inr ((), v)" using used by (simp add: run)
  then show "\<exists>t ys. block_free (log_dev s) n s = Inr ((), t) \<and> lstep s t \<and>
      txn c t (update (log_dev s) (BBLOCK n ni, set_free (n mod BPB)) H) B {} ys"
    using v(2) lstep_trans [OF lstep_trans [OF t(3) u(4)] v(3)] by blast
qed

section \<open>Allocating and freeing as transactions\<close>

lemma alloc_room_empty [simp]: "alloc_room s H {} [] n"
  by (simp add: alloc_room_def)

interpretation alloc: trans_body "block_alloc d" "\<lambda>s H. log_dev s = d \<and> first_free d H n \<and> bitmap_ok s H n"
  "\<lambda>s H x H'. x = n \<and> H' = allocated d n H"
proof
  fix c H and s :: "'a log_state_scheme"
  assume "txn c s H {} {} []" "log_dev s = d \<and> first_free d H n \<and> bitmap_ok s H n"
  then show "\<exists>x t H' xs. block_alloc d s = Inr (x, t) \<and> txn c t H' {} {} xs \<and> lstep s t \<and> x = n \<and> H' = allocated d n H"
    using block_alloc_ok [of c s H "{}" "[]" n] by auto
next
  fix H and s t :: "'a log_state_scheme"
  assume "log_dev s = d \<and> first_free d H n \<and> bitmap_ok s H n" "log_keep s t"
  then show "log_dev t = d \<and> first_free d H n \<and> bitmap_ok t H n"
    using lstep_sels [of s t] alloc_room_keep [of s t] by simp
qed

definition freed :: "u32 \<Rightarrow> u32 \<Rightarrow> (bkey \<Rightarrow> memory) \<Rightarrow> bkey \<Rightarrow> memory" where
  "freed d n H = update d (BBLOCK n (sb_ninodes (sb_of (H (d, 1)))), set_free (n mod BPB)) H"

interpretation free: trans_body "block_free d n"
  "\<lambda>s H. log_dev s = d \<and> bitmap_ok s H n \<and> blk_used d (sb_ninodes (sb_of (H (d, 1)))) H n" "\<lambda>s H x H'. H' = freed d n H"
proof
  fix c H and s :: "'a log_state_scheme"
  assume "txn c s H {} {} []" "log_dev s = d \<and> bitmap_ok s H n \<and> blk_used d (sb_ninodes (sb_of (H (d, 1)))) H n"
  then show "\<exists>x t H' xs. block_free d n s = Inr (x, t) \<and> txn c t H' {} {} xs \<and> lstep s t \<and> H' = freed d n H"
    using block_free_ok(2) [of c s H "{}" "[]" n] by (auto simp: freed_def)
next
  fix H and s t :: "'a log_state_scheme"
  assume "log_dev s = d \<and> bitmap_ok s H n \<and> blk_used d (sb_ninodes (sb_of (H (d, 1)))) H n" "log_keep s t"
  then show "log_dev t = d \<and> bitmap_ok t H n \<and> blk_used d (sb_ninodes (sb_of (H (d, 1)))) H n"
    using lstep_sels [of s t] alloc_room_keep [of s t] by simp
qed

lemma block_free_twice:
  assumes s: "idle c s H" "log_dev s = d" "bitmap_ok s H n" "\<not> blk_used d (sb_ninodes (sb_of (H (d, 1)))) H n"
  shows "transaction (block_free d n) s = Inl (KERN_PANIC ''freeing free block'')"
proof -
  obtain t where t: "begin_trans s = Inr ((), t)" "txn c t H {} {} []" "log_keep s t" using begin_ok [OF s(1)] by blast
  have "block_free d n t = Inl (KERN_PANIC ''freeing free block'')"
    using block_free_ok(1) [OF t(2), of n] alloc_room_keep(2) [OF t(3)] lstep_sels(1) [OF t(3)] s(2-4) by simp
  then show ?thesis using t(1) by (simp add: transaction_def)
qed

text \<open>The bitmap after an allocation and after a release.\<close>

lemma BBLOCK_ge: "unat (BBLOCK m ni) = unat m div 4096 + unat ni div 8 + 3"
proof -
  have "unat m div 4096 < 2 ^ 20" "unat ni div 8 < 2 ^ 29" using unat_lt2p [of m] unat_lt2p [of ni] by simp_all
  then show ?thesis unfolding BBLOCK_def BPB_def IPB_def by (simp add: unat_add_exact unat_div)
qed

lemma BBLOCK_not_super [simp]: "BBLOCK m ni \<noteq> 1" "1 \<noteq> BBLOCK m ni"
  using BBLOCK_ge [of m ni] by (auto simp: word_unat_eq_iff)

lemma bitmap_pos: "BBLOCK m ni = BBLOCK n ni \<Longrightarrow> m mod BPB = n mod BPB \<Longrightarrow> m = n"
proof -
  assume a: "BBLOCK m ni = BBLOCK n ni" "m mod BPB = n mod BPB"
  have "unat m div 4096 = unat n div 4096" using a(1) BBLOCK_ge [of m ni] BBLOCK_ge [of n ni] by simp
  moreover have "unat m mod 4096 = unat n mod 4096" using a(2) by (simp add: word_unat_eq_iff unat_mod BPB_def)
  ultimately show "m = n" by (metis mult_div_mod_eq word_unat_eq_iff)
qed

lemma allocated_bits:
  assumes "n \<noteq> 1" "\<forall>m < z. n \<noteq> BBLOCK m ni" "ni = sb_ninodes (sb_of (H (d, 1)))" "n < z"
  shows "m < z \<Longrightarrow> blk_used d ni (allocated d n H) m \<longleftrightarrow> m = n \<or> blk_used d ni H m" "allocated d n H (d, 1) = H (d, 1)"
    "allocated d n H (d, n) = memset 0 0 BSIZE (H (d, n))"
  using assms(1,4) assms(2) [rule_format, of m] assms(2) [rule_format, of n] bitmap_pos [of m ni n] by (auto simp: blk_used_def allocated_def update_def simp flip: assms(3))

lemma freed_bits:
  assumes "ni = sb_ninodes (sb_of (H (d, 1)))"
  shows "blk_used d ni (freed d n H) m \<longleftrightarrow> m \<noteq> n \<and> blk_used d ni H m" "freed d n H (d, 1) = H (d, 1)"
  using bitmap_pos [of m ni n] by (auto simp: blk_used_def freed_def update_def simp flip: assms)



section \<open>A formatted disk\<close>

text \<open>
  Sixty-four blocks and sixteen inodes, so that the bitmap is sector 5; the blocks below 7 are
  marked.
\<close>

definition sample_disk :: sectors where
  "sample_disk d n = (if n = 1 then (\<lambda>_. 0)(0 := 64, 8 := 16) else if n = 5 then (\<lambda>_. 0)(0 := 0x7f) else (\<lambda>_. 0))"

abbreviation sample_home :: "bkey \<Rightarrow> memory" where
  "sample_home \<equiv> \<lambda>(d, n). sample_disk d n"

lemma sample_super: "sb_of (sample_home (1, 1)) = \<lparr>sb_size = 64, sb_nblocks = 0, sb_ninodes = 16, sb_nlog = 0\<rparr>"
  by (simp add: sb_of_def sample_disk_def load32_def)

lemma sample_bitmap: "m < 64 \<Longrightarrow> BBLOCK m 16 = 5"
proof -
  assume "m < 64"
  then have "unat (BBLOCK m 16) = unat (5 :: u32)" by (simp add: BBLOCK_ge word_less_nat_alt)
  then show ?thesis by (simp only: word_unat_eq_iff)
qed

lemma less7: "m < 7 \<Longrightarrow> m = 0 \<or> m = 1 \<or> m = 2 \<or> m = 3 \<or> m = 4 \<or> m = 5 \<or> m = 6" for m :: u32
proof -
  assume "m < 7"
  then have "unat m < 7" by (simp add: word_less_nat_alt)
  then have "unat m = 0 \<or> unat m = 1 \<or> unat m = 2 \<or> unat m = 3 \<or> unat m = 4 \<or> unat m = 5 \<or> unat m = 6" by arith
  then show ?thesis by (simp add: word_unat_eq_iff)
qed

lemma sample_free: "first_free 1 sample_home 7"
proof -
  have "blk_used 1 16 sample_home m" if "m < 7" for m
    using less7 [OF that] sample_bitmap [of m] by (auto simp: blk_used_def bit_used_def bit_mask_def sample_disk_def BPB_def push_bit_eq_mult)
  moreover have "\<not> blk_used 1 16 sample_home 7"
    using sample_bitmap [of 7] by (simp add: blk_used_def bit_used_def bit_mask_def sample_disk_def BPB_def push_bit_eq_mult)
  ultimately show ?thesis unfolding first_free_def sample_super Let_def by simp
qed

lemma sample_ok: "idle 0 (with_log sample_disk) sample_home" "bitmap_ok (with_log sample_disk) sample_home 7"
proof -
  show "idle 0 (with_log sample_disk) sample_home" by (rule with_log_idle) (simp add: sample_disk_def load32_def)
  have "home (with_log sample_disk) (1, BBLOCK m 16)" if "m \<le> 7" for m
    using that sample_bitmap [of m] with_log_home [of 5 sample_disk] order_le_less_trans [of m 7 64] by simp
  then show "bitmap_ok (with_log sample_disk) sample_home 7"
    using with_log_home [of 1 sample_disk] with_log_home [of 7 sample_disk] sample_super by (simp add: bitmap_ok_def Let_def)
qed

lemma sample_outside: "\<forall>m < (64 :: u32). 7 \<noteq> BBLOCK m 16"
  using sample_bitmap by auto

lemma sample_8: "\<not> blk_used 1 16 sample_home 8"
  using sample_bitmap [of 8] by (simp add: blk_used_def bit_used_def bit_mask_def sample_disk_def BPB_def push_bit_eq_mult)



end
