(* ===== verification/CString.thy ===== *)
theory CString
  imports Mem
begin

text \<open>
  C strings in byte-addressed memory: the rest of \<^verbatim>\<open>kern/lib/string.c\<close> (\<^verbatim>\<open>strncmp\<close>, \<^verbatim>\<open>strnlen\<close>,
  \<^verbatim>\<open>strcmp\<close>, \<^verbatim>\<open>strchr\<close>, \<^verbatim>\<open>memcmp\<close>, \<^verbatim>\<open>strncpy\<close>) and \<^verbatim>\<open>kern/lib/types.c\<close>. Loops that stop at a
  terminating zero only are partial functions: they return on every terminated string. Main
  results: \<^verbatim>\<open>strcmp\<close> orders strings lexicographically, \<^verbatim>\<open>strncpy\<close> writes exactly the \<open>n\<close> bytes of
  the field.
\<close>

section \<open>Terminated strings\<close>

lemma offset_next:
  fixes a p :: u32
  assumes "a \<noteq> p"
  shows "unat (a - p) = Suc (unat (a - (p + 1)))"
proof -
  have e: "a - (p + 1) = (a - p) - 1" "a - p \<noteq> 0" using assms by simp_all
  then show ?thesis unfolding e(1) using unat_minus_one [OF e(2)] unat_gt_0 [of "a - p"] by simp
qed

fun cstr :: "memory \<Rightarrow> u32 \<Rightarrow> u8 list \<Rightarrow> bool" where
  "cstr m p [] \<longleftrightarrow> m p = 0"
| "cstr m p (c # xs) \<longleftrightarrow> m p = c \<and> c \<noteq> 0 \<and> cstr m (p + 1) xs"

lemma cstr_nz: "cstr m p xs \<Longrightarrow> 0 \<notin> set xs"
  by (induction xs arbitrary: p) auto

lemma cstr_nth: "cstr m p xs \<Longrightarrow> k < length xs \<Longrightarrow> m (p + of_nat k) = xs ! k"
proof (induction xs arbitrary: p k)
  case (Cons c xs)
  show ?case
  proof (cases k)
    case (Suc j)
    then show ?thesis using Cons.IH [of "p + 1" j] Cons.prems by (simp add: add.assoc)
  qed (use Cons.prems in simp)
qed simp

lemma cstr_end: "cstr m p xs \<Longrightarrow> m (p + of_nat (length xs)) = 0"
proof (induction xs arbitrary: p)
  case (Cons c xs)
  then show ?case using Cons.IH [of "p + 1"] by (simp add: add.assoc)
qed simp

lemma cstr_inj: "cstr m p xs \<Longrightarrow> cstr m p ys \<Longrightarrow> xs = ys"
proof (induction xs arbitrary: p ys)
  case Nil
  then show ?case by (cases ys) auto
next
  case (Cons c xs)
  then show ?case by (cases ys) auto
qed

text \<open>A terminated string is shorter than the address space, which would wrap onto its start.\<close>

lemma cstr_length: "cstr m p xs \<Longrightarrow> length xs < 2 ^ 32"
proof (rule ccontr)
  assume c: "cstr m p xs" and "\<not> length xs < 2 ^ 32"
  then have l: "2 ^ 32 \<le> length xs" by simp
  define k where "k = length xs - 2 ^ 32"
  have "p + of_nat (length xs) = p + of_nat k"
    using l by (simp add: k_def of_nat_diff)
  then have "xs ! k = 0" using cstr_end [OF c] cstr_nth [OF c, of k] l by (simp add: k_def)
  moreover have "k < length xs" using l by (simp add: k_def)
  ultimately show False using cstr_nz [OF c] nth_mem by metis
qed

lemma cstrI:
  "(\<And>k. k < length xs \<Longrightarrow> m (p + of_nat k) = xs ! k) \<Longrightarrow> 0 \<notin> set xs \<Longrightarrow> m (p + of_nat (length xs)) = 0 \<Longrightarrow>
   cstr m p xs"
proof (induction xs arbitrary: p)
  case (Cons c xs)
  have "m (p + 1 + of_nat k) = xs ! k" if "k < length xs" for k
    using Cons.prems(1) [of "Suc k"] that by (simp add: add.assoc)
  moreover have "m (p + 1 + of_nat (length xs)) = 0" using Cons.prems(3) by (simp add: add.assoc)
  ultimately have "cstr m (p + 1) xs" using Cons.prems(2) by (intro Cons.IH) auto
  then show ?case using Cons.prems(1) [of 0] Cons.prems(2) by auto
qed simp

section \<open>Comparison and search\<close>

function strncmp :: "memory \<Rightarrow> u32 \<Rightarrow> u32 \<Rightarrow> u32 \<Rightarrow> int" where
  "strncmp m p q n =
     (if 0 < n \<and> m p \<noteq> 0 \<and> m p = m q then strncmp m (p + 1) (q + 1) (n - 1)
      else if n = 0 then 0 else uint (m p) - uint (m q))"
  by pat_completeness auto
termination
  by (relation "measure (\<lambda>(m, p, q, n). unat n)") (auto simp: unat_minus_one unat_gt_0 word_gt_0)

function strnlen_loop :: "memory \<Rightarrow> u32 \<Rightarrow> u32 \<Rightarrow> u32 \<Rightarrow> u32" where
  "strnlen_loop m s sz n =
     (if 0 < sz \<and> m s \<noteq> 0 then strnlen_loop m (s + 1) (sz - 1) (n + 1) else n)"
  by pat_completeness auto
termination
  by (relation "measure (\<lambda>(m, s, sz, n). unat sz)") (auto simp: unat_minus_one unat_gt_0 word_gt_0)

definition strnlen :: "memory \<Rightarrow> u32 \<Rightarrow> u32 \<Rightarrow> u32" where
  "strnlen m s sz = strnlen_loop m s sz 0"

partial_function (option) strcmp :: "memory \<Rightarrow> u32 \<Rightarrow> u32 \<Rightarrow> int option" where
  "strcmp m p q =
     (if m p \<noteq> 0 \<and> m p = m q then strcmp m (p + 1) (q + 1)
      else Some (uint (m p) - uint (m q)))"

partial_function (option) strchr :: "memory \<Rightarrow> u32 \<Rightarrow> u8 \<Rightarrow> u32 option" where
  "strchr m s c =
     (if m s = 0 then Some 0 else if m s = c then Some s else strchr m (s + 1) c)"

function memcmp :: "memory \<Rightarrow> u32 \<Rightarrow> u32 \<Rightarrow> u32 \<Rightarrow> int" where
  "memcmp m s1 s2 n =
     (if 0 < n then
        if m s1 \<noteq> m s2 then uint (m s1) - uint (m s2) else memcmp m (s1 + 1) (s2 + 1) (n - 1)
      else 0)"
  by pat_completeness auto
termination
  by (relation "measure (\<lambda>(m, p, q, n). unat n)") (auto simp: unat_minus_one unat_gt_0 word_gt_0)

text \<open>The count of \<^verbatim>\<open>strncpy\<close> is a signed \<^verbatim>\<open>int\<close>; it is decremented once more when it ends the loop.\<close>

function strncpy_pad :: "u32 \<Rightarrow> u32 \<Rightarrow> memory \<Rightarrow> memory" where
  "strncpy_pad s n m = (if 0 < sint n then strncpy_pad (s + 1) (n - 1) (m(s := 0)) else m)"
  by pat_completeness auto
termination
proof (relation "measure (\<lambda>(s, n, m). unat n)")
  fix s n :: u32 and m :: memory
  assume "0 < sint n"
  then have "n \<noteq> 0" by auto
  then show "((s + 1, n - 1, m(s := 0)), s, n, m) \<in> measure (\<lambda>(s, n, m). unat n)"
    by (simp add: unat_minus_one unat_gt_0)
qed simp

function strncpy_loop :: "u32 \<Rightarrow> u32 \<Rightarrow> u32 \<Rightarrow> memory \<Rightarrow> memory" where
  "strncpy_loop s t n m =
     (if 0 < sint n then
        if m t \<noteq> 0 then strncpy_loop (s + 1) (t + 1) (n - 1) (m(s := m t))
        else strncpy_pad (s + 1) (n - 1) (m(s := m t))
      else strncpy_pad s (n - 1) m)"
  by pat_completeness auto
termination
proof (relation "measure (\<lambda>(s, t, n, m). unat n)")
  fix s t n :: u32 and m :: memory
  assume "0 < sint n"
  then have "n \<noteq> 0" by auto
  then show "((s + 1, t + 1, n - 1, m(s := m t)), s, t, n, m) \<in> measure (\<lambda>(s, t, n, m). unat n)"
    by (simp add: unat_minus_one unat_gt_0)
qed simp

declare strncmp.simps [simp del] strnlen_loop.simps [simp del] memcmp.simps [simp del]
  strncpy_pad.simps [simp del] strncpy_loop.simps [simp del]

definition strncpy :: "u32 \<Rightarrow> u32 \<Rightarrow> u32 \<Rightarrow> memory \<Rightarrow> memory" where
  "strncpy s t n m = strncpy_loop s t n m"

definition max_u32 :: "u32 \<Rightarrow> u32 \<Rightarrow> u32" where
  "max_u32 a b = (if a > b then a else b)"

definition min_u32 :: "u32 \<Rightarrow> u32 \<Rightarrow> u32" where
  "min_u32 a b = (if a < b then a else b)"

section \<open>The order of strings\<close>

fun str_diff :: "u8 list \<Rightarrow> u8 list \<Rightarrow> int" where
  "str_diff [] [] = 0"
| "str_diff [] (d # ys) = - uint d"
| "str_diff (c # xs) [] = uint c"
| "str_diff (c # xs) (d # ys) = (if c = d then str_diff xs ys else uint c - uint d)"

lemma str_diff_0: "0 \<notin> set xs \<Longrightarrow> 0 \<notin> set ys \<Longrightarrow> str_diff xs ys = 0 \<longleftrightarrow> xs = ys"
  by (induction xs ys rule: str_diff.induct) (auto simp: uint_0_iff simp flip: word_uint_eq_iff)

lemma str_diff_less:
  "0 \<notin> set xs \<Longrightarrow> 0 \<notin> set ys \<Longrightarrow> str_diff xs ys < 0 \<longleftrightarrow> ord_class.lexordp xs ys"
proof (induction xs ys rule: str_diff.induct)
  case (2 d ys)
  then have "0 < d" by (auto simp: word_gt_0)
  then show ?case by (simp add: word_less_def)
next
  case (4 c xs d ys)
  then show ?case by (cases c d rule: linorder_cases) (auto simp: word_less_def)
qed (auto simp: word_less_def not_less)

lemma strcmp_cstr: "cstr m p xs \<Longrightarrow> cstr m q ys \<Longrightarrow> strcmp m p q = Some (str_diff xs ys)"
proof (induction xs arbitrary: p q ys)
  case Nil
  then show ?case by (cases ys) (auto simp: strcmp.simps [of m p q])
next
  case (Cons c xs)
  then show ?case by (cases ys) (auto simp: strcmp.simps [of m p q])
qed

lemma strncmp_cstr:
  "cstr m p xs \<Longrightarrow> cstr m q ys \<Longrightarrow> strncmp m p q n = str_diff (take (unat n) xs) (take (unat n) ys)"
proof (induction m p q n arbitrary: xs ys rule: strncmp.induct)
  case (1 m p q n)
  show ?case
  proof (cases "n = 0")
    case False
    then obtain k where k: "unat n = Suc k" "unat (n - 1) = k"
      by (cases "unat n") (auto simp: unat_eq_0 unat_minus_one)
    show ?thesis
      using 1 False k by (cases xs; cases ys) (auto simp: strncmp.simps [of m p q n] word_gt_0)
  qed (simp add: strncmp.simps)
qed

lemma strnlen_cstr: "cstr m p xs \<Longrightarrow> strnlen m p n = of_nat (min (length xs) (unat n))"
proof -
  have "strnlen_loop m p n l = l + of_nat (min (length xs) (unat n))" if "cstr m p xs" for l
    using that
  proof (induction m p n l arbitrary: xs rule: strnlen_loop.induct)
    case (1 m p n l)
    show ?case
    proof (cases "n = 0")
      case False
      then obtain k where k: "unat n = Suc k" "unat (n - 1) = k"
        by (cases "unat n") (auto simp: unat_eq_0 unat_minus_one)
      show ?thesis
        using 1 False k by (cases xs) (auto simp: strnlen_loop.simps [of m p n l] word_gt_0)
    qed (simp add: strnlen_loop.simps)
  qed
  then show "cstr m p xs \<Longrightarrow> strnlen m p n = of_nat (min (length xs) (unat n))" by (simp add: strnlen_def)
qed

lemma strchr_cstr:
  "cstr m p xs \<Longrightarrow> strchr m p c =
     Some (if c \<in> set xs then p + of_nat (length (takeWhile (\<lambda>x. x \<noteq> c) xs)) else 0)"
proof (induction xs arbitrary: p)
  case (Cons x xs)
  then show ?case using Cons.IH [of "p + 1"] by (auto simp: strchr.simps [of m p c] add.assoc)
qed (simp add: strchr.simps)

section \<open>strncpy\<close>

definition strncpy_byte :: "memory \<Rightarrow> u32 \<Rightarrow> nat \<Rightarrow> u8" where
  "strncpy_byte m t k = (if \<exists>j < k. m (t + of_nat j) = 0 then 0 else m (t + of_nat k))"

lemma strncpy_byte_Suc:
  assumes "m t \<noteq> 0"
  shows "strncpy_byte m t (Suc k) = strncpy_byte m (t + 1) k"
proof -
  have "(\<exists>j < Suc k. m (t + of_nat j) = 0) \<longleftrightarrow> (\<exists>j < k. m (t + 1 + of_nat j) = 0)"
    using assms by (simp add: Ex_less_Suc2 add.assoc)
  moreover have "t + of_nat (Suc k) = t + 1 + of_nat k" by simp
  ultimately show ?thesis unfolding strncpy_byte_def by metis
qed

lemma strncpy_byte_0:
  assumes "m t = 0"
  shows "strncpy_byte m t k = 0"
  using assms by (cases k) (auto simp: strncpy_byte_def)

lemma strncpy_pad_fill: "n < 0x80000000 \<Longrightarrow> strncpy_pad s n m = fill m s 0 (unat n)"
proof (induction s n m rule: strncpy_pad.induct)
  case (1 s n m)
  show ?case
  proof (cases "n = 0")
    case False
    then obtain k where k: "unat n = Suc k" "unat (n - 1) = k"
      by (cases "unat n") (auto simp: unat_eq_0 unat_minus_one)
    have "n - 1 < 0x80000000" "Suc k \<le> 2 ^ 32" using 1(2) k by (simp_all add: word_less_nat_alt)
    then show ?thesis
      using 1 False k fill_fill [of 1 k m s 0]
      by (simp add: strncpy_pad.simps [of s n m] sint_pos_iff fill_1 [symmetric])
  qed (simp add: strncpy_pad.simps)
qed

lemma strncpy_loop_bytes:
  assumes "n < 0x80000000" "\<And>k. k < unat n \<Longrightarrow> unat n \<le> unat (t + of_nat k - s)"
  shows "strncpy_loop s t n m = (\<lambda>a. if unat (a - s) < unat n then strncpy_byte m t (unat (a - s)) else m a)"
  using assms
proof (induction s t n m rule: strncpy_loop.induct)
  case (1 s t n m)
  show ?case
  proof (cases "n = 0")
    case True
    then show ?thesis by (simp add: strncpy_loop.simps [of s t 0 m] strncpy_pad.simps)
  next
    case False
    then obtain k where k: "unat n = Suc k" "unat (n - 1) = k"
      by (cases "unat n") (auto simp: unat_eq_0 unat_minus_one)
    have lt: "n - 1 < 0x80000000" "Suc k \<le> 2 ^ 32" using 1(2) k by (simp_all add: word_less_nat_alt)
    have off: "unat (a - (s + 1)) < k \<longleftrightarrow> 1 \<le> unat (a - s) \<and> unat (a - s) < Suc k" for a
      using offset_Suc [of 1 k a s] lt(2) by (cases k) auto
    show ?thesis
    proof (cases "m t = 0")
      case True
      then show ?thesis
        using 1(2) False k lt fill_fill [of 1 k m s 0]
        by (auto simp: strncpy_loop.simps [of s t n m] sint_pos_iff strncpy_pad_fill strncpy_byte_0
            fill_1 [symmetric] fill_def fun_eq_iff split: if_splits)
    next
      case nz: False
      let ?m = "m(s := m t)"
      have sep: "k \<le> unat (t + 1 + of_nat j - (s + 1))" "t + 1 + of_nat j \<noteq> s" if "j < k" for j
        using 1(3) [of j] 1(3) [of "Suc j"] that k by (auto simp: add.assoc algebra_simps)
      have sb: "strncpy_byte ?m (t + 1) j = strncpy_byte m t (Suc j)" if "j < k" for j
      proof -
        have "?m (t + 1 + of_nat i) = m (t + 1 + of_nat i)" if "i \<le> j" for i
          using sep(2) [of i] that \<open>j < k\<close> by simp
        then have "strncpy_byte ?m (t + 1) j = strncpy_byte m (t + 1) j"
          unfolding strncpy_byte_def by (metis less_imp_le order_refl)
        then show ?thesis using nz by (simp add: strncpy_byte_Suc)
      qed
      have pos: "0 < sint n" using 1(2) False by (simp add: sint_pos_iff)
      have IH: "strncpy_loop (s + 1) (t + 1) (n - 1) ?m =
          (\<lambda>a. if unat (a - (s + 1)) < k then strncpy_byte ?m (t + 1) (unat (a - (s + 1))) else ?m a)"
        using 1(1) [OF pos nz lt(1)] sep(1) k by (simp add: fun_upd_def)
      have "strncpy_loop s t n m a = (if unat (a - s) < Suc k then strncpy_byte m t (unat (a - s)) else m a)" for a
        using pos nz IH off [of a] offset_next [of a s] sb [of "unat (a - (s + 1))"]
        by (cases "a = s") (auto simp: strncpy_loop.simps [of s t n m] strncpy_byte_def [of m t 0])
      then show ?thesis using k by auto
    qed
  qed
qed

section \<open>Properties\<close>

text \<open>
  C24. \<^verbatim>\<open>strcmp\<close> returns on every two terminated strings; the result is 0 exactly when they are
  equal and negative exactly when the first comes before the second in the lexicographic
  order of unsigned bytes.
\<close>

theorem strcmp_correct:
  assumes "cstr m p xs" "cstr m q ys"
  shows "\<exists>d. strcmp m p q = Some d \<and> (d = 0 \<longleftrightarrow> xs = ys) \<and> (d < 0 \<longleftrightarrow> ord_class.lexordp xs ys)"
  using strcmp_cstr [OF assms] str_diff_0 str_diff_less cstr_nz [OF assms(1)] cstr_nz [OF assms(2)] by blast

text \<open>
  C25. \<^verbatim>\<open>strncpy\<close> with a count \<open>n < 2\<^sup>3\<^sup>1\<close> whose source does not overlap the destination field
  writes the \<open>n\<close> bytes of the field and no other: the source up to its first zero, then
  zeros. A source of \<open>n\<close> or more characters leaves the field without a terminator.
\<close>

theorem strncpy_correct:
  assumes "n < 0x80000000" "\<And>k. k < unat n \<Longrightarrow> unat n \<le> unat (t + of_nat k - s)"
  shows "strncpy s t n m =
     (\<lambda>a. if unat (a - s) < unat n then strncpy_byte m t (unat (a - s)) else m a)"
  unfolding strncpy_def by (rule strncpy_loop_bytes [OF assms])

definition abc_at :: memory where
  "abc_at = (\<lambda>_. 0xFF)(0x100 := 97, 0x101 := 98, 0x102 := 0, 0x200 := 97, 0x201 := 99, 0x202 := 0)"

theorem strcmp_correct_witness:
  "\<exists>d. strcmp abc_at 0x100 0x200 = Some d \<and> d < 0"
  using strcmp_correct [of abc_at "0x100" "[97, 98]" "0x200" "[97, 99]"]
  by (auto simp: abc_at_def)

theorem strncpy_correct_witness:
  "strncpy 0x300 0x100 4 abc_at 0x301 = 98 \<and> strncpy 0x300 0x100 4 abc_at 0x303 = 0 \<and>
   strncpy 0x300 0x100 4 abc_at 0x304 = 0xFF"
proof -
  have "unat (4 :: u32) \<le> unat (0x100 + of_nat k - 0x300 :: u32)" if "k < unat (4 :: u32)" for k
  proof -
    have "k < 4" using that by simp
    then have "k \<in> {0, 1, 2, 3}" by auto
    then show ?thesis by auto
  qed
  then have "strncpy 0x300 0x100 4 abc_at =
      (\<lambda>a. if unat (a - 0x300) < 4 then strncpy_byte abc_at 0x100 (unat (a - 0x300)) else abc_at a)"
    using strncpy_correct [of 4 "0x100" "0x300" abc_at] by simp
  moreover have "strncpy_byte abc_at 0x100 1 = 98" "strncpy_byte abc_at 0x100 3 = 0" "abc_at 0x304 = 0xFF"
    by code_simp+
  ultimately show ?thesis by simp
qed

end
