(* ===== verification/Inode.thy ===== *)
theory Inode
  imports Block CString
begin

text \<open>
  Inodes, \<^verbatim>\<open>kern/fs/inode.c\<close>: the cache of inodes in memory, their allocation on the disk, the
  map from the blocks of a file to the blocks of the disk, and reading and writing of the
  contents.
\<close>

section \<open>The inode cache\<close>

definition NDIRECT :: u32 where "NDIRECT = 12"
definition NINDIRECT :: u32 where "NINDIRECT = 128"
definition MAXFILE :: u32 where "MAXFILE = NDIRECT + NINDIRECT"
definition NINODE :: u32 where "NINODE = 50"
definition NDEV :: int where "NDEV = 10"
definition I_BUSY :: u32 where "I_BUSY = 0x1"
definition I_VALID :: u32 where "I_VALID = 0x2"
definition T_DIR :: u16 where "T_DIR = 1"
definition T_FILE :: u16 where "T_FILE = 2"
definition T_DEV :: u16 where "T_DEV = 3"

text \<open>The reference count and the 16-bit fields are signed integers.\<close>

record inode =
  i_dev :: u32
  i_inum :: u32
  i_ref :: u32
  i_flags :: u32
  i_type :: u16
  i_major :: u16
  i_minor :: u16
  i_nlink :: u16
  i_size :: u32
  i_addrs :: "u32 \<Rightarrow> u32"

text \<open>
  A pointer to an inode is a number: 0 is the null pointer and \<open>i + 1\<close> points to entry \<open>i\<close> of
  the cache. The entries have addresses, which threads sleep on; an entry takes 80 bytes.
\<close>

record ino_state = log_state +
  icache_lock :: spinlock
  inodes :: "u32 \<Rightarrow> inode"
  inodes_addr :: u32

definition ino_get :: "(inode \<Rightarrow> 'a) \<Rightarrow> u32 \<Rightarrow> ('z ino_state_scheme, 'a) kern" where
  "ino_get f ip = kseq (kindex NINODE (ip - 1)) (kgets (\<lambda>s. f (inodes s (ip - 1))))"

definition ino_put :: "(inode \<Rightarrow> inode) \<Rightarrow> u32 \<Rightarrow> ('z ino_state_scheme, unit) kern" where
  "ino_put f ip =
     kseq (kindex NINODE (ip - 1)) (kmodify (\<lambda>s. s\<lparr>inodes := (inodes s)(ip - 1 := f (inodes s (ip - 1)))\<rparr>))"

definition ino_addr :: "u32 \<Rightarrow> ('z ino_state_scheme, u32) kern" where
  "ino_addr ip = kgets (\<lambda>s. inodes_addr s + (ip - 1) * 80)"

definition icache_acquire :: "('z ino_state_scheme, unit) kern" where
  "icache_acquire = klock_op spinlock_acquire icache_lock (\<lambda>l s. s\<lparr>icache_lock := l\<rparr>)"

definition icache_release :: "('z ino_state_scheme, unit) kern" where
  "icache_release = klock_op spinlock_release icache_lock (\<lambda>l s. s\<lparr>icache_lock := l\<rparr>)"

definition inode_init :: "('z ino_state_scheme, unit) kern" where
  "inode_init = kmodify (\<lambda>s. s\<lparr>icache_lock := spinlock_init (icache_lock s)\<rparr>)"

text \<open>The search of \<^verbatim>\<open>inode_get\<close>: the entry of the inode, or 0, and the first empty entry, or 0.\<close>

primrec inode_find :: "nat \<Rightarrow> u32 \<Rightarrow> u32 \<Rightarrow> u32 \<Rightarrow> u32 \<Rightarrow> ('z ino_state_scheme, u32 \<times> u32) kern" where
  "inode_find 0 ip dev inum em = kret (0, em)"
| "inode_find (Suc k) ip dev inum em =
     kbind (ino_get (\<lambda>x. x) ip) (\<lambda>x.
       if 0 < sint (i_ref x) \<and> i_dev x = dev \<and> i_inum x = inum then kret (ip, em)
       else inode_find k (ip + 1) dev inum (if em = 0 \<and> i_ref x = 0 then ip else em))"

definition inode_get :: "u32 \<Rightarrow> u32 \<Rightarrow> ('z ino_state_scheme, u32) kern" where
  "inode_get dev inum =
     kseq icache_acquire
    (kbind (inode_find (unat NINODE) 1 dev inum 0) (\<lambda>(ip, em).
       if ip \<noteq> 0 then
         kseq (ino_put (\<lambda>x. x\<lparr>i_ref := i_ref x + 1\<rparr>) ip)
        (kseq icache_release (kret ip))
       else
         kseq (kguard (em \<noteq> 0) (KERN_PANIC ''inode_get: no inodes''))
        (kseq (ino_put (\<lambda>x. x\<lparr>i_dev := dev\<rparr>) em)
        (kseq (ino_put (\<lambda>x. x\<lparr>i_inum := inum\<rparr>) em)
        (kseq (ino_put (\<lambda>x. x\<lparr>i_ref := 1\<rparr>) em)
        (kseq (ino_put (\<lambda>x. x\<lparr>i_flags := 0\<rparr>) em)
        (kseq icache_release (kret em))))))))"

definition inode_dup :: "u32 \<Rightarrow> ('z ino_state_scheme, u32) kern" where
  "inode_dup ip =
     kseq icache_acquire
    (kseq (ino_put (\<lambda>x. x\<lparr>i_ref := i_ref x + 1\<rparr>) ip)
    (kseq icache_release (kret ip)))"

section \<open>Inodes on the disk\<close>

text \<open>
  Inode \<open>inum\<close> is the structure of 64 bytes number \<open>inum % IPB\<close> of its block: the four 16-bit
  fields, the size at offset 8 and the thirteen block numbers from offset 12.
\<close>

definition load16 :: "memory \<Rightarrow> u32 \<Rightarrow> u16" where
  "load16 m a = ucast (m a) OR push_bit 8 (ucast (m (a + 1)))"

definition store16 :: "memory \<Rightarrow> u32 \<Rightarrow> u16 \<Rightarrow> memory" where
  "store16 m a v = m(a := ucast v, a + 1 := ucast (drop_bit 8 v))"

definition dip_at :: "u32 \<Rightarrow> u32" where
  "dip_at inum = (inum mod IPB) * 64"

function inode_alloc_loop :: "u32 \<Rightarrow> u16 \<Rightarrow> u32 \<Rightarrow> u32 \<Rightarrow> ('z ino_state_scheme, u32) kern" where
  "inode_alloc_loop dev ty n inum =
     (if inum < n then
        kbind (bufcache_read dev (IBLOCK inum)) (\<lambda>bp.
        kbind (buf_get b_data bp) (\<lambda>m.
          if load16 m (dip_at inum) = 0 then
            kseq (buf_put (\<lambda>x. x\<lparr>b_data := memset (dip_at inum) 0 64 (b_data x)\<rparr>) bp)
           (kseq (buf_put (\<lambda>x. x\<lparr>b_data := store16 (b_data x) (dip_at inum) ty\<rparr>) bp)
           (kseq (log_write bp)
           (kseq (bufcache_release bp) (inode_get dev inum))))
          else
            kseq (bufcache_release bp)
              (if inum < 0x7fffffff then inode_alloc_loop dev ty n (inum + 1) else kfail IntOverflow)))
      else kfail (KERN_PANIC ''inode_alloc: no inodes''))"
  by pat_completeness auto
termination
  by (relation "measure (\<lambda>(dev, ty, n, i). unat n - unat i)") (auto simp: unat_Suc_less word_less_nat_alt)

declare inode_alloc_loop.simps [simp del]

definition inode_alloc :: "u32 \<Rightarrow> u16 \<Rightarrow> ('z ino_state_scheme, u32) kern" where
  "inode_alloc dev ty = kbind (read_superblock dev) (\<lambda>sb. inode_alloc_loop dev ty (sb_ninodes sb) 1)"

text \<open>A copy of \<open>k\<close> bytes between two arrays.\<close>

definition copy_from :: "memory \<Rightarrow> u32 \<Rightarrow> memory \<Rightarrow> u32 \<Rightarrow> u32 \<Rightarrow> memory" where
  "copy_from m d m' a k = (\<lambda>x. if x - d < k then m' (a + (x - d)) else m x)"

text \<open>The bytes of the array \<^verbatim>\<open>addrs\<close> in memory.\<close>

definition addrs_bytes :: "(u32 \<Rightarrow> u32) \<Rightarrow> memory" where
  "addrs_bytes f x = ucast (drop_bit (8 * unat (x mod 4)) (f (x div 4)))"

definition inode_update :: "u32 \<Rightarrow> ('z ino_state_scheme, unit) kern" where
  "inode_update ip =
     kbind (ino_get (\<lambda>x. x) ip) (\<lambda>x.
     let dip = dip_at (i_inum x) in
     kbind (bufcache_read (i_dev x) (IBLOCK (i_inum x))) (\<lambda>bp.
     kseq (buf_put (\<lambda>b. b\<lparr>b_data := store16 (b_data b) dip (i_type x)\<rparr>) bp)
    (kseq (buf_put (\<lambda>b. b\<lparr>b_data := store16 (b_data b) (dip + 2) (i_major x)\<rparr>) bp)
    (kseq (buf_put (\<lambda>b. b\<lparr>b_data := store16 (b_data b) (dip + 4) (i_minor x)\<rparr>) bp)
    (kseq (buf_put (\<lambda>b. b\<lparr>b_data := store16 (b_data b) (dip + 6) (i_nlink x)\<rparr>) bp)
    (kseq (buf_put (\<lambda>b. b\<lparr>b_data := store32 (b_data b) (dip + 8) (i_size x)\<rparr>) bp)
    (kseq (buf_put (\<lambda>b. b\<lparr>b_data := copy_from (b_data b) (dip + 12) (addrs_bytes (i_addrs x)) 0 52\<rparr>) bp)
    (kseq (log_write bp) (bufcache_release bp)))))))))"

text \<open>
  A locked inode is waited for with \<^verbatim>\<open>thread_sleep\<close>: the run of this thread stops there until
  another thread unlocks the inode.
\<close>

definition inode_load :: "u32 \<Rightarrow> ('z ino_state_scheme, unit) kern" where
  "inode_load ip =
     kbind (ino_get (\<lambda>x. x) ip) (\<lambda>x.
     let dip = dip_at (i_inum x) in
     kbind (bufcache_read (i_dev x) (IBLOCK (i_inum x))) (\<lambda>bp.
     kbind (buf_get b_data bp) (\<lambda>m.
     kseq (ino_put (\<lambda>x. x\<lparr>i_type := load16 m dip\<rparr>) ip)
    (kseq (ino_put (\<lambda>x. x\<lparr>i_major := load16 m (dip + 2)\<rparr>) ip)
    (kseq (ino_put (\<lambda>x. x\<lparr>i_minor := load16 m (dip + 4)\<rparr>) ip)
    (kseq (ino_put (\<lambda>x. x\<lparr>i_nlink := load16 m (dip + 6)\<rparr>) ip)
    (kseq (ino_put (\<lambda>x. x\<lparr>i_size := load32 m (dip + 8)\<rparr>) ip)
    (kseq (ino_put (\<lambda>x. x\<lparr>i_addrs := (\<lambda>j. if j < NDIRECT + 1 then load32 m (dip + 12 + 4 * j) else i_addrs x j)\<rparr>) ip)
    (kseq (bufcache_release bp)
    (kseq (ino_put (\<lambda>x. x\<lparr>i_flags := i_flags x OR I_VALID\<rparr>) ip)
    (kbind (ino_get i_type ip) (\<lambda>ty. kguard (ty \<noteq> 0) (KERN_PANIC ''inode_lock: no type'')))))))))))))"

definition inode_lock :: "u32 \<Rightarrow> ('z ino_state_scheme, unit) kern" where
  "inode_lock ip =
     (if ip = 0 then kfail (KERN_PANIC ''inode_lock'')
      else
        kbind (ino_get i_ref ip) (\<lambda>r.
        kseq (kguard (\<not> sint r < 1) (KERN_PANIC ''inode_lock''))
       (kseq icache_acquire
       (kbind (ino_get i_flags ip) (\<lambda>fl.
        kseq (if fl AND I_BUSY \<noteq> 0 then kbind (ino_addr ip) (\<lambda>chan. kfail (Sleep chan)) else kret ())
       (kseq (ino_put (\<lambda>x. x\<lparr>i_flags := i_flags x OR I_BUSY\<rparr>) ip)
       (kseq icache_release
       (kbind (ino_get i_flags ip) (\<lambda>fl.
          if fl AND I_VALID = 0 then inode_load ip else kret ())))))))))"

definition inode_unlock :: "u32 \<Rightarrow> ('z ino_state_scheme, unit) kern" where
  "inode_unlock ip =
     (if ip = 0 then kfail (KERN_PANIC ''inode_unlock'')
      else
        kbind (ino_get (\<lambda>x. x) ip) (\<lambda>x.
        kseq (kguard (\<not> (i_flags x AND I_BUSY = 0 \<or> sint (i_ref x) < 1)) (KERN_PANIC ''inode_unlock''))
       (kseq icache_acquire
       (kseq (ino_put (\<lambda>x. x\<lparr>i_flags := i_flags x AND NOT I_BUSY\<rparr>) ip)
       (kseq (kbind (ino_addr ip) thread_wakeup) icache_release)))))"

section \<open>Contents\<close>

definition addrs_get :: "u32 \<Rightarrow> u32 \<Rightarrow> ('z ino_state_scheme, u32) kern" where
  "addrs_get ip j = kseq (kindex (NDIRECT + 1) j) (ino_get (\<lambda>x. i_addrs x j) ip)"

definition addrs_put :: "u32 \<Rightarrow> u32 \<Rightarrow> u32 \<Rightarrow> ('z ino_state_scheme, unit) kern" where
  "addrs_put ip j v = kseq (kindex (NDIRECT + 1) j) (ino_put (\<lambda>x. x\<lparr>i_addrs := (i_addrs x)(j := v)\<rparr>) ip)"

text \<open>\<^verbatim>\<open>if ((addr = ip->addrs[j]) == 0) ip->addrs[j] = addr = block_alloc(ip->dev)\<close>\<close>

definition addrs_alloc :: "u32 \<Rightarrow> u32 \<Rightarrow> ('z ino_state_scheme, u32) kern" where
  "addrs_alloc ip j =
     kbind (addrs_get ip j) (\<lambda>addr.
       if addr = 0 then
         kbind (ino_get i_dev ip) (\<lambda>d.
         kbind (block_alloc d) (\<lambda>addr. kseq (addrs_put ip j addr) (kret addr)))
       else kret addr)"

definition bmap :: "u32 \<Rightarrow> u32 \<Rightarrow> ('z ino_state_scheme, u32) kern" where
  "bmap ip bn =
     (if bn < NDIRECT then addrs_alloc ip bn
      else
        let bn = bn - NDIRECT in
        if bn < NINDIRECT then
          kbind (addrs_alloc ip NDIRECT) (\<lambda>addr.
          kbind (ino_get i_dev ip) (\<lambda>d.
          kbind (bufcache_read d addr) (\<lambda>bp.
          kbind (buf_get b_data bp) (\<lambda>m.
          kbind (if load32 m (4 * bn) = 0 then
                   kbind (block_alloc d) (\<lambda>addr.
                   kseq (buf_put (\<lambda>x. x\<lparr>b_data := store32 (b_data x) (4 * bn) addr\<rparr>) bp)
                  (kseq (log_write bp) (kret addr)))
                 else kret (load32 m (4 * bn))) (\<lambda>addr.
          kseq (bufcache_release bp) (kret addr))))))
        else kfail (KERN_PANIC ''bmap: out of range''))"

definition inode_trunc :: "u32 \<Rightarrow> ('z ino_state_scheme, unit) kern" where
  "inode_trunc ip =
     kseq (kfor 0 NDIRECT (\<lambda>i.
       kbind (addrs_get ip i) (\<lambda>a.
         if a \<noteq> 0 then
           kbind (ino_get i_dev ip) (\<lambda>d.
           kseq (block_free d a) (addrs_put ip i 0))
         else kret ())))
    (kseq (kbind (addrs_get ip NDIRECT) (\<lambda>a.
       if a \<noteq> 0 then
         kbind (ino_get i_dev ip) (\<lambda>d.
         kbind (bufcache_read d a) (\<lambda>bp.
         kseq (kfor 0 NINDIRECT (\<lambda>j.
           kbind (buf_get b_data bp) (\<lambda>m.
             if load32 m (4 * j) \<noteq> 0 then block_free d (load32 m (4 * j)) else kret ())))
        (kseq (bufcache_release bp)
        (kseq (block_free d a) (addrs_put ip NDIRECT 0)))))
       else kret ()))
    (kseq (ino_put (\<lambda>x. x\<lparr>i_size := 0\<rparr>) ip) (inode_update ip)))"

text \<open>The part of \<^verbatim>\<open>inode_put\<close> that frees an inode without links when its last reference goes.\<close>

definition inode_drop :: "u32 \<Rightarrow> inode \<Rightarrow> ('z ino_state_scheme, unit) kern" where
  "inode_drop ip x =
     (if i_ref x = 1 \<and> i_flags x AND I_VALID \<noteq> 0 \<and> i_nlink x = 0 then
        kseq (kguard (i_flags x AND I_BUSY = 0) (KERN_PANIC ''inode_put busy''))
       (kseq (ino_put (\<lambda>x. x\<lparr>i_flags := i_flags x OR I_BUSY\<rparr>) ip)
       (kseq icache_release
       (kseq (inode_trunc ip)
       (kseq (ino_put (\<lambda>x. x\<lparr>i_type := 0\<rparr>) ip)
       (kseq (inode_update ip)
       (kseq icache_acquire
       (kseq (ino_put (\<lambda>x. x\<lparr>i_flags := 0\<rparr>) ip)
       (kbind (ino_addr ip) thread_wakeup))))))))
      else kret ())"

definition inode_put :: "u32 \<Rightarrow> ('z ino_state_scheme, unit) kern" where
  "inode_put ip =
     kseq icache_acquire
    (kbind (ino_get (\<lambda>x. x) ip) (\<lambda>x.
     kseq (inode_drop ip x)
    (kseq (ino_put (\<lambda>x. x\<lparr>i_ref := i_ref x - 1\<rparr>) ip) icache_release)))"

definition inode_unlockput :: "u32 \<Rightarrow> ('z ino_state_scheme, unit) kern" where
  "inode_unlockput ip = kseq (inode_unlock ip) (inode_put ip)"

text \<open>\<^verbatim>\<open>struct file_stat\<close> at the address \<open>st\<close>.\<close>

definition inode_stat :: "u32 \<Rightarrow> u32 \<Rightarrow> ('z ino_state_scheme, unit) kern" where
  "inode_stat ip st =
     kbind (ino_get (\<lambda>x. x) ip) (\<lambda>x.
     kseq (kmodify (\<lambda>s. s\<lparr>mem := store32 (mem s) (st + 4) (i_dev x)\<rparr>))
    (kseq (kmodify (\<lambda>s. s\<lparr>mem := store32 (mem s) (st + 8) (i_inum x)\<rparr>))
    (kseq (kmodify (\<lambda>s. s\<lparr>mem := store16 (mem s) st (i_type x)\<rparr>))
    (kseq (kmodify (\<lambda>s. s\<lparr>mem := store16 (mem s) (st + 12) (i_nlink x)\<rparr>))
    (kmodify (\<lambda>s. s\<lparr>mem := store32 (mem s) (st + 16) (i_size x)\<rparr>))))))"

text \<open>
  The table of devices, whose routines take the inode, an address and a count. It is an
  argument of the operations: nothing in the kernel sets it.
\<close>

record 's devsw =
  dev_read :: "(u32 \<Rightarrow> u32 \<Rightarrow> u32 \<Rightarrow> ('s, u32) kern) option"
  dev_write :: "(u32 \<Rightarrow> u32 \<Rightarrow> u32 \<Rightarrow> ('s, u32) kern) option"

definition io_chunk :: "u32 \<Rightarrow> u32 \<Rightarrow> u32" where
  "io_chunk left off = min_u32 left (BSIZE - off mod BSIZE)"

lemma io_chunk_bounds:
  assumes "left \<noteq> 0"
  shows "0 < unat (io_chunk left off)" "unat (io_chunk left off) \<le> unat left"
    "unat (io_chunk left off) \<le> 512 - unat off mod 512"
proof -
  have m: "unat (off mod BSIZE) = unat off mod 512" by (simp add: BSIZE_def unat_mod)
  then have s: "unat (BSIZE - off mod BSIZE) = 512 - unat off mod 512"
    by (subst unat_sub_exact) (simp_all add: BSIZE_def word_le_nat_alt)
  have "0 < unat left" using assms by (simp add: unat_gt_0)
  then show "0 < unat (io_chunk left off)" "unat (io_chunk left off) \<le> unat left"
    "unat (io_chunk left off) \<le> 512 - unat off mod 512"
    by (auto simp: io_chunk_def min_u32_def s word_less_nat_alt)
qed

lemma io_chunk_less: "tot < n \<Longrightarrow> unat n - unat (tot + io_chunk (n - tot) off) < unat n - unat tot"
proof -
  assume t: "tot < n"
  then have "n - tot \<noteq> 0" "unat (n - tot) = unat n - unat tot" by (simp_all add: unat_sub_exact order_less_imp_le)
  moreover from this(1) have "unat (tot + io_chunk (n - tot) off) = unat tot + unat (io_chunk (n - tot) off)"
    using io_chunk_bounds(2) [of "n - tot" off] t unat_lt2p [of n] calculation(2)
    by (intro unat_add_exact) (simp add: word_less_nat_alt)
  ultimately show ?thesis using io_chunk_bounds(1) [of "n - tot" off] t by (simp add: word_less_nat_alt)
qed

function inode_read_loop :: "u32 \<Rightarrow> u32 \<Rightarrow> u32 \<Rightarrow> u32 \<Rightarrow> u32 \<Rightarrow> ('z ino_state_scheme, unit) kern" where
  "inode_read_loop ip n dst off tot =
     (if tot < n then
        let m = io_chunk (n - tot) off in
        kbind (ino_get i_dev ip) (\<lambda>d.
        kbind (bmap ip (off div BSIZE)) (\<lambda>bn.
        kbind (bufcache_read d bn) (\<lambda>bp.
        kbind (buf_get b_data bp) (\<lambda>data.
        kseq (kmodify (\<lambda>s. s\<lparr>mem := copy_from (mem s) dst data (off mod BSIZE) m\<rparr>))
       (kseq (bufcache_release bp) (inode_read_loop ip n (dst + m) (off + m) (tot + m)))))))
      else kret ())"
  by pat_completeness auto
termination
  by (relation "measure (\<lambda>(ip, n, dst, off, tot). unat n - unat tot)") (auto simp: io_chunk_less)

function inode_write_loop :: "u32 \<Rightarrow> u32 \<Rightarrow> u32 \<Rightarrow> u32 \<Rightarrow> u32 \<Rightarrow> ('z ino_state_scheme, u32) kern" where
  "inode_write_loop ip n src off tot =
     (if tot < n then
        let m = io_chunk (n - tot) off in
        kbind (ino_get i_dev ip) (\<lambda>d.
        kbind (bmap ip (off div BSIZE)) (\<lambda>bn.
        kbind (bufcache_read d bn) (\<lambda>bp.
        kbind (kgets mem) (\<lambda>data.
        kseq (buf_put (\<lambda>x. x\<lparr>b_data := copy_from (b_data x) (off mod BSIZE) data src m\<rparr>) bp)
       (kseq (log_write bp)
       (kseq (bufcache_release bp) (inode_write_loop ip n (src + m) (off + m) (tot + m))))))))
      else kret off)"
  by pat_completeness auto
termination
  by (relation "measure (\<lambda>(ip, n, src, off, tot). unat n - unat tot)") (auto simp: io_chunk_less)

declare inode_read_loop.simps [simp del] inode_write_loop.simps [simp del]

definition dev_call ::
    "(u32 \<Rightarrow> (u32 \<Rightarrow> u32 \<Rightarrow> u32 \<Rightarrow> ('s, u32) kern) option) \<Rightarrow> u16 \<Rightarrow> u32 \<Rightarrow> u32 \<Rightarrow> u32 \<Rightarrow> ('s, u32) kern" where
  "dev_call f major ip buf n =
     (if sint major < 0 \<or> sint major \<ge> NDEV then kret (- 1)
      else case f (ucast major) of None \<Rightarrow> kret (- 1) | Some g \<Rightarrow> g ip buf n)"

definition inode_read ::
    "(u32 \<Rightarrow> 'z ino_state_scheme devsw) \<Rightarrow> u32 \<Rightarrow> u32 \<Rightarrow> u32 \<Rightarrow> u32 \<Rightarrow> ('z ino_state_scheme, u32) kern" where
  "inode_read devsw ip dst off n =
     kbind (ino_get (\<lambda>x. x) ip) (\<lambda>x.
       if i_type x = T_DEV then dev_call (\<lambda>j. dev_read (devsw j)) (i_major x) ip dst n
       else if off > i_size x \<or> off + n < off then kret (- 1)
       else
         let n = (if off + n > i_size x then i_size x - off else n) in
         kseq (inode_read_loop ip n dst off 0) (kret n))"

definition inode_write ::
    "(u32 \<Rightarrow> 'z ino_state_scheme devsw) \<Rightarrow> u32 \<Rightarrow> u32 \<Rightarrow> u32 \<Rightarrow> u32 \<Rightarrow> ('z ino_state_scheme, u32) kern" where
  "inode_write devsw ip src off n =
     kbind (ino_get (\<lambda>x. x) ip) (\<lambda>x.
       if i_type x = T_DEV then dev_call (\<lambda>j. dev_write (devsw j)) (i_major x) ip src n
       else if off > i_size x \<or> off + n < off then kret (- 1)
       else if off + n > MAXFILE * BSIZE then kret (- 1)
       else
         kbind (inode_write_loop ip n src off 0) (\<lambda>off.
         kbind (ino_get i_size ip) (\<lambda>sz.
         kseq (if n > 0 \<and> off > sz then
             kseq (ino_put (\<lambda>x. x\<lparr>i_size := off\<rparr>) ip) (inode_update ip)
           else kret ()) (kret n))))"

end
