(* ===== verification/PathName.thy ===== *)
theory PathName
  imports CString
begin

text \<open>
  The elements of a path name: \<^verbatim>\<open>skipelem\<close> of \<^verbatim>\<open>kern/fs/path.c\<close>, on strings in memory. Main
  result: the calls of \<^verbatim>\<open>skipelem\<close> along a path give its elements, each cut to thirteen
  characters, and end.
\<close>

section \<open>The operations\<close>

definition DIRSIZ :: u32 where "DIRSIZ = 14"

partial_function (option) skip_slashes :: "memory \<Rightarrow> u32 \<Rightarrow> u32 option" where
  "skip_slashes m p = (if m p = 47 then skip_slashes m (p + 1) else Some p)"

partial_function (option) elem_end :: "memory \<Rightarrow> u32 \<Rightarrow> u32 option" where
  "elem_end m p = (if m p \<noteq> 47 \<and> m p \<noteq> 0 then elem_end m (p + 1) else Some p)"

text \<open>The rest of the path, 0 when there is no element, and the memory with the element in \<open>name\<close>.\<close>

definition skipelem :: "u32 \<Rightarrow> u32 \<Rightarrow> memory \<Rightarrow> (u32 \<times> memory) option" where
  "skipelem path name m =
     (if path = 0 \<or> m path = 0 then Some (0, m)
      else case skip_slashes m path of None \<Rightarrow> None | Some start \<Rightarrow>
        if m start = 0 then Some (0, m)
        else case elem_end m start of None \<Rightarrow> None | Some en \<Rightarrow>
          let len = (if sint (en - start) \<ge> sint DIRSIZ then DIRSIZ - 1 else en - start);
              m = (strncpy name start len m)(name + len := 0) in
          case skip_slashes m en of None \<Rightarrow> None | Some rest \<Rightarrow> Some (rest, m))"

text \<open>
  The names that a walk along a path takes off it, one call of \<^verbatim>\<open>skipelem\<close> after the other,
  as the loop of \<^verbatim>\<open>namex\<close> makes them.
\<close>

definition name_bytes :: "memory \<Rightarrow> u32 \<Rightarrow> u8 list" where
  "name_bytes m p = takeWhile (\<lambda>c. c \<noteq> 0) (map (\<lambda>i. m (p + of_nat i)) [0 ..< 14])"

primrec walk_names :: "nat \<Rightarrow> u32 \<Rightarrow> u32 \<Rightarrow> memory \<Rightarrow> u8 list list option" where
  "walk_names 0 path name m = None"
| "walk_names (Suc k) path name m =
     (case skipelem path name m of None \<Rightarrow> None | Some (rest, m') \<Rightarrow>
        if rest = 0 then Some []
        else map_option (\<lambda>ns. name_bytes m' name # ns) (walk_names k rest name m'))"

section \<open>Elements of a path\<close>

definition strip :: "u8 list \<Rightarrow> u8 list" where
  "strip xs = dropWhile (\<lambda>c. c = 47) xs"

definition elem1 :: "u8 list \<Rightarrow> u8 list" where
  "elem1 xs = takeWhile (\<lambda>c. c \<noteq> 47) (strip xs)"

definition beyond :: "u8 list \<Rightarrow> u8 list" where
  "beyond xs = strip (dropWhile (\<lambda>c. c \<noteq> 47) (strip xs))"

lemma cstr_drop: "cstr m p xs \<Longrightarrow> k \<le> length xs \<Longrightarrow> cstr m (p + of_nat k) (drop k xs)"
proof (induction xs arbitrary: p k)
  case (Cons c xs)
  then show ?case by (cases k) (auto simp: add.assoc [symmetric])
qed simp

lemma cstr_dropWhile: "cstr m p xs \<Longrightarrow> cstr m (p + of_nat (length (takeWhile P xs))) (dropWhile P xs)"
  using cstr_drop [of m p xs "length (takeWhile P xs)"] by (simp add: dropWhile_eq_drop length_takeWhile_le)

lemma skip_slashes_cstr:
  "cstr m p xs \<Longrightarrow> skip_slashes m p = Some (p + of_nat (length (takeWhile (\<lambda>c. c = 47) xs)))"
proof (induction xs arbitrary: p)
  case (Cons c xs)
  then show ?case using Cons.IH [of "p + 1"] by (auto simp: skip_slashes.simps [of m p] add.assoc)
qed (simp add: skip_slashes.simps)

lemma elem_end_cstr:
  "cstr m p xs \<Longrightarrow> elem_end m p = Some (p + of_nat (length (takeWhile (\<lambda>c. c \<noteq> 47) xs)))"
proof (induction xs arbitrary: p)
  case (Cons c xs)
  then show ?case using Cons.IH [of "p + 1"] by (auto simp: elem_end.simps [of m p] add.assoc)
qed (simp add: elem_end.simps)

lemma cstr_cong: "cstr m p xs \<Longrightarrow> (\<And>j. j \<le> length xs \<Longrightarrow> m' (p + of_nat j) = m (p + of_nat j)) \<Longrightarrow> cstr m' p xs"
  using cstr_nth cstr_end cstr_nz by (intro cstrI) auto

lemma strip_hd: "strip xs = c # ys \<Longrightarrow> c \<noteq> 47"
  using hd_dropWhile [of "\<lambda>c. c = 47" xs] by (auto simp: strip_def)

lemma elem1_Nil: "elem1 xs = [] \<longleftrightarrow> strip xs = []"
  by (cases "strip xs") (auto simp: elem1_def dest: strip_hd)

lemma length_split:
  "length xs = length (takeWhile (\<lambda>c. c = 47) xs) + length (elem1 xs) +
     length (takeWhile (\<lambda>c. c = 47) (dropWhile (\<lambda>c. c \<noteq> 47) (strip xs))) + length (beyond xs)"
proof -
  have "length zs = length (takeWhile P zs) + length (dropWhile P zs)" for P :: "u8 \<Rightarrow> bool" and zs
    by (metis length_append takeWhile_dropWhile_id)
  from this [of xs "\<lambda>c. c = 47"] this [of "strip xs" "\<lambda>c. c \<noteq> 47"] this [of "dropWhile (\<lambda>c. c \<noteq> 47) (strip xs)" "\<lambda>c. c = 47"]
  show ?thesis by (simp add: elem1_def beyond_def strip_def)
qed

lemma beyond_less: "elem1 xs \<noteq> [] \<Longrightarrow> length (beyond xs) < length xs"
  using length_split [of xs] by (cases "elem1 xs") simp_all

lemma sint_of_nat: "n < 2 ^ 31 \<Longrightarrow> sint (of_nat n :: u32) = int n"
proof -
  assume n: "n < 2 ^ 31"
  then have u: "unat (of_nat n :: u32) = n" by (subst unat_of_nat) simp
  then have "(of_nat n :: u32) < 0x80000000" using n by (simp add: word_less_nat_alt)
  moreover have "uint (of_nat n :: u32) = int n" using arg_cong [OF u, of int] unfolding of_nat_unat .
  ultimately show ?thesis by (simp add: sint_nonneg)
qed

text \<open>The copy of an element of at most thirteen characters.\<close>

lemma copy_name:
  assumes c: "cstr m q xs" and k: "k \<le> length xs" "k < 14" and sep: "\<And>j. j \<le> length xs \<Longrightarrow> 14 \<le> unat (q + of_nat j - name)"
  defines "m' \<equiv> (strncpy name q (of_nat k) m)(name + of_nat k := 0)"
  shows "cstr m' name (take k xs)" "14 \<le> unat (a - name) \<Longrightarrow> m' a = m a"
proof -
  have uk: "unat (of_nat k :: u32) = k" using k(2) by (subst unat_of_nat) simp
  have "(of_nat k :: u32) < 0x80000000" using k(2) by (simp add: word_less_nat_alt uk)
  moreover have "unat (of_nat k :: u32) \<le> unat (q + of_nat j - name)" if "j < unat (of_nat k :: u32)" for j
    using sep [of j] that k uk by simp
  ultimately have e: "strncpy name q (of_nat k) m = (\<lambda>a. if unat (a - name) < k then strncpy_byte m q (unat (a - name)) else m a)"
    using strncpy_loop_bytes [of "of_nat k" q name m] unfolding strncpy_def uk by blast
  have at: "unat (name + of_nat i - name) = i" if "i < 14" for i using that by (simp add: unat_of_nat)
  have "m' (name + of_nat i) = xs ! i" if i: "i < k" for i
  proof -
    have "m (q + of_nat j) \<noteq> 0" if "j < k" for j
      using cstr_nth [OF c, of j] cstr_nz [OF c] k(1) that nth_mem [of j xs] by (metis order_less_le_trans)
    then have "strncpy_byte m q i = xs ! i" using cstr_nth [OF c, of i] i k(1) by (auto simp: strncpy_byte_def)
    moreover have "name + of_nat i \<noteq> name + of_nat k" using at [of i] at [of k] i k(2) by auto
    ultimately show ?thesis using at [of i] i k(2) by (simp add: m'_def e)
  qed
  moreover have "0 \<notin> set (take k xs)" using cstr_nz [OF c] set_take_subset by fastforce
  ultimately show "cstr m' name (take k xs)" using k(1) by (intro cstrI) (simp_all add: m'_def)
  show "m' a = m a" if "14 \<le> unat (a - name)"
  proof -
    have "a \<noteq> name + of_nat k" using that at [OF k(2)] k(2) by auto
    then show ?thesis using that k(2) by (simp add: m'_def e)
  qed
qed

lemma skipelem_eq:
  assumes "p \<noteq> 0" "m p \<noteq> 0" "skip_slashes m p = Some st" "m st \<noteq> 0" "elem_end m st = Some en"
    and "(if sint (en - st) \<ge> sint DIRSIZ then DIRSIZ - 1 else en - st) = len"
    and "skip_slashes ((strncpy name st len m)(name + len := 0)) en = Some rest"
  shows "skipelem p name m = Some (rest, (strncpy name st len m)(name + len := 0))"
  unfolding skipelem_def assms(3) option.case assms(5,6) Let_def assms(7) using assms(1,2,4) by simp

lemma skipelem_cstr:
  assumes c: "cstr m p xs" "p \<noteq> 0" "length xs < 2 ^ 31" and sep: "\<And>j. j \<le> length xs \<Longrightarrow> 14 \<le> unat (p + of_nat j - name)"
  defines "rest \<equiv> p + of_nat (length xs - length (beyond xs))"
  shows "elem1 xs = [] \<Longrightarrow> skipelem p name m = Some (0, m)"
    "elem1 xs \<noteq> [] \<Longrightarrow> \<exists>m'. skipelem p name m = Some (rest, m') \<and> cstr m' rest (beyond xs) \<and>
       cstr m' name (take 13 (elem1 xs)) \<and> (\<forall>a. 14 \<le> unat (a - name) \<longrightarrow> m' a = m a)"
proof -
  let ?a = "length (takeWhile (\<lambda>c. c = 47) xs)" and ?e = "elem1 xs"
  let ?zs = "dropWhile (\<lambda>c. c \<noteq> 47) (strip xs)" and ?start = "p + of_nat (length (takeWhile (\<lambda>c. c = 47) xs)) :: u32"
  let ?en = "?start + of_nat (length ?e)"
  have start: "skip_slashes m p = Some ?start" "cstr m ?start (strip xs)"
    using skip_slashes_cstr [OF c(1)] cstr_dropWhile [OF c(1)] by (simp_all add: strip_def)
  have first: "m p = 0 \<longleftrightarrow> xs = []" using c(1) by (cases xs) auto
  show "elem1 xs = [] \<Longrightarrow> skipelem p name m = Some (0, m)"
    using start by (auto simp: skipelem_def elem1_Nil)
  assume ne: "elem1 xs \<noteq> []"
  then obtain d ys where st: "strip xs = d # ys" unfolding elem1_Nil by (cases "strip xs") auto
  have nz: "m ?start \<noteq> 0" using start(2) unfolding st by simp
  have xs: "xs \<noteq> []" using st by (auto simp: strip_def)
  have en: "elem_end m ?start = Some ?en" "cstr m ?en ?zs"
    using elem_end_cstr [OF start(2)] cstr_dropWhile [OF start(2)] by (simp_all add: elem1_def)
  have le: "length ?e \<le> length (strip xs)" by (simp add: elem1_def length_takeWhile_le)
  have lx: "length xs = ?a + length (strip xs)"
    unfolding strip_def by (metis length_append takeWhile_dropWhile_id)
  have sep2: "14 \<le> unat (?start + of_nat j - name)" if "j \<le> length (strip xs)" for j
    using sep [of "?a + j"] that lx by (simp add: add.assoc)
  define k where "k = min 13 (length ?e)"
  have k: "k \<le> length (strip xs)" "k < 14" using le by (simp_all add: k_def)
  define m' where "m' = (strncpy name ?start (of_nat k) m)(name + of_nat k := 0)"
  note cp = copy_name [OF start(2) k sep2, folded m'_def]
  have et: "take (length ?e) (strip xs) = ?e" unfolding elem1_def by (rule takeWhile_eq_take [symmetric])
  have tk: "take k (strip xs) = take 13 ?e" by (subst et [symmetric]) (simp add: k_def)
  have le2: "length ?e < 2 ^ 31" using c(3) lx le by simp
  have len: "(if sint (?en - ?start) \<ge> sint DIRSIZ then DIRSIZ - 1 else ?en - ?start) = of_nat k"
  proof -
    have "sint (of_nat (length ?e) :: u32) = int (length ?e)" using le2 by (intro sint_of_nat) simp
    then show ?thesis by (cases "length ?e = 13") (auto simp: DIRSIZ_def k_def min_def)
  qed
  have lz: "length (strip xs) = length ?e + length ?zs"
    unfolding elem1_def by (metis length_append takeWhile_dropWhile_id)
  have "cstr m' ?en ?zs"
  proof (rule cstr_cong [OF en(2)])
    fix j assume "j \<le> length ?zs"
    then show "m' (?en + of_nat j) = m (?en + of_nat j)"
      using cp(2) [of "?en + of_nat j"] sep2 [of "length ?e + j"] lz by (simp add: add.assoc)
  qed
  then have rs: "skip_slashes m' ?en = Some rest" "cstr m' rest (beyond xs)"
    using skip_slashes_cstr [of m' ?en ?zs] cstr_dropWhile [of m' ?en ?zs "\<lambda>c. c = 47"] length_split [of xs]
    by (simp_all add: rest_def beyond_def strip_def [of ?zs] add.assoc)
  have "skipelem p name m = Some (rest, m')"
    unfolding m'_def by (rule skipelem_eq [OF c(2) _ start(1) nz en(1) len]) (use first xs rs(1) m'_def in simp_all)
  then show "\<exists>m'. skipelem p name m = Some (rest, m') \<and> cstr m' rest (beyond xs) \<and>
       cstr m' name (take 13 (elem1 xs)) \<and> (\<forall>a. 14 \<le> unat (a - name) \<longrightarrow> m' a = m a)"
    using rs(2) cp tk by auto
qed

section \<open>Walking along a path\<close>

text \<open>The elements of a path: what lies between slashes, empty pieces left out.\<close>

fun split_on :: "u8 list \<Rightarrow> u8 list list" where
  "split_on [] = [[]]"
| "split_on (c # xs) = (if c = 47 then [] # split_on xs else (c # hd (split_on xs)) # tl (split_on xs))"

definition path_elems :: "u8 list \<Rightarrow> u8 list list" where
  "path_elems xs = filter (\<lambda>e. e \<noteq> []) (split_on xs)"

lemma split_on_first:
  "split_on xs = takeWhile (\<lambda>c. c \<noteq> 47) xs # (case dropWhile (\<lambda>c. c \<noteq> 47) xs of [] \<Rightarrow> [] | _ # zs \<Rightarrow> split_on zs)"
  by (induction xs) (simp_all split: list.splits)

lemma elems_slash [simp]: "path_elems (47 # xs) = path_elems xs"
  by (simp add: path_elems_def)

lemma elems_strip: "path_elems (strip xs) = path_elems xs"
  unfolding strip_def by (induction xs) simp_all

lemma elems_tail:
  "zs = [] \<or> hd zs = 47 \<Longrightarrow> filter (\<lambda>e. e \<noteq> []) (case zs of [] \<Rightarrow> [] | _ # ys \<Rightarrow> split_on ys) = path_elems zs"
  by (cases zs) (auto simp: path_elems_def)

lemma elems_elem1:
  "path_elems xs = (if elem1 xs = [] then [] else elem1 xs # path_elems (beyond xs))"
proof (cases "strip xs")
  case Nil
  have "path_elems (strip xs) = []" unfolding Nil by (simp add: path_elems_def)
  then have "path_elems xs = []" unfolding elems_strip .
  then show ?thesis using Nil by (simp add: elem1_Nil)
next
  case (Cons d ys)
  let ?zs = "dropWhile (\<lambda>c. c \<noteq> 47) (strip xs)"
  have e: "elem1 xs \<noteq> []" using Cons by (simp add: elem1_Nil)
  have "path_elems (strip xs) = elem1 xs # filter (\<lambda>e. e \<noteq> []) (case ?zs of [] \<Rightarrow> [] | _ # zs \<Rightarrow> split_on zs)"
    unfolding path_elems_def split_on_first [of "strip xs"] elem1_def [symmetric] using e by simp
  also have "\<dots> = elem1 xs # path_elems ?zs"
    using elems_tail [of ?zs] hd_dropWhile [of "\<lambda>c. c \<noteq> 47" "strip xs"] by metis
  finally show ?thesis using e by (simp add: elems_strip beyond_def)
qed

lemma name_bytes_cstr: "cstr m p ys \<Longrightarrow> length ys < 14 \<Longrightarrow> name_bytes m p = ys"
proof -
  assume c: "cstr m p ys" and l: "length ys < 14"
  let ?b = "map (\<lambda>i. m (p + of_nat i)) [0 ..< 14]"
  have n: "?b ! i = ys ! i" if "i < length ys" for i using cstr_nth [OF c that] that l by simp
  then have "takeWhile (\<lambda>c. c \<noteq> 0) ?b = take (length ys) ?b"
    using cstr_nz [OF c] cstr_end [OF c] l nth_mem [of _ ys] by (intro takeWhile_eq_take_P_nth) (metis, simp)
  also have "\<dots> = ys" using n l by (intro nth_equalityI) simp_all
  finally show ?thesis by (simp add: name_bytes_def)
qed

text \<open>
  C26. The calls of \<^verbatim>\<open>skipelem\<close> along a path end, and they give its elements in order. On a
  path name that is a terminated string, apart from the buffer for the name, a walk returns after
  at most one call more than the path has characters; the names it copies are the pieces of the
  path between slashes, empty pieces left out and each cut to thirteen characters.
\<close>

theorem walk_names_correct:
  assumes "cstr m p xs" "p \<noteq> 0" "unat p + length xs < 2 ^ 32" "length xs < 2 ^ 31" "length xs < k"
    and "\<forall>j \<le> length xs. 14 \<le> unat (p + of_nat j - name)"
  shows "walk_names k p name m = Some (map (take 13) (path_elems xs))"
  using assms
proof (induction k arbitrary: p xs m)
  case (Suc k)
  have sep: "\<And>j. j \<le> length xs \<Longrightarrow> 14 \<le> unat (p + of_nat j - name)" using Suc.prems(6) by blast
  note sk = skipelem_cstr [OF Suc.prems(1,2,4) sep, simplified]
  show ?case
  proof (cases "elem1 xs = []")
    case True
    then show ?thesis using sk(1) elems_elem1 [of xs] by simp
  next
    case False
    define l where "l = length xs - length (beyond xs)"
    obtain m' where m': "skipelem p name m = Some (p + of_nat l, m')" "cstr m' (p + of_nat l) (beyond xs)"
      "cstr m' name (take 13 (elem1 xs))" using sk(2) [OF False] unfolding l_def by blast
    have len: "l + length (beyond xs) = length xs" "0 < l" using beyond_less [OF False] by (simp_all add: l_def)
    have u: "unat (p + of_nat l) = unat p + l"
      using Suc.prems(3) len by (subst unat_add_exact) (simp_all add: unat_of_nat)
    then have nz: "p + of_nat l \<noteq> 0" using len(2) by auto
    have "walk_names k (p + of_nat l) name m' = Some (map (take 13) (path_elems (beyond xs)))"
    proof (rule Suc.IH [OF m'(2) nz])
      show "\<forall>j \<le> length (beyond xs). 14 \<le> unat (p + of_nat l + of_nat j - name)"
        using Suc.prems(6) len(1) by (auto simp: add.assoc simp flip: of_nat_add)
    qed (use Suc.prems(3-5) u len in simp_all)
    moreover have "name_bytes m' name = take 13 (elem1 xs)" by (rule name_bytes_cstr [OF m'(3)]) simp
    ultimately show ?thesis using m'(1) nz False elems_elem1 [of xs] by simp
  qed
qed simp

definition sample_path :: memory where
  "sample_path = (\<lambda>_. 1)(0x1000 := 47, 0x1001 := 97, 0x1002 := 47, 0x1003 := 47, 0x1004 := 98, 0x1005 := 99, 0x1006 := 47, 0x1007 := 0)"

theorem walk_names_correct_witness:
  "walk_names 128 0x1000 0x2000 sample_path = Some [[97], [98, 99]]"
proof -
  let ?xs = "[47, 97, 47, 47, 98, 99, 47] :: u8 list"
  have "cstr sample_path 0x1000 ?xs" by (simp add: sample_path_def)
  moreover have "\<forall>j \<le> length ?xs. 14 \<le> unat (0x1000 + of_nat j - 0x2000 :: u32)"
  proof (intro allI impI)
    fix j assume "j \<le> length ?xs"
    then have "j \<in> {0, 1, 2, 3, 4, 5, 6, 7}" by auto
    then show "14 \<le> unat (0x1000 + of_nat j - 0x2000 :: u32)" by auto
  qed
  ultimately have "walk_names 128 0x1000 0x2000 sample_path = Some (map (take 13) (path_elems ?xs))"
    by (intro walk_names_correct) simp_all
  then show ?thesis by (simp add: path_elems_def)
qed

end
