(* ===== verification/Path.thy ===== *)
theory Path
  imports Inode PathName
begin

text \<open>
  Directories and path names, \<^verbatim>\<open>kern/fs/dir.c\<close> and \<^verbatim>\<open>kern/fs/path.c\<close>. Strings and directory entries
  are in memory. \<^verbatim>\<open>skipelem\<close> is in theory PathName.
\<close>

section \<open>Directories\<close>

definition ROOTINO :: u32 where "ROOTINO = 1"

text \<open>
  The addresses of the local arrays of the file system routines and of the string
  constants they use. A directory entry is a structure of 16 bytes: the inode number, then
  the name.
\<close>

record locals =
  lookup_de :: u32
  link_de :: u32
  namei_name :: u32
  empty_de :: u32
  unlink_de :: u32
  call_name :: u32
  call_path :: u32
  call_old :: u32
  call_new :: u32
  create_name :: u32
  stat_buf :: u32
  dot :: u32
  dotdot :: u32

definition dir_namecmp :: "u32 \<Rightarrow> u32 \<Rightarrow> ('z pt_state_scheme, int) kern" where
  "dir_namecmp p q = kgets (\<lambda>s. strncmp (mem s) p q DIRSIZ)"

text \<open>
  The loops over a directory. The offset is a 32-bit number and the entries are read with
  \<^verbatim>\<open>inode_read\<close>, which refuses to read past the largest offset, so that a loop makes fewer than
  \<open>2 ^ 28\<close> steps.
\<close>

definition dir_fuel :: nat where
  "dir_fuel = 2 ^ 28"

text \<open>\<open>poff\<close> is the value at the pointer \<^verbatim>\<open>poff\<close>, \<open>None\<close> for a null pointer.\<close>

primrec dir_lookup_loop ::
    "nat \<Rightarrow> (u32 \<Rightarrow> 'z ino_state_scheme devsw) \<Rightarrow> locals \<Rightarrow> u32 \<Rightarrow> u32 \<Rightarrow> u32 option \<Rightarrow> u32 \<Rightarrow>
     ('z ino_state_scheme, u32 \<times> u32 option) kern" where
  "dir_lookup_loop 0 devsw L dp name poff off = kfail Spin"
| "dir_lookup_loop (Suc k) devsw L dp name poff off =
     kbind (ino_get i_size dp) (\<lambda>sz.
       if off < sz then
         kbind (inode_read devsw dp (lookup_de L) off 16) (\<lambda>r.
         kseq (kguard (r = 16) (KERN_PANIC ''wrong in dir_lookup''))
        (kbind (kgets (\<lambda>s. load16 (mem s) (lookup_de L))) (\<lambda>inum.
           if inum = 0 then dir_lookup_loop k devsw L dp name poff (off + 16)
           else
             kbind (dir_namecmp (lookup_de L + 2) name) (\<lambda>c.
               if c = 0 then
                 kbind (ino_get i_dev dp) (\<lambda>d.
                 kbind (inode_get d (ucast inum)) (\<lambda>ip.
                   kret (ip, map_option (\<lambda>_. off) poff)))
               else dir_lookup_loop k devsw L dp name poff (off + 16)))))
       else kret (0, poff))"

definition dir_lookup ::
    "(u32 \<Rightarrow> 'z ino_state_scheme devsw) \<Rightarrow> locals \<Rightarrow> u32 \<Rightarrow> u32 \<Rightarrow> u32 option \<Rightarrow>
     ('z ino_state_scheme, u32 \<times> u32 option) kern" where
  "dir_lookup devsw L dp name poff =
     kbind (ino_get i_type dp) (\<lambda>ty.
     kseq (kguard (ty = T_DIR) (KERN_PANIC ''dir_lookup not DIR''))
       (dir_lookup_loop dir_fuel devsw L dp name poff 0))"

text \<open>The offset of the first free entry, or the end of the directory.\<close>

primrec dir_free_loop ::
    "nat \<Rightarrow> (u32 \<Rightarrow> 'z ino_state_scheme devsw) \<Rightarrow> locals \<Rightarrow> u32 \<Rightarrow> u32 \<Rightarrow> ('z ino_state_scheme, u32) kern" where
  "dir_free_loop 0 devsw L dp off = kfail Spin"
| "dir_free_loop (Suc k) devsw L dp off =
     kbind (ino_get i_size dp) (\<lambda>sz.
       if off < sz then
         kbind (inode_read devsw dp (link_de L) off 16) (\<lambda>r.
         kseq (kguard (r = 16) (KERN_PANIC ''entry size read is not correct, dir_link''))
        (kbind (kgets (\<lambda>s. load16 (mem s) (link_de L))) (\<lambda>inum.
           if inum = 0 then kret off else dir_free_loop k devsw L dp (off + 16))))
       else kret off)"

definition dir_link ::
    "(u32 \<Rightarrow> 'z ino_state_scheme devsw) \<Rightarrow> locals \<Rightarrow> u32 \<Rightarrow> u32 \<Rightarrow> u32 \<Rightarrow> ('z ino_state_scheme, u32) kern" where
  "dir_link devsw L dp name inum =
     kbind (dir_lookup devsw L dp name (Some 0)) (\<lambda>(ip, _).
       if ip \<noteq> 0 then kseq (inode_put ip) (kret (- 1))
       else
         kbind (dir_free_loop dir_fuel devsw L dp 0) (\<lambda>off.
         kseq (kmodify (\<lambda>s. s\<lparr>mem := store16 (mem s) (link_de L) (ucast inum)\<rparr>))
        (kseq (kmodify (\<lambda>s. s\<lparr>mem := strncpy (link_de L + 2) name DIRSIZ (mem s)\<rparr>))
        (kbind (inode_write devsw dp (link_de L) off 16) (\<lambda>r.
         kseq (kguard (r = 16) (KERN_PANIC ''entry size write is not corrent, dir_link'')) (kret 0))))))"

section \<open>Paths\<close>

definition skipelem_step :: "u32 \<Rightarrow> u32 \<Rightarrow> ('z pt_state_scheme, u32) kern" where
  "skipelem_step path name =
     kbind (kgets (\<lambda>s. skipelem path name (mem s))) (\<lambda>r. case r of
       None \<Rightarrow> kfail Spin
     | Some (rest, m) \<Rightarrow> kseq (kmodify (\<lambda>s. s\<lparr>mem := m\<rparr>)) (kret rest))"

text \<open>
  The loop of \<^verbatim>\<open>namex\<close>. Each step takes an element off the path, and paths are kept in arrays of
  128 bytes, so that 128 steps are enough.
\<close>

definition path_fuel :: nat where
  "path_fuel = 128"

primrec namex_loop ::
    "nat \<Rightarrow> (u32 \<Rightarrow> 'z ino_state_scheme devsw) \<Rightarrow> locals \<Rightarrow> u32 \<Rightarrow> bool \<Rightarrow> u32 \<Rightarrow> u32 \<Rightarrow> ('z ino_state_scheme, u32) kern" where
  "namex_loop 0 devsw L path par name ip = kfail Spin"
| "namex_loop (Suc k) devsw L path par name ip =
     kbind (skipelem_step path name) (\<lambda>path.
       if path \<noteq> 0 then
         kseq (inode_lock ip)
        (kbind (ino_get i_type ip) (\<lambda>ty.
           if ty \<noteq> T_DIR then kseq (inode_unlockput ip) (kret 0)
           else kbind (kgets (\<lambda>s. mem s path)) (\<lambda>c.
             if par \<and> c = 0 then kseq (inode_unlock ip) (kret ip)
             else kbind (dir_lookup devsw L ip name (Some 0)) (\<lambda>(subdir, _).
               if subdir = 0 then kseq (inode_unlockput ip) (kret 0)
               else kseq (inode_unlockput ip) (namex_loop k devsw L path par name subdir)))))
       else if par then kseq (inode_put ip) (kret 0)
       else kret ip)"

definition namex ::
    "(u32 \<Rightarrow> 'z ino_state_scheme devsw) \<Rightarrow> locals \<Rightarrow> u32 \<Rightarrow> bool \<Rightarrow> u32 \<Rightarrow> ('z ino_state_scheme, u32) kern" where
  "namex devsw L path par name =
     kbind (kgets (\<lambda>s. mem s path)) (\<lambda>c.
     kbind (if c = 47 then inode_get ROOTDEV ROOTINO
            else kbind get_curid (\<lambda>pid. kbind (tcb_get_cwd pid) inode_dup)) (\<lambda>ip.
       namex_loop path_fuel devsw L path par name ip))"

definition namei :: "(u32 \<Rightarrow> 'z ino_state_scheme devsw) \<Rightarrow> locals \<Rightarrow> u32 \<Rightarrow> ('z ino_state_scheme, u32) kern" where
  "namei devsw L path = namex devsw L path False (namei_name L)"

definition nameiparent ::
    "(u32 \<Rightarrow> 'z ino_state_scheme devsw) \<Rightarrow> locals \<Rightarrow> u32 \<Rightarrow> u32 \<Rightarrow> ('z ino_state_scheme, u32) kern" where
  "nameiparent devsw L path name = namex devsw L path True name"

end
