(* ===== verification/UserCopy.thy ===== *)
theory UserCopy
  imports VMInit
begin

text \<open>
  Copies between kernel memory and the address space of a process: \<^verbatim>\<open>kern/lib/pmap.c\<close>. The
  routines work page by page, allocating the pages that are not present. Main results:
  on mapped ranges \<^verbatim>\<open>pt_copyin\<close> and \<^verbatim>\<open>pt_copyout\<close> move exactly the bytes of the range, and
  change nothing else, in particular no page table and no page of another process.
\<close>

definition chunk :: "u32 \<Rightarrow> u32 \<Rightarrow> u32" where
  "chunk len pa = (if len < PAGESIZE - pa mod PAGESIZE then len else PAGESIZE - pa mod PAGESIZE)"

text \<open>The lookup the three loops share; the result of \<^verbatim>\<open>alloc_page\<close> is ignored.\<close>

definition user_pa :: "u32 \<Rightarrow> u32 \<Rightarrow> ('z pt_state_scheme, u32) kern" where
  "user_pa pmap_id uva =
     kbind (get_ptbl_entry_by_va pmap_id uva) (\<lambda>uva_pa.
     kbind (if uva_pa AND PTE_P = 0 then
              kbind (alloc_page pmap_id uva (PTE_P OR PTE_U OR PTE_W)) (\<lambda>_.
                get_ptbl_entry_by_va pmap_id uva)
            else kret uva_pa) (\<lambda>uva_pa.
       kret ((uva_pa AND 0xfffff000) + uva mod PAGESIZE)))"

lemma chunk_bounds:
  assumes "len \<noteq> 0"
  shows "0 < unat (chunk len pa)" "unat (chunk len pa) \<le> unat len"
    "unat (chunk len pa) \<le> 4096 - unat pa mod 4096"
proof -
  have m: "unat (pa mod PAGESIZE) = unat pa mod 4096" by (simp add: PAGESIZE_def unat_mod)
  then have s: "unat (PAGESIZE - pa mod PAGESIZE) = 4096 - unat pa mod 4096"
    by (subst unat_sub_exact) (simp_all add: PAGESIZE_def word_le_nat_alt)
  have "0 < unat len" using assms by (simp add: unat_gt_0)
  then show "0 < unat (chunk len pa)" "unat (chunk len pa) \<le> unat len"
    "unat (chunk len pa) \<le> 4096 - unat pa mod 4096"
    by (auto simp: chunk_def s word_less_nat_alt)
qed

lemma chunk_less: "len \<noteq> 0 \<Longrightarrow> unat (len - chunk len pa) < unat len"
  using chunk_bounds [of len pa] by (subst unat_sub_exact) (auto simp: word_le_nat_alt)

function pt_copyin_loop :: "u32 \<Rightarrow> u32 \<Rightarrow> u32 \<Rightarrow> u32 \<Rightarrow> u32 \<Rightarrow> ('z pt_state_scheme, u32) kern" where
  "pt_copyin_loop pmap_id uva kva len copied =
     (if len \<noteq> 0 then
        kbind (user_pa pmap_id uva) (\<lambda>pa.
        let sz = chunk len pa in
        kseq (kmodify (\<lambda>s. s\<lparr>mem := memcpy kva pa sz (mem s)\<rparr>))
             (pt_copyin_loop pmap_id (uva + sz) (kva + sz) (len - sz) (copied + sz)))
      else kret copied)"
  by pat_completeness auto
termination
  by (relation "measure (\<lambda>(i, u, k, len, c). unat len)") (auto simp: chunk_less)

declare pt_copyin_loop.simps [simp del]

definition pt_copyin :: "u32 \<Rightarrow> u32 \<Rightarrow> u32 \<Rightarrow> u32 \<Rightarrow> ('z pt_state_scheme, u32) kern" where
  "pt_copyin pmap_id uva kva len =
     (if \<not> (VM_USERLO \<le> uva \<and> uva + len \<le> VM_USERHI) then kret 0
      else if kva + len > VM_USERHI then kret 0
      else pt_copyin_loop pmap_id uva kva len 0)"

function pt_copyout_loop :: "u32 \<Rightarrow> u32 \<Rightarrow> u32 \<Rightarrow> u32 \<Rightarrow> u32 \<Rightarrow> ('z pt_state_scheme, u32) kern" where
  "pt_copyout_loop kva pmap_id uva len copied =
     (if len \<noteq> 0 then
        kbind (user_pa pmap_id uva) (\<lambda>pa.
        let sz = chunk len pa in
        kseq (kmodify (\<lambda>s. s\<lparr>mem := memcpy pa kva sz (mem s)\<rparr>))
             (pt_copyout_loop (kva + sz) pmap_id (uva + sz) (len - sz) (copied + sz)))
      else kret copied)"
  by pat_completeness auto
termination
  by (relation "measure (\<lambda>(k, i, u, len, c). unat len)") (auto simp: chunk_less)

declare pt_copyout_loop.simps [simp del]

definition pt_copyout :: "u32 \<Rightarrow> u32 \<Rightarrow> u32 \<Rightarrow> u32 \<Rightarrow> ('z pt_state_scheme, u32) kern" where
  "pt_copyout kva pmap_id uva len =
     (if \<not> (VM_USERLO \<le> uva \<and> uva + len \<le> VM_USERHI) then kret 0
      else if kva + len > VM_USERHI then kret 0
      else pt_copyout_loop kva pmap_id uva len 0)"

function pt_memset_loop :: "u32 \<Rightarrow> u32 \<Rightarrow> u32 \<Rightarrow> u32 \<Rightarrow> u32 \<Rightarrow> ('z pt_state_scheme, u32) kern" where
  "pt_memset_loop pmap_id va c len st =
     (if len \<noteq> 0 then
        kbind (user_pa pmap_id va) (\<lambda>pa.
        let sz = chunk len pa in
        kseq (kmodify (\<lambda>s. s\<lparr>mem := memset pa c sz (mem s)\<rparr>))
             (pt_memset_loop pmap_id (va + sz) c (len - sz) (st + sz)))
      else kret st)"
  by pat_completeness auto
termination
  by (relation "measure (\<lambda>(i, u, c, len, st). unat len)") (auto simp: chunk_less)

declare pt_memset_loop.simps [simp del]

text \<open>The argument \<^verbatim>\<open>char c\<close> is passed on to \<^verbatim>\<open>memset\<close> as an \<^verbatim>\<open>int\<close>.\<close>

definition pt_memset :: "u32 \<Rightarrow> u32 \<Rightarrow> u8 \<Rightarrow> u32 \<Rightarrow> ('z pt_state_scheme, u32) kern" where
  "pt_memset pmap_id va c len = pt_memset_loop pmap_id va (scast c) len 0"

section \<open>Physical addresses of user bytes\<close>

definition upte :: "'z pt_state_scheme \<Rightarrow> u32 \<Rightarrow> u32 \<Rightarrow> u32" where
  "upte s i va = entry s (Pg i (pdx va) (ptx va))"

definition present :: "'z pt_state_scheme \<Rightarrow> u32 \<Rightarrow> u32 \<Rightarrow> bool" where
  "present s i va \<longleftrightarrow> upte s i va AND PTE_P \<noteq> 0"

definition upa :: "'z pt_state_scheme \<Rightarrow> u32 \<Rightarrow> u32 \<Rightarrow> u32" where
  "upa s i va = frame (upte s i va) * 4096 + va mod 4096"

lemma user_pa_present:
  "i < NUM_IDS \<Longrightarrow> present s i va \<Longrightarrow> user_pa i va s = Inr (upa s i va, s)"
  by (simp add: user_pa_def present_def upa_def upte_def page_mask PAGESIZE_def del: entry.simps)

lemma mod_4096_less: "va mod 4096 < (4096 :: u32)"
  by (simp add: word_less_nat_alt unat_mod)

lemma unat_upa: "unat (upa s i va) = unat (frame (upte s i va)) * 4096 + unat va mod 4096"
  by (simp add: upa_def unat_page [OF frame_less mod_4096_less] unat_mod)

lemma upa_mod: "unat (upa s i va) mod 4096 = unat va mod 4096"
  by (simp add: unat_upa)

lemma frame_upa: "frame (upa s i va) = frame (upte s i va)"
  unfolding upa_def by (rule frame_page [OF frame_less mod_4096_less])

lemma same_page:
  fixes va k :: u32
  assumes "unat k < 4096 - unat va mod 4096"
  shows "frame (va + k) = frame va" "unat (va + k) = unat va + unat k"
proof -
  have d: "unat va = unat va div 4096 * 4096 + unat va mod 4096" by simp
  have "unat va div 4096 < 0x100000" using unat_lt2p [of va] by simp
  then have "unat va + unat k < 4294967296" using assms d by linarith
  then show u: "unat (va + k) = unat va + unat k" by (intro unat_add_exact) simp
  have "(unat va mod 4096 + unat k) div 4096 = 0" using assms by simp
  then have "(unat va div 4096 * 4096 + (unat va mod 4096 + unat k)) div 4096 = unat va div 4096"
    by (subst div_mult_self3) simp_all
  then have "(unat va + unat k) div 4096 = unat va div 4096" using d by (metis add.assoc)
  then show "frame (va + k) = frame va" by (simp add: word_unat_eq_iff unat_frame u)
qed

lemma pdx_frame: "pdx va = frame va div 1024" "ptx va = frame va mod 1024"
  by (simp_all add: pdx_def ptx_def frame_def word_unat_eq_iff unat_div unat_mod div_mult2_eq [symmetric])

lemma upa_same_page:
  assumes "unat k < 4096 - unat va mod 4096"
  shows "upte s i (va + k) = upte s i va" "upa s i (va + k) = upa s i va + k"
proof -
  show p: "upte s i (va + k) = upte s i va"
    using same_page(1) [OF assms] by (simp add: upte_def pdx_frame)
  have k: "unat k < 4096 - unat (upa s i va) mod 4096" using assms upa_mod by metis
  have "(unat va + unat k) mod 4096 = unat va mod 4096 + unat k"
    using assms mod_add_left_eq [of "unat va" 4096 "unat k"] by simp
  then show "upa s i (va + k) = upa s i va + k"
    by (simp add: word_unat_eq_iff unat_upa same_page(2) [OF k] same_page(2) [OF assms] p)
qed

section \<open>Writes that leave the page structures alone\<close>

definition table_byte :: "'z pt_state_scheme \<Rightarrow> u32 \<Rightarrow> bool" where
  "table_byte s a \<longleftrightarrow>
     (\<exists>j d. user_slot (Tbl j d) \<and> PDirPool s j d \<noteq> 0 \<and> frame a = frame (PDirPool s j d)) \<or>
     unat (IDPTbl_addr s) \<le> unat a \<and> unat a < unat (IDPTbl_addr s) + 0x400000"

lemma load32_cong:
  "M a = m a \<Longrightarrow> M (a + 1) = m (a + 1) \<Longrightarrow> M (a + 2) = m (a + 2) \<Longrightarrow> M (a + 3) = m (a + 3) \<Longrightarrow>
   load32 M a = load32 m a"
  by (simp add: load32_def)

lemma pte_bytes:
  assumes "e < 1024" "unat k < 4"
  shows "frame (pte_addr pde e + k) = frame pde"
proof -
  have e: "unat e < 1024" using assms(1) by (simp add: word_less_nat_alt)
  have m: "unat (pte_addr pde e) mod 4096 = unat e * 4" "unat (pte_addr pde e) div 4096 = unat (frame pde)"
    using e by (simp_all add: unat_pte_addr [OF assms(1)])
  have "frame (pte_addr pde e + k) = frame (pte_addr pde e)"
    using assms(2) e m(1) by (intro same_page(1)) simp
  then show ?thesis using m(2) by (simp add: word_unat_eq_iff unat_frame)
qed

lemma vm_inv_mem:
  assumes inv: "vm_inv s" and same: "\<And>a. table_byte s a \<Longrightarrow> M a = mem s a"
  shows "vm_inv (s\<lparr>mem := M\<rparr>)" "\<And>x. user_slot x \<Longrightarrow> entry (s\<lparr>mem := M\<rparr>) x = entry s x"
proof -
  let ?t = "s\<lparr>mem := M\<rparr>"
  have ld: "load32 M (pte_addr (PDirPool s j d) e) = load32 (mem s) (pte_addr (PDirPool s j d) e)"
    if "user_slot (Pg j d e)" "PDirPool s j d \<noteq> 0" for j d e
  proof -
    have tb: "table_byte s (pte_addr (PDirPool s j d) e + k)" if "unat k < 4" for k
      using pte_bytes [OF _ that, of e "PDirPool s j d"] \<open>user_slot (Pg j d e)\<close> \<open>PDirPool s j d \<noteq> 0\<close>
      by (auto simp: table_byte_def)
    show ?thesis
      using same [OF tb [of 0]] same [OF tb [of 1]] same [OF tb [of 2]] same [OF tb [of 3]]
      by (intro load32_cong) auto
  qed
  show ent: "entry ?t x = entry s x" if "user_slot x" for x
    using that ld by (cases x) auto
  have k: "kmap_inv s" using inv by (simp add: vm_inv_def)
  have b: "idptbl_placed (IDPTbl_addr s)" using k unfolding kmap_inv_def idptbl_placed_def by blast
  have lo: "unat (IDPTbl_addr s) + 0x400000 \<le> 0x40000000"
    using b unfolding idptbl_placed_def unat_VM_USERLO by blast
  have id: "load32 M (id_addr (IDPTbl_addr s) d e) = load32 (mem s) (id_addr (IDPTbl_addr s) d e)"
    if de: "d < 1024" "e < 1024" for d e
  proof -
    have n: "unat d < 1024" "unat e < 1024" using de by (simp_all add: word_less_nat_alt)
    have tb: "table_byte s (id_addr (IDPTbl_addr s) d e + k)" if "unat k < 4" for k
    proof -
      have "unat (id_addr (IDPTbl_addr s) d e + k) = unat (id_addr (IDPTbl_addr s) d e) + unat k"
        using id_addr_facts(2) [OF b de] n lo that by (intro unat_add_exact) simp
      then show ?thesis using id_addr_facts(2) [OF b de] n that by (simp add: table_byte_def)
    qed
    show ?thesis
      using same [OF tb [of 0]] same [OF tb [of 1]] same [OF tb [of 2]] same [OF tb [of 3]]
      by (intro load32_cong) auto
  qed
  have sel: "live ?t p = live s p" "cont_inv ?t = cont_inv s" for p
    by (simp_all add: live_def page_norm_def cont_inv_def mat_inv_def in_use_def)
  have "pt_inv s" using inv by (simp add: vm_inv_def)
  then have "pt_inv ?t" using ent unfolding pt_inv_def by (simp add: sel)
  moreover have "kmap_inv ?t"
    using k id unfolding kmap_inv_def id_addr_def by (simp add: page_norm_def)
  ultimately show "vm_inv ?t" by (simp add: vm_inv_def)
qed

section \<open>Buffers and user ranges\<close>

text \<open>
  A kernel buffer lies below the pages for users and outside \<^verbatim>\<open>IDPTbl\<close>; a user range is
  mapped as a whole.
\<close>

definition kbuf :: "'z pt_state_scheme \<Rightarrow> u32 \<Rightarrow> nat \<Rightarrow> bool" where
  "kbuf s kva n \<longleftrightarrow> unat kva + n \<le> unat VM_USERLO \<and>
     (unat kva + n \<le> unat (IDPTbl_addr s) \<or> unat (IDPTbl_addr s) + 0x400000 \<le> unat kva)"

definition urange :: "'z pt_state_scheme \<Rightarrow> u32 \<Rightarrow> u32 \<Rightarrow> nat \<Rightarrow> bool" where
  "urange s i uva n \<longleftrightarrow> i \<noteq> 0 \<and> i < NUM_IDS \<and> unat VM_USERLO \<le> unat uva \<and> unat uva + n \<le> unat VM_USERHI \<and>
     (\<forall>k. unat k < n \<longrightarrow> present s i (uva + k))"

lemma unat_VM_USERHI: "unat VM_USERHI = 0xF0000000"
  by (simp add: VM_USERHI_def)

lemma urange_slot:
  assumes r: "urange s i uva n" and k: "unat k < n"
  shows "unat (uva + k) = unat uva + unat k"
    "user_slot (Pg i (pdx (uva + k)) (ptx (uva + k)))" "upte s i (uva + k) \<noteq> 0"
proof -
  have b: "0x40000000 \<le> unat uva" "unat uva + n \<le> 0xF0000000" "i \<noteq> 0" "i < NUM_IDS" "present s i (uva + k)"
    using r k unfolding urange_def unat_VM_USERLO unat_VM_USERHI by blast+
  show u: "unat (uva + k) = unat uva + unat k" using b(2) k by (intro unat_add_exact) simp
  have "user_va (uva + k)"
    using b u k by (simp add: user_va_def word_le_nat_alt word_less_nat_alt unat_VM_USERLO unat_VM_USERHI)
  then show "user_slot (Pg i (pdx (uva + k)) (ptx (uva + k)))" using b by (simp add: user_va_pde ptx_less)
  show "upte s i (uva + k) \<noteq> 0" using b(5) by (auto simp: present_def)
qed

lemma urange_upa:
  assumes inv: "vm_inv s" and r: "urange s i uva n" and k: "unat k < n"
  shows "0x40000000 \<le> unat (upa s i (uva + k))" "unat (upa s i (uva + k)) < 0xF0000000"
    "frame a = frame (upte s i (uva + k)) \<Longrightarrow> \<not> table_byte s a"
proof -
  let ?p = "frame (upte s i (uva + k))"
  note sl = urange_slot [OF r k]
  have live: "live s ?p" using vm_inv_entry [OF inv sl(2)] sl(3) by (simp add: upte_def)
  have p: "0x40000 \<le> unat ?p" "unat ?p < 0xF0000"
    using live_user [OF inv live] live_user_hi [OF inv live]
    by (simp_all add: word_le_nat_alt word_less_nat_alt VM_USERLO_PI_def VM_USERHI_PI_def)
  show "0x40000000 \<le> unat (upa s i (uva + k))" using p by (simp add: unat_upa)
  have "unat (uva + k) mod 4096 < 4096" by simp
  then show "unat (upa s i (uva + k)) < 0xF0000000" using p unfolding unat_upa by linarith
  assume a: "frame a = ?p"
  have lo: "unat (IDPTbl_addr s) + 0x400000 \<le> 0x40000000"
    using inv unfolding vm_inv_def kmap_inv_def unat_VM_USERLO by blast
  have "0x40000 \<le> unat a div 4096" using a p by (simp add: word_unat_eq_iff unat_frame)
  then have "\<not> unat a < unat (IDPTbl_addr s) + 0x400000" using lo by simp
  moreover have "frame (PDirPool s j d) \<noteq> ?p" if "user_slot (Tbl j d)" "PDirPool s j d \<noteq> 0" for j d
    using vm_inv_inj [OF inv that(1) sl(2)] that(2) sl(3) by (auto simp: upte_def)
  ultimately show "\<not> table_byte s a" unfolding table_byte_def a by metis
qed

lemma kbuf_not_table:
  assumes inv: "vm_inv s" and b: "kbuf s kva n" and a: "unat (a - kva) < n"
  shows "\<not> table_byte s a" "unat a < 0x40000000"
proof -
  have k: "unat kva + n \<le> 0x40000000"
    "unat kva + n \<le> unat (IDPTbl_addr s) \<or> unat (IDPTbl_addr s) + 0x400000 \<le> unat kva"
    using b unfolding kbuf_def unat_VM_USERLO by blast+
  have "unat (kva + (a - kva)) = unat kva + unat (a - kva)" using k a by (intro unat_add_exact) simp
  then have u: "unat a = unat kva + unat (a - kva)" by simp
  then show lt: "unat a < 0x40000000" using k a by simp
  have "frame a \<noteq> frame (PDirPool s j d)" if "user_slot (Tbl j d)" "PDirPool s j d \<noteq> 0" for j d
  proof -
    have "VM_USERLO_PI \<le> frame (PDirPool s j d)"
      using live_user [OF inv] vm_inv_entry [OF inv that(1)] that(2) by simp
    then have "0x40000 \<le> unat (frame (PDirPool s j d))" by (simp add: word_le_nat_alt VM_USERLO_PI_def)
    moreover have "unat (frame a) < 0x40000" using lt by (simp add: unat_frame)
    ultimately show ?thesis by auto
  qed
  moreover have "\<not> (unat (IDPTbl_addr s) \<le> unat a \<and> unat a < unat (IDPTbl_addr s) + 0x400000)"
    using u k(2) a by linarith
  ultimately show "\<not> table_byte s a" unfolding table_byte_def by metis
qed

text \<open>The first chunk of a range, and what remains.\<close>

lemma urange_chunk:
  assumes r: "urange s i uva (unat len)" and len: "len \<noteq> 0"
  defines "sz \<equiv> chunk len (upa s i uva)"
  shows "0 < unat sz" "unat sz \<le> unat len" "unat (len - sz) = unat len - unat sz"
    "unat sz \<le> 4096 - unat uva mod 4096" "urange s i (uva + sz) (unat (len - sz))"
    "unat k < unat sz \<Longrightarrow> upa s i (uva + k) = upa s i uva + k"
proof -
  note c = chunk_bounds [OF len, of "upa s i uva", folded sz_def]
  show "0 < unat sz" and le: "unat sz \<le> unat len" using c by simp_all
  show sub: "unat (len - sz) = unat len - unat sz" using le by (simp add: unat_sub_exact word_le_nat_alt)
  show pg: "unat sz \<le> 4096 - unat uva mod 4096" using c(3) upa_mod by metis
  show "upa s i (uva + k) = upa s i uva + k" if "unat k < unat sz"
    using that pg by (intro upa_same_page(2)) simp
  have b: "unat uva + unat len \<le> 0xF0000000" "0x40000000 \<le> unat uva" "i \<noteq> 0" "i < NUM_IDS"
    "\<And>k. unat k < unat len \<Longrightarrow> present s i (uva + k)"
    using r unfolding urange_def unat_VM_USERLO unat_VM_USERHI by blast+
  have u: "unat (uva + sz) = unat uva + unat sz" using b(1) le by (intro unat_add_exact) simp
  have "present s i (uva + sz + k)" if "unat k < unat len - unat sz" for k
  proof -
    have "unat (sz + k) = unat sz + unat k" using that unat_lt2p [of len] by (intro unat_add_exact) simp
    then show ?thesis using b(5) [of "sz + k"] that by (simp add: add.assoc)
  qed
  then show "urange s i (uva + sz) (unat (len - sz))"
    using b le u by (simp add: urange_def sub unat_VM_USERLO unat_VM_USERHI)
qed

section \<open>pt\_copyin\<close>

definition copied_in :: "'z pt_state_scheme \<Rightarrow> u32 \<Rightarrow> u32 \<Rightarrow> u32 \<Rightarrow> nat \<Rightarrow> memory" where
  "copied_in s i uva kva n =
     (\<lambda>a. if unat (a - kva) < n then mem s (upa s i (uva + (a - kva))) else mem s a)"

lemma offset_split:
  fixes a d sz len :: u32
  assumes "unat sz \<le> unat len" "unat (len - sz) = unat len - unat sz"
  shows "unat (a - (d + sz)) < unat (len - sz) \<longleftrightarrow> unat sz \<le> unat (a - d) \<and> unat (a - d) < unat len"
proof (cases "unat (len - sz) = 0")
  case False
  then show ?thesis
    using offset_Suc [of "unat sz" "unat (len - sz)" a d] assms unat_lt2p [of len] by simp
qed (use assms in auto)

lemma urange_mem:
  assumes "urange s i uva n" "\<And>x. user_slot x \<Longrightarrow> entry (s\<lparr>mem := M\<rparr>) x = entry s x"
  shows "urange (s\<lparr>mem := M\<rparr>) i uva n"
    "unat k < n \<Longrightarrow> upa (s\<lparr>mem := M\<rparr>) i (uva + k) = upa s i (uva + k)"
proof -
  have e: "upte (s\<lparr>mem := M\<rparr>) i (uva + k) = upte s i (uva + k)" if "unat k < n" for k
    using urange_slot(2) [OF assms(1) that] assms(2) by (simp add: upte_def del: entry.simps)
  then show "urange (s\<lparr>mem := M\<rparr>) i uva n" using assms(1) by (simp add: urange_def present_def)
  show "unat k < n \<Longrightarrow> upa (s\<lparr>mem := M\<rparr>) i (uva + k) = upa s i (uva + k)" using e by (simp add: upa_def)
qed

lemma urange_chunk_upa:
  assumes inv: "vm_inv s" and r: "urange s i uva (unat len)" and len: "len \<noteq> 0"
  defines "sz \<equiv> chunk len (upa s i uva)"
  shows "user_pa i uva s = Inr (upa s i uva, s)" "unat (upa s i uva) + unat sz < 2 ^ 32"
proof -
  have "0 < unat len" using len by (simp add: unat_gt_0)
  then have "present s i uva" "i < NUM_IDS" "unat (upa s i uva) < 0xF0000000"
    using r urange_upa(2) [OF inv r, of 0] by (auto simp: urange_def dest!: spec [of _ 0])
  moreover have "unat sz \<le> 4096" using urange_chunk(4) [OF r len] by (simp add: sz_def)
  ultimately show "user_pa i uva s = Inr (upa s i uva, s)" "unat (upa s i uva) + unat sz < 2 ^ 32"
    by (simp_all add: user_pa_present)
qed

lemma pt_copyin_loop_ok:
  assumes "vm_inv s" "urange s i uva (unat len)" "kbuf s kva (unat len)"
  shows "pt_copyin_loop i uva kva len c s = Inr (c + len, s\<lparr>mem := copied_in s i uva kva (unat len)\<rparr>)"
  using assms
proof (induction "unat len" arbitrary: uva kva len c s rule: less_induct)
  case less
  note inv = less.prems(1) and r = less.prems(2) and b = less.prems(3)
  show ?case
  proof (cases "len = 0")
    case True
    then show ?thesis by (simp add: pt_copyin_loop.simps copied_in_def)
  next
    case False
    define pa where "pa = upa s i uva"
    define sz where "sz = chunk len pa"
    note c = urange_chunk [OF r False, folded pa_def, folded sz_def]
    note pa = urange_chunk_upa [OF inv r False, folded pa_def, folded sz_def]
    have bk: "unat kva + unat len \<le> 0x40000000" using b unfolding kbuf_def unat_VM_USERLO by blast
    then have bz: "kbuf s kva (unat sz)" using b c(2) by (auto simp: kbuf_def)
    define M where "M = blit (mem s) kva pa (unat sz)"
    have cp: "memcpy kva pa sz (mem s) = M"
      using pa(2) bk c(2) by (simp add: memcpy_def M_def memmove_blit)
    have M: "M a = mem s a" if "table_byte s a \<or> 0x40000000 \<le> unat a" for a
      using that kbuf_not_table [OF inv bz, of a] by (auto simp: M_def blit_def)
    let ?s = "s\<lparr>mem := M\<rparr>"
    have s1: "vm_inv ?s" "\<And>x. user_slot x \<Longrightarrow> entry ?s x = entry s x"
      using vm_inv_mem [OF inv, of M] M by blast+
    have "unat (kva + sz) = unat kva + unat sz" using bk c(2) by (intro unat_add_exact) simp
    then have "kbuf ?s (kva + sz) (unat (len - sz))" using b c(2,3) by (auto simp: kbuf_def)
    moreover have "unat (len - sz) < unat len" using c(1-3) by simp
    ultimately have IH: "pt_copyin_loop i (uva + sz) (kva + sz) (len - sz) (c + sz) ?s =
        Inr (c + len, ?s\<lparr>mem := copied_in ?s i (uva + sz) (kva + sz) (unat (len - sz))\<rparr>)"
      using less.hyps [of "len - sz" ?s "uva + sz" "kva + sz" "c + sz"] s1(1) urange_mem(1) [OF c(5) s1(2)]
      by simp
    have "copied_in ?s i (uva + sz) (kva + sz) (unat (len - sz)) a = copied_in s i uva kva (unat len) a" for a
    proof -
      have off: "unat (a - (kva + sz)) < unat (len - sz) \<longleftrightarrow> unat sz \<le> unat (a - kva) \<and> unat (a - kva) < unat len"
        by (rule offset_split [OF c(2,3)])
      have eq: "uva + sz + (a - (kva + sz)) = uva + (a - kva)" by simp
      have "mem ?s (upa ?s i (uva + sz + (a - (kva + sz)))) = mem s (upa s i (uva + (a - kva)))"
        if lt: "unat (a - (kva + sz)) < unat (len - sz)"
      proof -
        have "M (upa s i (uva + (a - kva))) = mem s (upa s i (uva + (a - kva)))"
          using urange_upa(1) [OF inv r, of "a - kva"] lt off M by blast
        moreover have "upa ?s i (uva + sz + (a - (kva + sz))) = upa s i (uva + (a - kva))"
          using urange_mem(2) [OF c(5), of M "a - (kva + sz)"] s1(2) lt unfolding eq by blast
        moreover have "mem ?s = M" by simp
        ultimately show ?thesis by (simp only:)
      qed
      moreover have "M a = mem s (upa s i (uva + (a - kva)))" if "unat (a - kva) < unat sz"
        using that c(6) [of "a - kva"] by (simp add: M_def blit_def pa_def)
      moreover have "M a = mem s a" if "\<not> unat (a - kva) < unat sz"
        using that by (simp add: M_def blit_def)
      ultimately show ?thesis using off c(2) by (auto simp: copied_in_def)
    qed
    then have "copied_in ?s i (uva + sz) (kva + sz) (unat (len - sz)) = copied_in s i uva kva (unat len)"
      by (rule ext)
    then show ?thesis
      using IH pa(1) False cp
      by (subst pt_copyin_loop.simps) (simp add: Let_def pa_def [symmetric] sz_def [symmetric])
  qed
qed

section \<open>pt\_copyout and pt\_memset\<close>

lemma div_mod_eqI: "x div n = y div n \<Longrightarrow> x mod n = y mod n \<Longrightarrow> x = (y :: nat)"
  by (metis div_mult_mod_eq)

lemma upa_inj:
  assumes inv: "vm_inv s" and r: "urange s i uva n" and k: "unat k < n" "unat k' < n"
    and eq: "upa s i (uva + k) = upa s i (uva + k')"
  shows "k = k'"
proof -
  note a = urange_slot [OF r k(1)] and b = urange_slot [OF r k(2)]
  have "frame (upte s i (uva + k)) = frame (upte s i (uva + k'))" using eq frame_upa by metis
  then have "Pg i (pdx (uva + k)) (ptx (uva + k)) = Pg i (pdx (uva + k')) (ptx (uva + k'))"
    using vm_inv_inj [OF inv a(2) b(2)] a(3) b(3) by (simp add: upte_def del: entry.simps)
  then have f: "frame (uva + k) = frame (uva + k')"
    using pdx_ptx [of "uva + k"] pdx_ptx [of "uva + k'"] by simp
  have m: "unat (uva + k) mod 4096 = unat (uva + k') mod 4096" using eq upa_mod by metis
  have d: "unat (uva + k) div 4096 = unat (uva + k') div 4096"
    using arg_cong [OF f, of unat] unfolding unat_frame .
  show ?thesis using div_mod_eqI [OF d m] by (metis add_left_cancel word_unat_eq_iff)
qed

text \<open>
  The memory \<open>M\<close> holds \<open>f k\<close> at the physical address of byte \<open>k\<close> of the range and is
  otherwise the memory of \<open>s\<close>.
\<close>

definition user_written :: "'z pt_state_scheme \<Rightarrow> u32 \<Rightarrow> u32 \<Rightarrow> nat \<Rightarrow> (u32 \<Rightarrow> u8) \<Rightarrow> memory \<Rightarrow> bool" where
  "user_written s i uva n f M \<longleftrightarrow>
     (\<forall>k. unat k < n \<longrightarrow> M (upa s i (uva + k)) = f k) \<and>
     (\<forall>a. (\<forall>k. unat k < n \<longrightarrow> a \<noteq> upa s i (uva + k)) \<longrightarrow> M a = mem s a)"

lemma user_written_inv:
  assumes inv: "vm_inv s" and r: "urange s i uva n" and w: "user_written s i uva n f M"
  shows "vm_inv (s\<lparr>mem := M\<rparr>)" "\<And>x. user_slot x \<Longrightarrow> entry (s\<lparr>mem := M\<rparr>) x = entry s x"
proof -
  have "M a = mem s a" if "table_byte s a" for a
    using w urange_upa(3) [OF inv r] frame_upa that unfolding user_written_def by metis
  then show "vm_inv (s\<lparr>mem := M\<rparr>)" "\<And>x. user_slot x \<Longrightarrow> entry (s\<lparr>mem := M\<rparr>) x = entry s x"
    using vm_inv_mem [OF inv, of M] by blast+
qed

text \<open>Writing the first chunk and then the rest of a range.\<close>

lemma user_written_chunk:
  assumes inv: "vm_inv s" and r: "urange s i uva (unat len)" and len: "len \<noteq> 0"
  defines "sz \<equiv> chunk len (upa s i uva)"
  assumes M1: "user_written s i uva (unat sz) f M1"
    and M: "user_written (s\<lparr>mem := M1\<rparr>) i (uva + sz) (unat (len - sz)) (\<lambda>k. f (sz + k)) M"
  shows "user_written s i uva (unat len) f M"
proof -
  note c = urange_chunk [OF r len, folded sz_def]
  have "urange s i uva (unat sz)" using r c(2) by (auto simp: urange_def)
  note s1 = user_written_inv [OF inv this M1]
  have u: "upa (s\<lparr>mem := M1\<rparr>) i (uva + sz + k) = upa s i (uva + sz + k)" if "unat k < unat (len - sz)" for k
    using urange_mem(2) [OF c(5) s1(2) that] .
  have split: "k = sz + (k - sz)" "unat (k - sz) = unat k - unat sz" if "unat sz \<le> unat k" for k
    using that by (simp_all add: unat_sub_exact word_le_nat_alt)
  have rest: "M (upa s i (uva + k)) = f k" if "unat sz \<le> unat k" "unat k < unat len" for k
  proof -
    have lt: "unat (k - sz) < unat (len - sz)" using split(2) [OF that(1)] c(2,3) that by simp
    then have "M (upa s i (uva + sz + (k - sz))) = f (sz + (k - sz))"
      using M u [OF lt] unfolding user_written_def by metis
    then show ?thesis by simp
  qed
  have sum: "unat (sz + k) = unat sz + unat k" if "unat k < unat (len - sz)" for k
    using that c(2,3) unat_lt2p [of len] by (intro unat_add_exact) simp
  have out: "M a = M1 a" if "\<And>k. unat sz \<le> unat k \<Longrightarrow> unat k < unat len \<Longrightarrow> a \<noteq> upa s i (uva + k)" for a
  proof -
    have "a \<noteq> upa s i (uva + sz + k)" if "unat k < unat (len - sz)" for k
      using \<open>\<And>k. unat sz \<le> unat k \<Longrightarrow> unat k < unat len \<Longrightarrow> a \<noteq> upa s i (uva + k)\<close> [of "sz + k"]
        sum [OF that] that c(3) by (simp add: add.assoc)
    then show ?thesis using M u unfolding user_written_def by simp
  qed
  have first: "M (upa s i (uva + k)) = f k" if "unat k < unat sz" for k
  proof -
    have "M (upa s i (uva + k)) = M1 (upa s i (uva + k))"
      using upa_inj [OF inv r, of k] that c(2) by (intro out) force
    then show ?thesis using M1 that by (simp add: user_written_def)
  qed
  have "M a = mem s a" if "\<forall>k. unat k < unat len \<longrightarrow> a \<noteq> upa s i (uva + k)" for a
    using that c(2) M1 out [of a] by (auto simp: user_written_def)
  then show ?thesis using first rest unfolding user_written_def by (meson not_le)
qed

lemma chunk_written:
  assumes r: "urange s i uva (unat len)" and len: "len \<noteq> 0"
  defines "sz \<equiv> chunk len (upa s i uva)"
  assumes M: "\<And>a. M a = (if unat (a - upa s i uva) < unat sz then f (a - upa s i uva) else mem s a)"
  shows "user_written s i uva (unat sz) f M"
proof -
  note c = urange_chunk [OF r len, folded sz_def]
  have "M a = mem s a" if "\<forall>k. unat k < unat sz \<longrightarrow> a \<noteq> upa s i (uva + k)" for a
    using that c(6) [of "a - upa s i uva"] M [of a] by (auto dest: spec [of _ "a - upa s i uva"])
  then show ?thesis using c(6) M by (simp add: user_written_def)
qed

lemma pt_copyout_loop_ok:
  assumes "vm_inv s" "urange s i uva (unat len)" "kbuf s kva (unat len)"
  shows "\<exists>M. pt_copyout_loop kva i uva len c s = Inr (c + len, s\<lparr>mem := M\<rparr>) \<and>
     user_written s i uva (unat len) (\<lambda>k. mem s (kva + k)) M"
  using assms
proof (induction "unat len" arbitrary: uva kva len c s rule: less_induct)
  case less
  note inv = less.prems(1) and r = less.prems(2) and b = less.prems(3)
  show ?case
  proof (cases "len = 0")
    case True
    then show ?thesis by (intro exI [of _ "mem s"]) (simp add: pt_copyout_loop.simps user_written_def)
  next
    case False
    define pa where "pa = upa s i uva"
    define sz where "sz = chunk len pa"
    note c = urange_chunk [OF r False, folded pa_def, folded sz_def]
    note pa = urange_chunk_upa [OF inv r False, folded pa_def, folded sz_def]
    have bk: "unat kva + unat len \<le> 0x40000000" using b unfolding kbuf_def unat_VM_USERLO by blast
    define M1 where "M1 = blit (mem s) pa kva (unat sz)"
    have cp: "memcpy pa kva sz (mem s) = M1"
      using pa(2) bk c(2) by (simp add: memcpy_def M1_def memmove_blit)
    have w1: "user_written s i uva (unat sz) (\<lambda>k. mem s (kva + k)) M1"
      unfolding sz_def pa_def by (rule chunk_written [OF r False])
        (simp add: M1_def blit_def sz_def pa_def)
    have "urange s i uva (unat sz)" using r c(2) by (auto simp: urange_def)
    note s1 = user_written_inv [OF inv this w1]
    let ?s = "s\<lparr>mem := M1\<rparr>"
    have "unat (kva + sz) = unat kva + unat sz" using bk c(2) by (intro unat_add_exact) simp
    then have kb: "kbuf ?s (kva + sz) (unat (len - sz))" using b c(2,3) by (auto simp: kbuf_def)
    have "unat (len - sz) < unat len" using c(1-3) by simp
    then obtain M where M: "pt_copyout_loop (kva + sz) i (uva + sz) (len - sz) (c + sz) ?s =
        Inr (c + len, ?s\<lparr>mem := M\<rparr>)"
      "user_written ?s i (uva + sz) (unat (len - sz)) (\<lambda>k. mem ?s (kva + sz + k)) M"
      using less.hyps [of "len - sz" ?s "uva + sz" "kva + sz" "c + sz", OF _ s1(1) urange_mem(1) [OF c(5) s1(2)] kb]
      by auto
    have "mem ?s (kva + sz + k) = mem s (kva + (sz + k))" if "unat k < unat (len - sz)" for k
    proof -
      have "unat (sz + k) = unat sz + unat k"
        using that c(2,3) unat_lt2p [of len] by (intro unat_add_exact) simp
      then have "unat (kva + (sz + k) - kva) < unat len" using that c(2,3) by simp
      then have "unat (kva + (sz + k)) < 0x40000000" using kbuf_not_table(2) [OF inv b] by blast
      moreover have "0x40000000 \<le> unat (upa s i (uva + j))" if "unat j < unat sz" for j
        using urange_upa(1) [OF inv r, of j] that c(2) by simp
      ultimately have "M1 (kva + (sz + k)) = mem s (kva + (sz + k))"
        using w1 unfolding user_written_def by (metis not_le)
      then show ?thesis by (simp add: add.assoc)
    qed
    then have "user_written ?s i (uva + sz) (unat (len - sz)) (\<lambda>k. mem s (kva + (sz + k))) M"
      using M(2) by (simp add: user_written_def)
    then have "user_written s i uva (unat len) (\<lambda>k. mem s (kva + k)) M"
      using user_written_chunk [OF inv r False] w1 unfolding sz_def pa_def by blast
    moreover have "pt_copyout_loop kva i uva len c s = Inr (c + len, s\<lparr>mem := M\<rparr>)"
      using M(1) pa(1) False cp
      by (subst pt_copyout_loop.simps) (simp add: Let_def pa_def [symmetric] sz_def [symmetric])
    ultimately show ?thesis by blast
  qed
qed

lemma pt_memset_loop_ok:
  assumes "vm_inv s" "urange s i va (unat len)"
  shows "\<exists>M. pt_memset_loop i va ch len c s = Inr (c + len, s\<lparr>mem := M\<rparr>) \<and>
     user_written s i va (unat len) (\<lambda>_. ucast ch) M"
  using assms
proof (induction "unat len" arbitrary: va len c s rule: less_induct)
  case less
  note inv = less.prems(1) and r = less.prems(2)
  show ?case
  proof (cases "len = 0")
    case True
    then show ?thesis by (intro exI [of _ "mem s"]) (simp add: pt_memset_loop.simps user_written_def)
  next
    case False
    define pa where "pa = upa s i va"
    define sz where "sz = chunk len pa"
    note c = urange_chunk [OF r False, folded pa_def, folded sz_def]
    note pa = urange_chunk_upa [OF inv r False, folded pa_def, folded sz_def]
    define M1 where "M1 = fill (mem s) pa (ucast ch) (unat sz)"
    have w1: "user_written s i va (unat sz) (\<lambda>_. ucast ch) M1"
      unfolding sz_def pa_def by (rule chunk_written [OF r False])
        (simp add: M1_def fill_def sz_def pa_def)
    have "urange s i va (unat sz)" using r c(2) by (auto simp: urange_def)
    note s1 = user_written_inv [OF inv this w1]
    let ?s = "s\<lparr>mem := M1\<rparr>"
    have "unat (len - sz) < unat len" using c(1-3) by simp
    then obtain M where M: "pt_memset_loop i (va + sz) ch (len - sz) (c + sz) ?s = Inr (c + len, ?s\<lparr>mem := M\<rparr>)"
      "user_written ?s i (va + sz) (unat (len - sz)) (\<lambda>_. ucast ch) M"
      using less.hyps [of "len - sz" ?s "va + sz" "c + sz", OF _ s1(1) urange_mem(1) [OF c(5) s1(2)]] by auto
    then have "user_written s i va (unat len) (\<lambda>_. ucast ch) M"
      using user_written_chunk [OF inv r False] w1 unfolding sz_def pa_def by blast
    moreover have "pt_memset_loop i va ch len c s = Inr (c + len, s\<lparr>mem := M\<rparr>)"
      using M(1) pa(1) False
      by (subst pt_memset_loop.simps)
         (simp add: Let_def pa_def [symmetric] sz_def [symmetric] memset_fill M1_def [symmetric])
    ultimately show ?thesis by blast
  qed
qed

section \<open>Properties\<close>

lemma range_checks:
  assumes "urange s i uva (unat len)" "kbuf s kva (unat len)"
  shows "VM_USERLO \<le> uva" "uva + len \<le> VM_USERHI" "\<not> kva + len > VM_USERHI"
proof -
  have b: "0x40000000 \<le> unat uva" "unat uva + unat len \<le> 0xF0000000" "unat kva + unat len \<le> 0x40000000"
    using assms unfolding urange_def kbuf_def unat_VM_USERLO unat_VM_USERHI by blast+
  have "unat (uva + len) = unat uva + unat len" "unat (kva + len) = unat kva + unat len"
    using b by (simp_all add: unat_add_exact)
  then show "VM_USERLO \<le> uva" "uva + len \<le> VM_USERHI" "\<not> kva + len > VM_USERHI"
    using b by (simp_all add: word_le_nat_alt word_less_nat_alt unat_VM_USERLO unat_VM_USERHI)
qed

lemma pt_copyin_ok:
  assumes "vm_inv s" "urange s i uva (unat len)" "kbuf s kva (unat len)"
  shows "pt_copyin i uva kva len s = Inr (len, s\<lparr>mem := copied_in s i uva kva (unat len)\<rparr>)"
  using pt_copyin_loop_ok [OF assms, of 0] range_checks [OF assms(2,3)] by (simp add: pt_copyin_def)

lemma pt_copyout_ok:
  assumes "vm_inv s" "urange s i uva (unat len)" "kbuf s kva (unat len)"
  obtains M where "pt_copyout kva i uva len s = Inr (len, s\<lparr>mem := M\<rparr>)"
    "user_written s i uva (unat len) (\<lambda>k. mem s (kva + k)) M"
  using pt_copyout_loop_ok [OF assms, of 0] range_checks [OF assms(2,3)] that by (auto simp: pt_copyout_def)

lemma other_byte:
  assumes inv: "vm_inv s" and r: "urange s i uva n" and w: "user_written s i uva n f M"
    and j: "j \<noteq> 0" "j < NUM_IDS" "j \<noteq> i" "user_va va" "present s j va"
  shows "M (upa s j va) = mem s (upa s j va)"
proof -
  have sl: "user_slot (Pg j (pdx va) (ptx va))" using j by (simp add: user_va_pde ptx_less)
  have nz: "entry s (Pg j (pdx va) (ptx va)) \<noteq> 0" using j(5) by (auto simp: present_def upte_def)
  have "upa s j va \<noteq> upa s i (uva + k)" if "unat k < n" for k
  proof
    note a = urange_slot [OF r that]
    assume "upa s j va = upa s i (uva + k)"
    then have "frame (upte s j va) = frame (upte s i (uva + k))" using frame_upa by metis
    then show False using vm_inv_inj [OF inv sl a(2)] nz a(3) j(3) by (simp add: upte_def del: entry.simps)
  qed
  then show ?thesis using w unfolding user_written_def by blast
qed

text \<open>
  C4. \<^verbatim>\<open>pt_copyout\<close> on a mapped range of process \<open>i\<close> and a kernel buffer returns the length and
  the process reads the bytes of the buffer in the range, also where the range crosses pages
  that are not contiguous in physical memory. Memory changes at no other physical address,
  no page table entry changes, and no byte another process has mapped changes.
\<close>

theorem pt_copyout_correct:
  assumes "vm_inv s" "urange s i uva (unat len)" "kbuf s kva (unat len)"
  shows "\<exists>t. pt_copyout kva i uva len s = Inr (len, t) \<and> vm_inv t \<and>
     (\<forall>k. unat k < unat len \<longrightarrow> mem t (upa t i (uva + k)) = mem s (kva + k)) \<and>
     (\<forall>a. (\<forall>k. unat k < unat len \<longrightarrow> a \<noteq> upa s i (uva + k)) \<longrightarrow> mem t a = mem s a) \<and>
     (\<forall>j va. j \<noteq> 0 \<longrightarrow> j < NUM_IDS \<longrightarrow> user_va va \<longrightarrow> upte t j va = upte s j va) \<and>
     (\<forall>j va. j \<noteq> 0 \<longrightarrow> j < NUM_IDS \<longrightarrow> j \<noteq> i \<longrightarrow> user_va va \<longrightarrow> present s j va \<longrightarrow>
        mem t (upa s j va) = mem s (upa s j va))"
proof -
  obtain M where M: "pt_copyout kva i uva len s = Inr (len, s\<lparr>mem := M\<rparr>)"
    "user_written s i uva (unat len) (\<lambda>k. mem s (kva + k)) M"
    using pt_copyout_ok [OF assms] by blast
  note inv = user_written_inv [OF assms(1,2) M(2)]
  have "upte (s\<lparr>mem := M\<rparr>) j va = upte s j va" if "j \<noteq> 0" "j < NUM_IDS" "user_va va" for j va
    using inv(2) [of "Pg j (pdx va) (ptx va)"] that by (simp add: upte_def user_va_pde ptx_less)
  moreover have "mem (s\<lparr>mem := M\<rparr>) (upa (s\<lparr>mem := M\<rparr>) i (uva + k)) = mem s (kva + k)" if "unat k < unat len" for k
    using M(2) urange_mem(2) [OF assms(2) inv(2) that] that by (simp add: user_written_def)
  moreover have "mem (s\<lparr>mem := M\<rparr>) a = mem s a" if "\<forall>k. unat k < unat len \<longrightarrow> a \<noteq> upa s i (uva + k)" for a
    using M(2) that by (simp add: user_written_def)
  moreover have "mem (s\<lparr>mem := M\<rparr>) (upa s j va) = mem s (upa s j va)"
    if "j \<noteq> 0" "j < NUM_IDS" "j \<noteq> i" "user_va va" "present s j va" for j va
    using other_byte [OF assms(1,2) M(2) that] by simp
  ultimately show ?thesis using M(1) inv(1) by blast
qed

text \<open>
  C17. Bytes that \<^verbatim>\<open>pt_copyout\<close> hands to a process and \<^verbatim>\<open>pt_copyin\<close> fetches back into another
  kernel buffer arrive unchanged, and the second copy changes no byte outside that buffer.
\<close>

theorem copyout_copyin:
  assumes "vm_inv s" "urange s i uva (unat len)" "kbuf s src (unat len)" "kbuf s dst (unat len)"
  shows "\<exists>t u. pt_copyout src i uva len s = Inr (len, t) \<and> pt_copyin i uva dst len t = Inr (len, u) \<and>
     (\<forall>k. unat k < unat len \<longrightarrow> mem u (dst + k) = mem s (src + k)) \<and>
     (\<forall>a. unat len \<le> unat (a - dst) \<longrightarrow> mem u a = mem t a)"
proof -
  obtain M where M: "pt_copyout src i uva len s = Inr (len, s\<lparr>mem := M\<rparr>)"
    "user_written s i uva (unat len) (\<lambda>k. mem s (src + k)) M"
    using pt_copyout_ok [OF assms(1-3)] by blast
  note inv = user_written_inv [OF assms(1,2) M(2)]
  let ?t = "s\<lparr>mem := M\<rparr>"
  have "pt_copyin i uva dst len ?t = Inr (len, ?t\<lparr>mem := copied_in ?t i uva dst (unat len)\<rparr>)"
    using assms(4) by (intro pt_copyin_ok inv(1) urange_mem(1) [OF assms(2) inv(2)]) (simp_all add: kbuf_def)
  moreover have "copied_in ?t i uva dst (unat len) (dst + k) = mem s (src + k)" if "unat k < unat len" for k
    using that M(2) urange_mem(2) [OF assms(2) inv(2) that] by (simp add: copied_in_def user_written_def)
  moreover have "copied_in ?t i uva dst (unat len) a = M a" if "unat len \<le> unat (a - dst)" for a
    using that by (simp add: copied_in_def)
  ultimately show ?thesis using M(1) by (intro exI [of _ ?t] exI conjI) auto
qed


section \<open>Concrete copies\<close>

lemma two_procs_ranges:
  obtains s :: pt_state and kva where "vm_inv s" "urange s 1 VM_USERLO 8" "kbuf s kva 8" "kbuf s (kva + 8) 8"
    "present s 2 VM_USERLO"
proof -
  obtain s :: pt_state where s: "vm_inv s"
    "get_ptbl_entry_by_va 1 VM_USERLO s = Inr (0x40003007, s)"
    "get_ptbl_entry_by_va 2 VM_USERLO s = Inr (0x40004007, s)"
    using two_procs by metis
  have e: "upte s 1 VM_USERLO = 0x40003007" "upte s 2 VM_USERLO = 0x40004007"
    using s(2,3) by (simp_all add: upte_def NUM_IDS_def del: entry.simps)
  have "upte s 1 (VM_USERLO + k) = 0x40003007" if "unat k < 8" for k
    using upa_same_page(1) [of k VM_USERLO s 1] that e(1) by (simp add: VM_USERLO_def)
  then have r: "urange s 1 VM_USERLO 8"
    by (simp add: urange_def present_def NUM_IDS_def unat_VM_USERLO unat_VM_USERHI PTE_P_def)
  have p: "present s 2 VM_USERLO" by (simp add: present_def e PTE_P_def)
  have "\<exists>kva. kbuf s kva 8 \<and> kbuf s (kva + 8) 8"
  proof (cases "16 \<le> unat (IDPTbl_addr s)")
    case True
    then show ?thesis by (intro exI [of _ 0]) (simp add: kbuf_def unat_VM_USERLO)
  next
    case False
    then show ?thesis by (intro exI [of _ "0x1000000"]) (simp add: kbuf_def unat_VM_USERLO)
  qed
  then show thesis using that s(1) r p by blast
qed

theorem pt_copyout_correct_witness:
  "\<exists>(s :: pt_state) kva t. vm_inv s \<and> urange s 1 VM_USERLO 8 \<and> kbuf s kva 8 \<and>
     pt_copyout kva 1 VM_USERLO 8 s = Inr (8, t) \<and> mem t (upa t 1 (VM_USERLO + 5)) = mem s (kva + 5) \<and>
     mem t (upa s 2 VM_USERLO) = mem s (upa s 2 VM_USERLO)"
proof -
  obtain s :: pt_state and kva where s: "vm_inv s" "urange s 1 VM_USERLO 8" "kbuf s kva 8" "present s 2 VM_USERLO"
    using two_procs_ranges by metis
  have "user_va VM_USERLO" by (simp add: user_va_def VM_USERLO_def VM_USERHI_def)
  with pt_copyout_correct [of s 1 VM_USERLO 8 kva] s obtain t where
    "pt_copyout kva 1 VM_USERLO 8 s = Inr (8, t)"
    "\<forall>k. unat k < 8 \<longrightarrow> mem t (upa t 1 (VM_USERLO + k)) = mem s (kva + k)"
    "mem t (upa s 2 VM_USERLO) = mem s (upa s 2 VM_USERLO)"
    by (auto simp: NUM_IDS_def)
  then show ?thesis using s by (intro exI [of _ s] exI [of _ kva] exI [of _ t]) simp
qed

theorem copyout_copyin_witness:
  "\<exists>(s :: pt_state) kva t u. vm_inv s \<and> urange s 1 VM_USERLO 8 \<and> kbuf s kva 8 \<and> kbuf s (kva + 8) 8 \<and>
     pt_copyout kva 1 VM_USERLO 8 s = Inr (8, t) \<and> pt_copyin 1 VM_USERLO (kva + 8) 8 t = Inr (8, u) \<and>
     mem u (kva + 8 + 7) = mem s (kva + 7)"
proof -
  obtain s :: pt_state and kva where s: "vm_inv s" "urange s 1 VM_USERLO 8" "kbuf s kva 8" "kbuf s (kva + 8) 8"
    using two_procs_ranges by metis
  with copyout_copyin [of s 1 VM_USERLO 8 kva "kva + 8"] obtain t u where t:
    "pt_copyout kva 1 VM_USERLO 8 s = Inr (8, t)" "pt_copyin 1 VM_USERLO (kva + 8) 8 t = Inr (8, u)" and
    k: "\<forall>k. unat k < 8 \<longrightarrow> mem u (kva + 8 + k) = mem s (kva + k)"
    by auto
  have "mem u (kva + 8 + 7) = mem s (kva + 7)" using spec [OF k, of 7] by simp
  then show ?thesis using s t by blast
qed


end
