(* ===== verification/File.thy ===== *)
theory File
  imports Path UserCopy
begin

text \<open>
  Open files, \<^verbatim>\<open>kern/fs/file.c\<close>: the table of open files with their reference counts and offsets, and
  reading and writing through them. A write is cut into transactions of three blocks.
\<close>

section \<open>The file table\<close>

definition NFILE :: u32 where "NFILE = 100"

datatype ftype = FD_NONE | FD_PIPE | FD_INODE

record ofile =
  f_type :: ftype
  f_ref :: u32
  f_readable :: u8
  f_writable :: u8
  f_ip :: u32
  f_off :: u32

text \<open>
  A pointer to a file is a number as for inodes: 0 is the null pointer and \<open>i + 1\<close> points to
  entry \<open>i\<close> of the table. \<open>kern_buf\<close> is the address of the buffer of 10000 bytes and \<open>fs_first\<close>
  the static variable of \<^verbatim>\<open>sys_open\<close>.
\<close>

record file_state = ino_state +
  ftable_lock :: spinlock
  files :: "u32 \<Rightarrow> ofile"
  kern_buf :: u32
  fs_first :: bool

definition file_get :: "(ofile \<Rightarrow> 'a) \<Rightarrow> u32 \<Rightarrow> ('z file_state_scheme, 'a) kern" where
  "file_get g f = kseq (kindex NFILE (f - 1)) (kgets (\<lambda>s. g (files s (f - 1))))"

definition file_put :: "(ofile \<Rightarrow> ofile) \<Rightarrow> u32 \<Rightarrow> ('z file_state_scheme, unit) kern" where
  "file_put g f =
     kseq (kindex NFILE (f - 1)) (kmodify (\<lambda>s. s\<lparr>files := (files s)(f - 1 := g (files s (f - 1)))\<rparr>))"

definition ftable_acquire :: "('z file_state_scheme, unit) kern" where
  "ftable_acquire = klock_op spinlock_acquire ftable_lock (\<lambda>l s. s\<lparr>ftable_lock := l\<rparr>)"

definition ftable_release :: "('z file_state_scheme, unit) kern" where
  "ftable_release = klock_op spinlock_release ftable_lock (\<lambda>l s. s\<lparr>ftable_lock := l\<rparr>)"

definition file_init :: "('z file_state_scheme, unit) kern" where
  "file_init = kmodify (\<lambda>s. s\<lparr>ftable_lock := spinlock_init (ftable_lock s)\<rparr>)"

text \<open>The search of \<^verbatim>\<open>file_alloc\<close> for an entry without references, 0 when there is none.\<close>

primrec file_find :: "nat \<Rightarrow> u32 \<Rightarrow> ('z file_state_scheme, u32) kern" where
  "file_find 0 f = kret 0"
| "file_find (Suc k) f = kbind (file_get f_ref f) (\<lambda>r. if r = 0 then kret f else file_find k (f + 1))"

definition file_alloc :: "('z file_state_scheme, u32) kern" where
  "file_alloc =
     kseq ftable_acquire
    (kbind (file_find (unat NFILE) 1) (\<lambda>f.
       if f \<noteq> 0 then kseq (file_put (\<lambda>x. x\<lparr>f_ref := 1\<rparr>) f) (kseq ftable_release (kret f))
       else kseq ftable_release (kret 0)))"

definition file_dup :: "u32 \<Rightarrow> ('z file_state_scheme, u32) kern" where
  "file_dup f =
     kseq ftable_acquire
    (kbind (file_get f_ref f) (\<lambda>r.
     kseq (kguard (\<not> sint r < 1) (KERN_PANIC ''file_dup''))
    (kseq (file_put (\<lambda>x. x\<lparr>f_ref := f_ref x + 1\<rparr>) f)
    (kseq ftable_release (kret f)))))"

definition file_close :: "u32 \<Rightarrow> ('z file_state_scheme, unit) kern" where
  "file_close f =
     kseq ftable_acquire
    (kbind (file_get f_ref f) (\<lambda>r.
     kseq (kguard (\<not> sint r < 1) (KERN_PANIC ''file_close''))
    (kseq (file_put (\<lambda>x. x\<lparr>f_ref := f_ref x - 1\<rparr>) f)
    (kbind (file_get (\<lambda>x. x) f) (\<lambda>ff.
       if 0 < sint (f_ref ff) then ftable_release
       else
         kseq (file_put (\<lambda>x. x\<lparr>f_ref := 0\<rparr>) f)
        (kseq (file_put (\<lambda>x. x\<lparr>f_type := FD_NONE\<rparr>) f)
        (kseq ftable_release
        (if f_type ff = FD_INODE then
           kseq begin_trans (kseq (inode_put (f_ip ff)) commit_trans)
         else kret ()))))))))"

definition file_stat :: "u32 \<Rightarrow> u32 \<Rightarrow> ('z file_state_scheme, u32) kern" where
  "file_stat f st =
     kbind (file_get (\<lambda>x. x) f) (\<lambda>x.
       if f_type x = FD_INODE then
         kseq (inode_lock (f_ip x))
        (kseq (inode_stat (f_ip x) st)
        (kseq (inode_unlock (f_ip x)) (kret 0)))
       else kret (- 1))"

definition file_read ::
    "(u32 \<Rightarrow> 'z file_state_scheme devsw) \<Rightarrow> u32 \<Rightarrow> u32 \<Rightarrow> u32 \<Rightarrow> ('z file_state_scheme, u32) kern" where
  "file_read devsw f addr n =
     kbind (file_get (\<lambda>x. x) f) (\<lambda>x.
       if f_readable x = 0 then kret (- 1)
       else if f_type x = FD_INODE then
         kseq (inode_lock (f_ip x))
        (kbind (inode_read devsw (f_ip x) addr (f_off x) n) (\<lambda>r.
         kseq (if 0 < sint r then file_put (\<lambda>x. x\<lparr>f_off := f_off x + r\<rparr>) f else kret ())
        (kseq (inode_unlock (f_ip x)) (kret r))))
       else kfail (KERN_PANIC ''file_read''))"

text \<open>
  The size of one transaction of \<^verbatim>\<open>file_write\<close> is three blocks. The loop runs for a positive
  count only, where the order of the signed counters is that of the words, and it continues
  only when \<^verbatim>\<open>inode_write\<close> has written all the bytes asked for.
\<close>

definition write_max :: u32 where
  "write_max = (LOGSIZE - 1 - 1 - 2) div 2 * 512"

definition write_chunk :: "u32 \<Rightarrow> u32 \<Rightarrow> u32" where
  "write_chunk n i = (if n - i > write_max then write_max else n - i)"

lemma write_chunk_less: "i < n \<Longrightarrow> unat n - unat (i + write_chunk n i) < unat n - unat i"
proof -
  assume i: "i < n"
  have d: "unat (n - i) = unat n - unat i" using i by (simp add: unat_sub_exact order_less_imp_le)
  have "0 < unat (write_chunk n i)" "unat (write_chunk n i) \<le> unat n - unat i"
    using i d by (auto simp: write_chunk_def write_max_def LOGSIZE_def word_less_nat_alt)
  moreover from this(2) have "unat (i + write_chunk n i) = unat i + unat (write_chunk n i)"
    using i unat_lt2p [of n] by (intro unat_add_exact) (simp add: word_less_nat_alt)
  ultimately show ?thesis using i by (simp add: word_less_nat_alt)
qed

function file_write_loop ::
    "(u32 \<Rightarrow> 'z file_state_scheme devsw) \<Rightarrow> u32 \<Rightarrow> u32 \<Rightarrow> u32 \<Rightarrow> u32 \<Rightarrow> ('z file_state_scheme, u32) kern" where
  "file_write_loop devsw f addr n i =
     (if i < n then
        let n1 = write_chunk n i in
        kseq begin_trans
       (kbind (file_get (\<lambda>x. x) f) (\<lambda>x.
        kseq (inode_lock (f_ip x))
       (kbind (inode_write devsw (f_ip x) (addr + i) (f_off x) n1) (\<lambda>r.
        kseq (if 0 < sint r then file_put (\<lambda>x. x\<lparr>f_off := f_off x + r\<rparr>) f else kret ())
       (kseq (inode_unlock (f_ip x))
       (kseq commit_trans
       (if sint r < 0 then kret i
        else kseq (kguard (r = n1) (KERN_PANIC ''short file_write''))
               (file_write_loop devsw f addr n (i + n1)))))))))
      else kret i)"
  by pat_completeness auto
termination
  by (relation "measure (\<lambda>(devsw, f, addr, n, i). unat n - unat i)") (auto simp: write_chunk_less)

declare file_write_loop.simps [simp del]

definition file_write ::
    "(u32 \<Rightarrow> 'z file_state_scheme devsw) \<Rightarrow> u32 \<Rightarrow> u32 \<Rightarrow> u32 \<Rightarrow> ('z file_state_scheme, u32) kern" where
  "file_write devsw f addr n =
     kbind (file_get (\<lambda>x. x) f) (\<lambda>x.
       if f_writable x = 0 then kret (- 1)
       else if f_type x = FD_INODE then
         kbind (if 0 < sint n then file_write_loop devsw f addr n 0 else kret 0) (\<lambda>i.
           kret (if i = n then n else - 1))
       else kfail (KERN_PANIC ''file_write''))"

end
