(* ===== verification/SysFile.thy ===== *)
theory SysFile
  imports File
begin

text \<open>
  The system calls of the file system, \<^verbatim>\<open>kern/fs/sysfile.c\<close>, with the accessors of the trap frame
  of \<^verbatim>\<open>kern/trap/TSyscallArg\<close>. A handler takes the trap frame and returns it with the error
  number and the result it has stored there.
\<close>

section \<open>Trap frames\<close>

record pushregs =
  r_edi :: u32
  r_esi :: u32
  r_ebp :: u32
  r_oesp :: u32
  r_ebx :: u32
  r_edx :: u32
  r_ecx :: u32
  r_eax :: u32

record tf_t =
  tf_regs :: pushregs
  tf_es :: u16
  tf_ds :: u16
  tf_trapno :: u32
  tf_err :: u32
  tf_eip :: u32
  tf_cs :: u16
  tf_eflags :: u32
  tf_esp :: u32
  tf_ss :: u16

definition syscall_get_arg1 :: "tf_t \<Rightarrow> u32" where
  "syscall_get_arg1 tf = r_eax (tf_regs tf)"

definition syscall_get_arg2 :: "tf_t \<Rightarrow> u32" where
  "syscall_get_arg2 tf = r_ebx (tf_regs tf)"

definition syscall_get_arg3 :: "tf_t \<Rightarrow> u32" where
  "syscall_get_arg3 tf = r_ecx (tf_regs tf)"

definition syscall_get_arg4 :: "tf_t \<Rightarrow> ('z thr_state_scheme, u32) kern" where
  "syscall_get_arg4 tf = kbind get_curid (\<lambda>cur_pid. kret (r_edx (tf_regs tf)))"

definition syscall_get_arg5 :: "tf_t \<Rightarrow> ('z thr_state_scheme, u32) kern" where
  "syscall_get_arg5 tf = kbind get_curid (\<lambda>cur_pid. kret (r_esi (tf_regs tf)))"

definition syscall_get_arg6 :: "tf_t \<Rightarrow> ('z thr_state_scheme, u32) kern" where
  "syscall_get_arg6 tf = kbind get_curid (\<lambda>cur_pid. kret (r_edi (tf_regs tf)))"

definition syscall_set_errno :: "u32 \<Rightarrow> tf_t \<Rightarrow> tf_t" where
  "syscall_set_errno errno tf = tf\<lparr>tf_regs := tf_regs tf\<lparr>r_eax := errno\<rparr>\<rparr>"

definition syscall_set_retval1 :: "u32 \<Rightarrow> tf_t \<Rightarrow> tf_t" where
  "syscall_set_retval1 retval tf = tf\<lparr>tf_regs := tf_regs tf\<lparr>r_ebx := retval\<rparr>\<rparr>"

definition syscall_set_retval2 :: "u32 \<Rightarrow> tf_t \<Rightarrow> tf_t" where
  "syscall_set_retval2 retval tf = tf\<lparr>tf_regs := tf_regs tf\<lparr>r_ecx := retval\<rparr>\<rparr>"

definition syscall_set_retval3 :: "u32 \<Rightarrow> tf_t \<Rightarrow> tf_t" where
  "syscall_set_retval3 retval tf = tf\<lparr>tf_regs := tf_regs tf\<lparr>r_edx := retval\<rparr>\<rparr>"

definition syscall_set_retval4 :: "u32 \<Rightarrow> tf_t \<Rightarrow> tf_t" where
  "syscall_set_retval4 retval tf = tf\<lparr>tf_regs := tf_regs tf\<lparr>r_esi := retval\<rparr>\<rparr>"

definition syscall_set_retval5 :: "u32 \<Rightarrow> tf_t \<Rightarrow> tf_t" where
  "syscall_set_retval5 retval tf = tf\<lparr>tf_regs := tf_regs tf\<lparr>r_edi := retval\<rparr>\<rparr>"

text \<open>The error numbers the calls use, by their position in \<^verbatim>\<open>enum __error_nr\<close>.\<close>

definition E_SUCC :: u32 where "E_SUCC = 0"
definition E_INVAL_ADDR :: u32 where "E_INVAL_ADDR = 4"
definition E_DISK_OP :: u32 where "E_DISK_OP = 13"
definition E_NEXIST :: u32 where "E_NEXIST = 26"
definition E_CREATE :: u32 where "E_CREATE = 27"
definition E_BADF :: u32 where "E_BADF = 29"

definition O_RDONLY :: u32 where "O_RDONLY = 0x000"
definition O_WRONLY :: u32 where "O_WRONLY = 0x001"
definition O_RDWR :: u32 where "O_RDWR = 0x002"
definition O_CREATE :: u32 where "O_CREATE = 0x200"

text \<open>A handler that ends with an error number alone, or with a result and an error number.\<close>

definition sys_err :: "u32 \<Rightarrow> tf_t \<Rightarrow> ('s, tf_t) kern" where
  "sys_err e tf = kret (syscall_set_errno e tf)"

definition sys_ret :: "u32 \<Rightarrow> u32 \<Rightarrow> tf_t \<Rightarrow> ('s, tf_t) kern" where
  "sys_ret r e tf = kret (syscall_set_errno e (syscall_set_retval1 r tf))"

section \<open>File descriptors\<close>

primrec fdalloc_loop :: "nat \<Rightarrow> u32 \<Rightarrow> u32 \<Rightarrow> u32 \<Rightarrow> ('z file_state_scheme, u32) kern" where
  "fdalloc_loop 0 curid f idx = kret (- 1)"
| "fdalloc_loop (Suc k) curid f idx =
     kbind (tcb_get_openfiles curid) (\<lambda>fds.
       if fds idx = 0 then kseq (tcb_set_openfiles curid idx f) (kret idx)
       else fdalloc_loop k curid f (idx + 1))"

definition fdalloc :: "u32 \<Rightarrow> ('z file_state_scheme, u32) kern" where
  "fdalloc f = kbind get_curid (\<lambda>curid. fdalloc_loop (unat NOFILE) curid f 0)"

definition kbuf_acquire :: "('z file_state_scheme, unit) kern" where
  "kbuf_acquire = klock_op spinlock_acquire buf_lock (\<lambda>l s. s\<lparr>buf_lock := l\<rparr>)"

definition kbuf_release :: "('z file_state_scheme, unit) kern" where
  "kbuf_release = klock_op spinlock_release buf_lock (\<lambda>l s. s\<lparr>buf_lock := l\<rparr>)"

text \<open>The check that the descriptor has a file with an inode.\<close>

definition no_inode :: "u32 \<Rightarrow> ('z file_state_scheme, bool) kern" where
  "no_inode fp = (if fp = 0 then kret True else kbind (file_get f_ip fp) (\<lambda>ip. kret (ip = 0)))"

definition sys_read :: "(u32 \<Rightarrow> 'z file_state_scheme devsw) \<Rightarrow> tf_t \<Rightarrow> ('z file_state_scheme, tf_t) kern" where
  "sys_read devsw tf =
     kbind get_curid (\<lambda>pid.
     kseq kbuf_acquire
    (kbind (syscall_get_arg4 tf) (\<lambda>n.
     let fd = syscall_get_arg2 tf; user_buf = syscall_get_arg3 tf in
     if sint fd < 0 \<or> sint fd \<ge> sint NOFILE then
       kseq kbuf_release (sys_ret (- 1) E_BADF tf)
     else if user_buf < VM_USERLO \<or> user_buf + n > VM_USERHI \<or> n > 10000 then
       kseq kbuf_release (sys_ret (- 1) E_INVAL_ADDR tf)
     else
       kbind (tcb_get_openfiles pid) (\<lambda>fds.
       kbind (no_inode (fds fd)) (\<lambda>bad.
         if bad then kseq kbuf_release (sys_ret (- 1) E_BADF tf)
         else
           kbind (kgets kern_buf) (\<lambda>kb.
           kbind (file_read devsw (fds fd) kb n) (\<lambda>size_read.
           kseq (if 0 < sint size_read then
               kbind get_curid (\<lambda>pid. kbind (pt_copyout kb pid user_buf size_read) (\<lambda>_. kret ()))
             else kret ())
          (kseq kbuf_release (sys_ret size_read E_SUCC tf)))))))))"

definition sys_write :: "(u32 \<Rightarrow> 'z file_state_scheme devsw) \<Rightarrow> tf_t \<Rightarrow> ('z file_state_scheme, tf_t) kern" where
  "sys_write devsw tf =
     kbind get_curid (\<lambda>pid.
     kseq kbuf_acquire
    (kbind (syscall_get_arg4 tf) (\<lambda>n.
     let fd = syscall_get_arg2 tf; user_buf = syscall_get_arg3 tf in
     if sint fd < 0 \<or> sint fd \<ge> sint NOFILE then
       kseq kbuf_release (sys_ret (- 1) E_BADF tf)
     else if user_buf < VM_USERLO \<or> user_buf + n > VM_USERHI \<or> n > 10000 then
       kseq kbuf_release (sys_ret (- 1) E_INVAL_ADDR tf)
     else
       kbind (tcb_get_openfiles pid) (\<lambda>fds.
       kbind (no_inode (fds fd)) (\<lambda>bad.
         if bad then kseq kbuf_release (sys_ret (- 1) E_BADF tf)
         else
           kbind (kgets kern_buf) (\<lambda>kb.
           kseq (pt_copyin pid user_buf kb n)
          (kbind (file_write devsw (fds fd) kb n) (\<lambda>size_write.
           kseq kbuf_release (sys_ret size_write E_SUCC tf)))))))))"

definition sys_close :: "tf_t \<Rightarrow> ('z file_state_scheme, tf_t) kern" where
  "sys_close tf =
     kbind get_curid (\<lambda>pid.
     let fd = syscall_get_arg2 tf in
     if fd \<ge> NOFILE then sys_ret (- 1) E_BADF tf
     else
       kbind (tcb_get_openfiles pid) (\<lambda>fds.
         if fds fd = 0 then sys_ret (- 1) E_BADF tf
         else
           kseq (file_close (fds fd))
          (kseq (tcb_set_openfiles pid fd 0) (sys_ret 0 E_SUCC tf))))"

text \<open>The status is stored in the kernel's copy of the structure only.\<close>

definition sys_fstat :: "locals \<Rightarrow> tf_t \<Rightarrow> ('z file_state_scheme, tf_t) kern" where
  "sys_fstat L tf =
     (let fd = syscall_get_arg2 tf; user_stp = syscall_get_arg3 tf in
      if sint fd < 0 \<or> sint fd \<ge> sint NOFILE \<or> user_stp < VM_USERLO \<or> user_stp + 20 > VM_USERHI then
        sys_ret (- 1) E_BADF tf
      else
        kbind get_curid (\<lambda>pid.
        kbind (tcb_get_openfiles pid) (\<lambda>fds.
          if fds fd = 0 then sys_ret (- 1) E_BADF tf
          else
            kbind get_curid (\<lambda>pid.
            kseq (pt_copyin pid user_stp (stat_buf L) 20)
           (kbind (file_stat (fds fd) (stat_buf L)) (\<lambda>st.
            sys_ret st (if st = 0 then E_SUCC else E_BADF) tf))))))"

section \<open>Links and directories\<close>

text \<open>A path copied from the user: at most 127 bytes, and a terminating zero.\<close>

definition path_len :: "u32 \<Rightarrow> u32" where
  "path_len n = (if n < 128 then n else 127)"

definition copy_path :: "u32 \<Rightarrow> u32 \<Rightarrow> u32 \<Rightarrow> ('z file_state_scheme, unit) kern" where
  "copy_path uva kva n = kbind get_curid (\<lambda>pid. kseq (pt_copyin pid uva kva n) (kret ()))"

definition put_nul :: "u32 \<Rightarrow> ('z file_state_scheme, unit) kern" where
  "put_nul a = kmodify (\<lambda>s. s\<lparr>mem := (mem s)(a := 0)\<rparr>)"

definition link_bad :: "u32 \<Rightarrow> tf_t \<Rightarrow> ('z file_state_scheme, tf_t) kern" where
  "link_bad ip tf =
     kseq (inode_lock ip)
    (kseq (ino_put (\<lambda>x. x\<lparr>i_nlink := i_nlink x - 1\<rparr>) ip)
    (kseq (inode_update ip)
    (kseq (inode_unlockput ip)
    (kseq commit_trans (sys_err E_DISK_OP tf)))))"

definition sys_link ::
    "(u32 \<Rightarrow> 'z file_state_scheme devsw) \<Rightarrow> locals \<Rightarrow> tf_t \<Rightarrow> ('z file_state_scheme, tf_t) kern" where
  "sys_link devsw L tf =
     kbind (syscall_get_arg4 tf) (\<lambda>old_len.
     kbind (syscall_get_arg5 tf) (\<lambda>new_len.
     kseq (copy_path (syscall_get_arg2 tf) (call_old L) (path_len old_len))
    (kseq (copy_path (syscall_get_arg3 tf) (call_new L) (path_len new_len))
    (kseq (put_nul (call_old L + path_len old_len))
    (kseq (put_nul (call_new L + path_len new_len))
    (kbind (namei devsw L (call_old L)) (\<lambda>ip.
       if ip = 0 then sys_err E_NEXIST tf
       else
         kseq begin_trans
        (kseq (inode_lock ip)
        (kbind (ino_get i_type ip) (\<lambda>ty.
           if ty = T_DIR then
             kseq (inode_unlockput ip) (kseq commit_trans (sys_err E_DISK_OP tf))
           else
             kseq (ino_put (\<lambda>x. x\<lparr>i_nlink := i_nlink x + 1\<rparr>) ip)
            (kseq (inode_update ip)
            (kseq (inode_unlock ip)
            (kbind (nameiparent devsw L (call_new L) (call_name L)) (\<lambda>dp.
               if dp = 0 then link_bad ip tf
               else
                 kseq (inode_lock dp)
                (kbind (ino_get i_dev dp) (\<lambda>dd.
                 kbind (ino_get (\<lambda>x. x) ip) (\<lambda>x.
                 kbind (if dd \<noteq> i_dev x then kret True
                        else kbind (dir_link devsw L dp (call_name L) (i_inum x)) (\<lambda>r. kret (sint r < 0))) (\<lambda>bad.
                   if bad then kseq (inode_unlockput dp) (link_bad ip tf)
                   else
                     kseq (inode_unlockput dp)
                    (kseq (inode_put ip)
                    (kseq commit_trans (sys_err E_SUCC tf)))))))))))))))))))))"

text \<open>The offset is a signed integer, compared with the size as an unsigned one.\<close>

primrec isdirempty_loop ::
    "nat \<Rightarrow> (u32 \<Rightarrow> 'z file_state_scheme devsw) \<Rightarrow> locals \<Rightarrow> u32 \<Rightarrow> u32 \<Rightarrow> ('z file_state_scheme, bool) kern" where
  "isdirempty_loop 0 devsw L dp off = kfail Spin"
| "isdirempty_loop (Suc k) devsw L dp off =
     kbind (ino_get i_size dp) (\<lambda>sz.
       if off < sz then
         kbind (inode_read devsw dp (empty_de L) off 16) (\<lambda>r.
         kseq (kguard (r = 16) (KERN_PANIC ''isdirempty: readi''))
        (kbind (kgets (\<lambda>s. load16 (mem s) (empty_de L))) (\<lambda>inum.
           if inum \<noteq> 0 then kret False
           else if off < 0x7ffffff0 then isdirempty_loop k devsw L dp (off + 16)
           else kfail IntOverflow)))
       else kret True)"

definition isdirempty ::
    "(u32 \<Rightarrow> 'z file_state_scheme devsw) \<Rightarrow> locals \<Rightarrow> u32 \<Rightarrow> ('z file_state_scheme, bool) kern" where
  "isdirempty devsw L dp = isdirempty_loop dir_fuel devsw L dp 32"

definition unlink_bad :: "u32 \<Rightarrow> tf_t \<Rightarrow> ('z file_state_scheme, tf_t) kern" where
  "unlink_bad dp tf = kseq (inode_unlockput dp) (kseq commit_trans (sys_err E_DISK_OP tf))"

definition sys_unlink ::
    "(u32 \<Rightarrow> 'z file_state_scheme devsw) \<Rightarrow> locals \<Rightarrow> tf_t \<Rightarrow> ('z file_state_scheme, tf_t) kern" where
  "sys_unlink devsw L tf =
     (let n = path_len (syscall_get_arg3 tf); name = call_name L; de = unlink_de L in
      kseq (copy_path (syscall_get_arg2 tf) (call_path L) n)
     (kseq (put_nul (call_path L + n))
     (kbind (nameiparent devsw L (call_path L) name) (\<lambda>dp.
        if dp = 0 then sys_err E_DISK_OP tf
        else
          kseq begin_trans
         (kseq (inode_lock dp)
         (kbind (dir_namecmp name (dot L)) (\<lambda>c1.
          kbind (if c1 = 0 then kret 0 else dir_namecmp name (dotdot L)) (\<lambda>c2.
            if c2 = 0 then unlink_bad dp tf
            else kbind (dir_lookup devsw L dp name (Some 0)) (\<lambda>(ip, poff).
              if ip = 0 then unlink_bad dp tf
              else
                kseq (inode_lock ip)
               (kbind (ino_get (\<lambda>x. x) ip) (\<lambda>x.
                kseq (kguard (\<not> sint (i_nlink x) < 1) (KERN_PANIC ''unlink: nlink < 1''))
               (kbind (if i_type x = T_DIR then isdirempty devsw L ip else kret True) (\<lambda>ok.
                  if \<not> ok then kseq (inode_unlockput ip) (unlink_bad dp tf)
                  else
                    kseq (kmodify (\<lambda>s. s\<lparr>mem := memset de 0 16 (mem s)\<rparr>))
                   (kbind (case poff of None \<Rightarrow> kfail Uninitialised | Some off \<Rightarrow> inode_write devsw dp de off 16) (\<lambda>r.
                    kseq (kguard (r = 16) (KERN_PANIC ''unlink: writei''))
                   (kbind (ino_get i_type ip) (\<lambda>ty.
                    kseq (if ty = T_DIR then
                        kseq (ino_put (\<lambda>x. x\<lparr>i_nlink := i_nlink x - 1\<rparr>) dp) (inode_update dp)
                      else kret ())
                   (kseq (inode_unlockput dp)
                   (kseq (ino_put (\<lambda>x. x\<lparr>i_nlink := i_nlink x - 1\<rparr>) ip)
                   (kseq (inode_update ip)
                   (kseq (inode_unlockput ip)
                   (kseq commit_trans (sys_err E_SUCC tf)))))))))))))))))))))))"

section \<open>Creation and opening\<close>

definition create ::
    "(u32 \<Rightarrow> 'z file_state_scheme devsw) \<Rightarrow> locals \<Rightarrow> u32 \<Rightarrow> u16 \<Rightarrow> u16 \<Rightarrow> u16 \<Rightarrow> ('z file_state_scheme, u32) kern" where
  "create devsw L path ty major minor =
     kbind (nameiparent devsw L path (create_name L)) (\<lambda>dp.
       if dp = 0 then kret 0
       else
         kseq (inode_lock dp)
        (kbind (dir_lookup devsw L dp (create_name L) (Some 0)) (\<lambda>(ip, _).
           if ip \<noteq> 0 then
             kseq (inode_unlockput dp)
            (kseq (inode_lock ip)
            (kbind (ino_get i_type ip) (\<lambda>ity.
               if ty = T_FILE \<and> ity = T_FILE then kret ip
               else kseq (inode_unlockput ip) (kret 0))))
           else
             kbind (ino_get i_dev dp) (\<lambda>d.
             kbind (inode_alloc d ty) (\<lambda>ip.
             kseq (kguard (ip \<noteq> 0) (KERN_PANIC ''create: ialloc''))
            (kseq (inode_lock ip)
            (kseq (ino_put (\<lambda>x. x\<lparr>i_major := major\<rparr>) ip)
            (kseq (ino_put (\<lambda>x. x\<lparr>i_minor := minor\<rparr>) ip)
            (kseq (ino_put (\<lambda>x. x\<lparr>i_nlink := 1\<rparr>) ip)
            (kseq (inode_update ip)
            (kseq (if ty = T_DIR then
                kseq (ino_put (\<lambda>x. x\<lparr>i_nlink := i_nlink x + 1\<rparr>) dp)
               (kseq (inode_update dp)
               (kbind (ino_get i_inum ip) (\<lambda>n.
                kbind (dir_link devsw L ip (dot L) n) (\<lambda>r.
                kseq (kguard (\<not> sint r < 0) (KERN_PANIC ''create dots''))
               (kbind (ino_get i_inum dp) (\<lambda>n.
                kbind (dir_link devsw L ip (dotdot L) n) (\<lambda>r.
                kguard (\<not> sint r < 0) (KERN_PANIC ''create dots''))))))))
              else kret ())
            (kbind (ino_get i_inum ip) (\<lambda>n.
             kbind (dir_link devsw L dp (create_name L) n) (\<lambda>r.
             kseq (kguard (\<not> sint r < 0) (KERN_PANIC ''create: dir_link''))
            (kseq (inode_unlockput dp) (kret ip))))))))))))))))"

text \<open>The last part of \<^verbatim>\<open>sys_open\<close>: a file and a descriptor for the inode.\<close>

definition open_file :: "u32 \<Rightarrow> u32 \<Rightarrow> tf_t \<Rightarrow> ('z file_state_scheme, tf_t) kern" where
  "open_file omode ip tf =
     kbind file_alloc (\<lambda>f.
     kbind (if f = 0 then kret (- 1) else fdalloc f) (\<lambda>fd.
       if f = 0 \<or> sint fd < 0 then
         kseq (if f \<noteq> 0 then file_close f else kret ())
        (kseq (inode_unlockput ip) (sys_ret (- 1) E_DISK_OP tf))
       else
         kseq (inode_unlock ip)
        (kseq (file_put (\<lambda>x. x\<lparr>f_type := FD_INODE\<rparr>) f)
        (kseq (file_put (\<lambda>x. x\<lparr>f_ip := ip\<rparr>) f)
        (kseq (file_put (\<lambda>x. x\<lparr>f_off := 0\<rparr>) f)
        (kseq (file_put (\<lambda>x. x\<lparr>f_readable := (if omode AND O_WRONLY = 0 then 1 else 0)\<rparr>) f)
        (kseq (file_put (\<lambda>x. x\<lparr>f_writable := (if omode AND O_WRONLY \<noteq> 0 \<or> omode AND O_RDWR \<noteq> 0 then 1 else 0)\<rparr>) f)
        (sys_ret fd E_SUCC tf))))))))"

definition sys_open ::
    "(u32 \<Rightarrow> 'z file_state_scheme devsw) \<Rightarrow> locals \<Rightarrow> tf_t \<Rightarrow> ('z file_state_scheme, tf_t) kern" where
  "sys_open devsw L tf =
     kbind (kgets fs_first) (\<lambda>first.
     kseq (if first then kseq (kmodify (\<lambda>s. s\<lparr>fs_first := False\<rparr>)) log_init else kret ())
    (kbind (syscall_get_arg4 tf) (\<lambda>n.
     kseq (copy_path (syscall_get_arg2 tf) (call_path L) (path_len n))
    (kseq (put_nul (call_path L + path_len n))
    (let omode = syscall_get_arg3 tf in
     kseq (kguard (call_path L \<noteq> 0) (KERN_PANIC ''sys_open: no path''))
    (if omode AND O_CREATE \<noteq> 0 then
       kseq begin_trans
      (kbind (create devsw L (call_path L) T_FILE 0 0) (\<lambda>ip.
       kseq commit_trans
         (if ip = 0 then sys_ret (- 1) E_CREATE tf else open_file omode ip tf)))
     else
       kbind (namei devsw L (call_path L)) (\<lambda>ip.
         if ip = 0 then sys_ret (- 1) E_NEXIST tf
         else
           kseq (inode_lock ip)
          (kbind (ino_get i_type ip) (\<lambda>ty.
             if ty = T_DIR \<and> omode \<noteq> O_RDONLY then
               kseq (inode_unlockput ip) (sys_ret (- 1) E_DISK_OP tf)
             else open_file omode ip tf)))))))))"

definition sys_mkdir ::
    "(u32 \<Rightarrow> 'z file_state_scheme devsw) \<Rightarrow> locals \<Rightarrow> tf_t \<Rightarrow> ('z file_state_scheme, tf_t) kern" where
  "sys_mkdir devsw L tf =
     (let n = path_len (syscall_get_arg3 tf) in
      kseq (copy_path (syscall_get_arg2 tf) (call_path L) n)
     (kseq (put_nul (call_path L + n))
     (kseq begin_trans
     (kbind (create devsw L (call_path L) T_DIR 0 0) (\<lambda>ip.
        if ip = 0 then kseq commit_trans (sys_err E_DISK_OP tf)
        else kseq (inode_unlockput ip) (kseq commit_trans (sys_err E_SUCC tf)))))))"

definition sys_chdir ::
    "(u32 \<Rightarrow> 'z file_state_scheme devsw) \<Rightarrow> locals \<Rightarrow> tf_t \<Rightarrow> ('z file_state_scheme, tf_t) kern" where
  "sys_chdir devsw L tf =
     kbind get_curid (\<lambda>pid.
     let n = path_len (syscall_get_arg3 tf) in
     kseq (copy_path (syscall_get_arg2 tf) (call_path L) n)
    (kseq (put_nul (call_path L + n))
    (kbind (namei devsw L (call_path L)) (\<lambda>ip.
       if ip = 0 then sys_err E_DISK_OP tf
       else
         kseq (inode_lock ip)
        (kbind (ino_get i_type ip) (\<lambda>ty.
           if ty \<noteq> T_DIR then kseq (inode_unlockput ip) (sys_err E_DISK_OP tf)
           else
             kseq (inode_unlock ip)
            (kbind (tcb_get_cwd pid) (\<lambda>d.
             kseq (inode_put d)
            (kseq (tcb_set_cwd pid ip) (sys_err E_SUCC tf))))))))))"

end
