(* ===== verification/InodeCache.thy ===== *)
theory InodeCache
  imports Inode
begin

text \<open>
  The cache of inodes stays well formed: no inode is in two entries, and no reference count is
  negative. The routines below the inodes cannot touch the cache, which is shown by framing each
  of them.
\<close>

section \<open>Frames of the lower layers\<close>

lemma kframe_mono: "kframe P m \<Longrightarrow> (\<And>s t. P s t \<Longrightarrow> Q s t) \<Longrightarrow> kframe Q m"
  by (auto simp: kframe_def)

lemma kframe_option [kframe_intros]:
  "kframe P a \<Longrightarrow> (\<And>x. kframe P (f x)) \<Longrightarrow> kframe P (case r of None \<Rightarrow> a | Some x \<Rightarrow> f x)"
  by (cases r) simp_all

lemma kframe_Inl [kframe_intros]: "kframe P (\<lambda>s. Inl e)"
  by (simp add: kframe_def)

lemma kframe_klock: "(\<And>s l. P s (g l s)) \<Longrightarrow> kframe P (klock_op f lk g)"
  by (rule kframeI) (auto simp: klock_op_def split: sum.splits)

definition fs_more :: "'z fs_state_scheme \<Rightarrow> 'z fs_state_scheme \<Rightarrow> bool" where
  "fs_more s t \<longleftrightarrow> fs_state.more t = fs_state.more s"

lemma fs_more_equiv: "reflp fs_more" "transp fs_more"
  by (auto simp: fs_more_def intro!: reflpI transpI)

lemma fs_more_wakeup: "kframe fs_more (thread_wakeup chan)"
  by (rule kframe_mono [OF thread_wakeup_woke]) (auto simp: fs_more_def woke_def)

lemma fs_more_modify:
  "kframe fs_more (buf_get f b)" "kframe fs_more (buf_put g b)" "kframe fs_more (buf_addr b)" "kframe fs_more (outb p v)"
  "kframe fs_more inb_status" "kframe fs_more (outsl m)"
  "kframe fs_more (kmodify (\<lambda>s. s\<lparr>idequeue := q\<rparr>))"
  "kframe fs_more (klock_op h ide_lk (\<lambda>l s. s\<lparr>ide_lk := l\<rparr>))"
  "kframe fs_more (klock_op h bcache_lock (\<lambda>l s. s\<lparr>bcache_lock := l\<rparr>))"
  unfolding buf_get_def buf_put_def buf_addr_def outb_def inb_status_def outsl_def
  by (intro kframe_intros fs_more_equiv kframe_kmodify kframe_klock; simp add: fs_more_def Let_def)+

lemmas fs_more_rules = kframe_intros fs_more_equiv fs_more_modify fs_more_wakeup

lemma fs_more_disk: "kframe fs_more (ide_rw b)"
proof -
  have wait: "kframe fs_more (ide_wait c)" for c unfolding ide_wait_def by (intro fs_more_rules)
  have ins: "kframe fs_more (insl b)" for b unfolding insl_def by (intro fs_more_rules)
  have start: "kframe fs_more (ide_start q)" for q unfolding ide_start_def by (intro fs_more_rules wait)
  have intr: "kframe fs_more ide_intr" unfolding ide_intr_def by (intro fs_more_rules wait ins start)
  have last: "kframe fs_more (ide_last k q)" for k q by (induction k arbitrary: q) (auto intro!: fs_more_rules)
  have app: "kframe fs_more (ide_append b)" for b unfolding ide_append_def by (intro fs_more_rules last)
  have fin: "kframe fs_more (ide_finish k b)" for k b
    by (induction k) (auto simp: ide_sleep_def intro!: fs_more_rules intr)
  show ?thesis unfolding ide_rw_def by (intro fs_more_rules app start fin)
qed

lemma fs_more_bufcache:
  "kframe fs_more (bufcache_read d n)" "kframe fs_more (bufcache_write b)" "kframe fs_more (bufcache_release b)"
  "kframe fs_more (read_superblock d)"
proof -
  have find: "kframe fs_more (bufcache_find k b d n)" for k b d n by (induction k arbitrary: b) (auto intro!: fs_more_rules)
  have rec: "kframe fs_more (bufcache_recycle k b)" for k b by (induction k arbitrary: b) (auto intro!: fs_more_rules)
  show rd: "kframe fs_more (bufcache_read d n)" for d n
    unfolding bufcache_read_def bufcache_get_def by (intro fs_more_rules find rec fs_more_disk)
  show "kframe fs_more (bufcache_write b)" unfolding bufcache_write_def by (intro fs_more_rules fs_more_disk)
  show rl: "kframe fs_more (bufcache_release b)" for b
    unfolding bufcache_release_def to_front_def by (intro fs_more_rules)
  show "kframe fs_more (read_superblock d)" unfolding read_superblock_def by (intro fs_more_rules rd rl)
qed

definition log_more :: "'z log_state_scheme \<Rightarrow> 'z log_state_scheme \<Rightarrow> bool" where
  "log_more s t \<longleftrightarrow> log_state.more t = log_state.more s"

lemma log_more_equiv: "reflp log_more" "transp log_more"
  by (auto simp: log_more_def intro!: reflpI transpI)

lemma fs_more_log: "fs_more s t \<Longrightarrow> log_more s t"
  by (cases s, cases t) (simp add: fs_more_def log_more_def)

lemma kframe_log: "kframe fs_more m \<Longrightarrow> kframe log_more m"
  by (erule kframe_mono) (rule fs_more_log)

lemmas log_more_rules = kframe_intros log_more_equiv fs_more_bufcache [THEN kframe_log] fs_more_modify(1-3) [THEN kframe_log]
  fs_more_wakeup [THEN kframe_log]

lemma log_more_write: "kframe log_more (log_write b)"
proof -
  have get: "kframe log_more (lh_get i)" for i unfolding lh_get_def by (intro log_more_rules)
  have put: "kframe log_more (lh_set i v)" for i v
    unfolding lh_set_def by (intro log_more_rules kframe_kmodify) (simp add: log_more_def)
  have slot: "kframe log_more (log_slot k i n)" for k i n by (induction k arbitrary: i) (auto intro!: log_more_rules get)
  have n: "kframe log_more (kmodify (\<lambda>s. s\<lparr>lh_n := n\<rparr>))" for n by (rule kframe_kmodify) (simp add: log_more_def)
  show ?thesis unfolding log_write_def by (intro log_more_rules slot put n)
qed

lemma log_more_block: "kframe log_more (block_alloc d)" "kframe log_more (block_free d n)"
proof -
  have take: "kframe log_more (block_take d bp b i)" for d bp b i
    unfolding block_take_def block_zero_def by (intro log_more_rules log_more_write)
  have scan: "kframe log_more (block_scan d z bp b i)" for d z bp b i
    by (induction d z bp b i rule: block_scan.induct) (subst block_scan.simps, auto intro!: log_more_rules take)
  have "kframe log_more (block_alloc_loop d sb b)" for sb b
    by (induction d sb b rule: block_alloc_loop.induct) (subst block_alloc_loop.simps, auto intro!: log_more_rules scan)
  then show "kframe log_more (block_alloc d)" unfolding block_alloc_def by (intro log_more_rules)
  show "kframe log_more (block_free d n)"
    unfolding block_free_def Let_def by (intro log_more_rules log_more_write)
qed

section \<open>What the routines on inodes leave of the identities\<close>

text \<open>The identity of an entry: device, number and reference count.\<close>

definition ident :: "'z ino_state_scheme \<Rightarrow> u32 \<Rightarrow> u32 \<times> u32 \<times> u32" where
  "ident s i = (i_dev (inodes s i), i_inum (inodes s i), i_ref (inodes s i))"

definition same_ident :: "'z ino_state_scheme \<Rightarrow> 'z ino_state_scheme \<Rightarrow> bool" where
  "same_ident s t \<longleftrightarrow> ident t = ident s"

lemma same_ident_equiv: "reflp same_ident" "transp same_ident"
  by (auto simp: same_ident_def intro!: reflpI transpI)

lemma log_more_ident: "log_more s t \<Longrightarrow> same_ident s t"
  by (cases s, cases t) (simp add: log_more_def same_ident_def ident_def fun_eq_iff)

lemma kframe_ident: "kframe log_more m \<Longrightarrow> kframe same_ident m"
  by (erule kframe_mono) (rule log_more_ident)

lemma same_ident_put:
  "(\<And>x. i_dev (g x) = i_dev x \<and> i_inum (g x) = i_inum x \<and> i_ref (g x) = i_ref x) \<Longrightarrow> kframe same_ident (ino_put g ip)"
  unfolding ino_put_def
  by (intro kframe_intros same_ident_equiv kframe_kmodify) (simp add: same_ident_def ident_def fun_eq_iff)

lemma same_ident_basic:
  "kframe same_ident (ino_get f ip)" "kframe same_ident (ino_addr ip)" "kframe same_ident icache_acquire"
  "kframe same_ident icache_release" "kframe same_ident (kmodify (\<lambda>s. s\<lparr>mem := h s\<rparr>))"
  unfolding ino_get_def ino_addr_def icache_acquire_def icache_release_def
  by (intro kframe_intros same_ident_equiv kframe_kmodify kframe_klock; simp add: same_ident_def ident_def fun_eq_iff)+

lemmas lower_ident = fs_more_bufcache [THEN kframe_log, THEN kframe_ident] fs_more_modify(1-3) [THEN kframe_log, THEN kframe_ident]
  fs_more_wakeup [THEN kframe_log, THEN kframe_ident] log_more_write [THEN kframe_ident] log_more_block [THEN kframe_ident]

lemmas ident_rules = kframe_intros same_ident_equiv same_ident_basic lower_ident

lemma ident_disk:
  "kframe same_ident (inode_update ip)" "kframe same_ident (inode_lock ip)" "kframe same_ident (inode_unlock ip)"
  "kframe same_ident (inode_trunc ip)"
proof -
  show up: "kframe same_ident (inode_update ip)" for ip
    unfolding inode_update_def Let_def by (intro ident_rules)
  have load: "kframe same_ident (inode_load ip)" for ip
    unfolding inode_load_def Let_def by (intro ident_rules same_ident_put) simp_all
  show "kframe same_ident (inode_lock ip)" unfolding inode_lock_def by (intro ident_rules same_ident_put load) simp
  show "kframe same_ident (inode_unlock ip)" unfolding inode_unlock_def by (intro ident_rules same_ident_put) simp
  show "kframe same_ident (inode_trunc ip)"
    unfolding inode_trunc_def addrs_get_def addrs_put_def by (intro ident_rules same_ident_put up) simp_all
qed

lemma ident_bmap: "kframe same_ident (bmap ip bn)"
  unfolding bmap_def addrs_alloc_def addrs_get_def addrs_put_def Let_def by (intro ident_rules same_ident_put) simp_all

lemma ident_contents:
  "kframe same_ident (inode_read_loop ip n dst off tot)" "kframe same_ident (inode_write_loop ip n src off tot)"
proof -
  show "kframe same_ident (inode_read_loop ip n dst off tot)"
    by (induction ip n dst off tot rule: inode_read_loop.induct)
      (subst inode_read_loop.simps, unfold Let_def, intro ident_rules ident_bmap, simp)
  show "kframe same_ident (inode_write_loop ip n src off tot)"
    by (induction ip n src off tot rule: inode_write_loop.induct)
      (subst inode_write_loop.simps, unfold Let_def, intro ident_rules ident_bmap, simp)
qed

section \<open>References\<close>

definition new_ref :: "(u32 \<Rightarrow> u32) \<Rightarrow> u32 \<times> u32 \<times> u32 \<Rightarrow> u32 \<times> u32 \<times> u32" where
  "new_ref f x = (fst x, fst (snd x), f (snd (snd x)))"

lemma ident_ino_put:
  assumes "ino_put (\<lambda>x. x\<lparr>i_ref := f (i_ref x)\<rparr>) ip s = Inr (z, t)"
  shows "ident t = (ident s)(ip - 1 := new_ref f (ident s (ip - 1)))" "ip - 1 < NINODE"
  using assms by (auto simp: ino_put_def kern_Inr_iffs ident_def new_ref_def fun_eq_iff kindex_def split: if_splits)

lemma ident_frame: "kframe same_ident m \<Longrightarrow> m s = Inr (x, t) \<Longrightarrow> ident t = ident s"
  by (auto simp: kframe_def same_ident_def)

lemma inode_put_ident:
  assumes "inode_put ip s = Inr ((), t)"
  shows "ident t = (ident s)(ip - 1 := new_ref (\<lambda>r. r - 1) (ident s (ip - 1)))" "ip - 1 < NINODE"
proof -
  have body: "kframe same_ident (inode_drop ip x)" for x
    unfolding inode_drop_def by (intro ident_rules same_ident_put ident_disk) simp_all
  obtain x1 x2 x3 a b u v w where e: "icache_acquire s = Inr (x1, a)" "ino_get (\<lambda>x. x) ip a = Inr (b, u)" "inode_drop ip b u = Inr (x2, v)"
    "ino_put (\<lambda>x. x\<lparr>i_ref := i_ref x - 1\<rparr>) ip v = Inr (x3, w)" "icache_release w = Inr ((), t)"
    using assms unfolding inode_put_def kern_Inr_iffs by (elim exE conjE) (rule that; assumption)
  have "ident v = ident s" "ident t = ident w"
    using ident_frame [OF same_ident_basic(3) e(1)] ident_frame [OF same_ident_basic(1) e(2)] ident_frame [OF body e(3)]
      ident_frame [OF same_ident_basic(4) e(5)] by simp_all
  then show "ident t = (ident s)(ip - 1 := new_ref (\<lambda>r. r - 1) (ident s (ip - 1)))" "ip - 1 < NINODE"
    using ident_ino_put [of "\<lambda>r. r - 1", OF e(4)] by simp_all
qed

lemma inode_dup_ident:
  assumes "inode_dup ip s = Inr (r, t)"
  shows "ident t = (ident s)(ip - 1 := new_ref (\<lambda>r. r + 1) (ident s (ip - 1)))" "ip - 1 < NINODE"
proof -
  obtain a w where e: "icache_acquire s = Inr ((), a)" "ino_put (\<lambda>x. x\<lparr>i_ref := i_ref x + 1\<rparr>) ip a = Inr ((), w)"
    "icache_release w = Inr ((), t)"
    using assms unfolding inode_dup_def kern_Inr_iffs by fastforce
  have "ident a = ident s" "ident t = ident w"
    using ident_frame [OF same_ident_basic(3) e(1)] ident_frame [OF same_ident_basic(4) e(3)] by simp_all
  then show "ident t = (ident s)(ip - 1 := new_ref (\<lambda>r. r + 1) (ident s (ip - 1)))" "ip - 1 < NINODE"
    using ident_ino_put [of "\<lambda>r. r + 1", OF e(2)] by simp_all
qed

text \<open>The search returns the entry in use of the inode, or shows that there is none.\<close>

definition in_entry :: "'z ino_state_scheme \<Rightarrow> u32 \<Rightarrow> u32 \<Rightarrow> u32 \<Rightarrow> bool" where
  "in_entry s d n i \<longleftrightarrow> 0 < sint (i_ref (inodes s i)) \<and> i_dev (inodes s i) = d \<and> i_inum (inodes s i) = n"

lemma inode_find_spec:
  assumes "inode_find k ip d n em s = Inr ((r, e), t)" "unat ip + k \<le> 51" "1 \<le> unat ip"
    and "em \<noteq> 0 \<longrightarrow> em - 1 < NINODE \<and> i_ref (inodes s (em - 1)) = 0"
  shows "t = s \<and> (r \<noteq> 0 \<longrightarrow> r - 1 < NINODE \<and> in_entry s d n (r - 1)) \<and>
    (r = 0 \<longrightarrow> (\<forall>j. ip \<le> j \<longrightarrow> unat j < unat ip + k \<longrightarrow> \<not> in_entry s d n (j - 1))) \<and>
    (e \<noteq> 0 \<longrightarrow> e - 1 < NINODE \<and> i_ref (inodes s (e - 1)) = 0)"
  using assms
proof (induction k arbitrary: ip em)
  case 0
  then show ?case by (auto simp: word_le_nat_alt)
next
  case (Suc k)
  have nz: "ip \<noteq> 0" using Suc.prems(3) by auto
  have u: "unat (ip + 1) = unat ip + 1" using Suc.prems(2) by (subst unat_add_exact) simp_all
  have lt: "ip - 1 < NINODE" using Suc.prems(2) nz by (simp add: word_less_nat_alt unat_minus_one NINODE_def)
  show ?case
  proof (cases "in_entry s d n (ip - 1)")
    case True
    then show ?thesis using Suc.prems(1,4) lt nz by (simp add: ino_get_def in_entry_def)
  next
    case False
    let ?em = "if em = 0 \<and> i_ref (inodes s (ip - 1)) = 0 then ip else em"
    have "inode_find k (ip + 1) d n ?em s = Inr ((r, e), t)"
      using Suc.prems(1) lt False by (auto simp: ino_get_def in_entry_def split: if_splits)
    from Suc.IH [OF this] have IH: "t = s \<and> (r \<noteq> 0 \<longrightarrow> r - 1 < NINODE \<and> in_entry s d n (r - 1)) \<and>
      (r = 0 \<longrightarrow> (\<forall>j. ip + 1 \<le> j \<longrightarrow> unat j < unat (ip + 1) + k \<longrightarrow> \<not> in_entry s d n (j - 1))) \<and>
      (e \<noteq> 0 \<longrightarrow> e - 1 < NINODE \<and> i_ref (inodes s (e - 1)) = 0)"
      using Suc.prems(2-4) u lt by simp
    moreover have "ip + 1 \<le> j" if "ip \<le> j" "j \<noteq> ip" for j using that u by (simp add: word_le_nat_alt word_unat_eq_iff)
    ultimately show ?thesis using False u by (auto simp: word_le_nat_alt)
  qed
qed

lemma ident_new:
  assumes "kseq (ino_put (\<lambda>x. x\<lparr>i_dev := d\<rparr>) e) (kseq (ino_put (\<lambda>x. x\<lparr>i_inum := n\<rparr>) e)
    (kseq (ino_put (\<lambda>x. x\<lparr>i_ref := 1\<rparr>) e) (kseq (ino_put (\<lambda>x. x\<lparr>i_flags := 0\<rparr>) e) (kseq icache_release (kret e))))) s = Inr (r, t)"
  shows "r = e \<and> ident t = (ident s)(e - 1 := (d, n, 1))"
  using assms
  by (auto simp: ino_put_def icache_release_def kern_Inr_iffs ident_def fun_eq_iff kindex_def split: if_splits)

lemma inode_get_ident:
  assumes g: "inode_get d n s = Inr (ip, t)"
  shows "ip - 1 < NINODE" "ip \<noteq> 0"
    "in_entry s d n (ip - 1) \<and> ident t = (ident s)(ip - 1 := new_ref (\<lambda>r. r + 1) (ident s (ip - 1))) \<or>
     (\<forall>i < NINODE. \<not> in_entry s d n i) \<and> i_ref (inodes s (ip - 1)) = 0 \<and> ident t = (ident s)(ip - 1 := (d, n, 1))"
proof -
  obtain x1 a r e b where e: "icache_acquire s = Inr (x1, a)" "inode_find (unat NINODE) 1 d n 0 a = Inr ((r, e), b)"
    "(if r \<noteq> 0 then kseq (ino_put (\<lambda>x. x\<lparr>i_ref := i_ref x + 1\<rparr>) r) (kseq icache_release (kret r))
       else kseq (kguard (e \<noteq> 0) (KERN_PANIC ''inode_get: no inodes''))
        (kseq (ino_put (\<lambda>x. x\<lparr>i_dev := d\<rparr>) e)
        (kseq (ino_put (\<lambda>x. x\<lparr>i_inum := n\<rparr>) e)
        (kseq (ino_put (\<lambda>x. x\<lparr>i_ref := 1\<rparr>) e)
        (kseq (ino_put (\<lambda>x. x\<lparr>i_flags := 0\<rparr>) e)
        (kseq icache_release (kret e))))))) b = Inr (ip, t)"
    using g unfolding inode_get_def kseq_eq_Inr_iff [of icache_acquire] kbind_eq_Inr_iff [of "inode_find k i d n em" for k i em]
    by (elim exE conjE) (rule that; (assumption | simp only: prod.collapse split_def))
  have a: "inodes a = inodes s" using e(1) by (auto simp: icache_acquire_def klock_acquire_iff)
  then have ia: "ident a = ident s" "in_entry a = in_entry s" by (simp_all add: fun_eq_iff ident_def in_entry_def)
  have f: "b = a" "r \<noteq> 0 \<longrightarrow> r - 1 < NINODE \<and> in_entry s d n (r - 1)"
    "r = 0 \<longrightarrow> (\<forall>j. 1 \<le> j \<longrightarrow> unat j < 51 \<longrightarrow> \<not> in_entry s d n (j - 1))"
    "e \<noteq> 0 \<longrightarrow> e - 1 < NINODE \<and> i_ref (inodes s (e - 1)) = 0"
    using inode_find_spec [OF e(2)] by (simp_all add: NINODE_def ia a)
  have "ip - 1 < NINODE \<and> ip \<noteq> 0 \<and> (in_entry s d n (ip - 1) \<and> ident t = (ident s)(ip - 1 := new_ref (\<lambda>r. r + 1) (ident s (ip - 1))) \<or>
     (\<forall>i < NINODE. \<not> in_entry s d n i) \<and> i_ref (inodes s (ip - 1)) = 0 \<and> ident t = (ident s)(ip - 1 := (d, n, 1)))"
  proof (cases "r = 0")
    case False
    then obtain x3 v where v: "ino_put (\<lambda>x. x\<lparr>i_ref := i_ref x + 1\<rparr>) r a = Inr (x3, v)" "kseq icache_release (kret r) v = Inr (ip, t)"
      using e(3) f(1) by (auto simp: kseq_eq_Inr_iff [of "ino_put g r" for g])
    have "ip = r" "ident t = ident v" using v(2) by (auto simp: icache_release_def ident_def fun_eq_iff)
    then show ?thesis using ident_ino_put [of "\<lambda>r. r + 1", OF v(1)] ia False f(2) by simp
  next
    case True
    have "\<not> in_entry s d n i" if "i < NINODE" for i
    proof -
      have u: "unat (i + 1) = unat i + 1" using that by (subst unat_add_exact) (simp_all add: word_less_nat_alt NINODE_def)
      then have "1 \<le> i + 1" "unat (i + 1) < 51" using that by (simp_all add: word_le_nat_alt word_less_nat_alt NINODE_def)
      then show ?thesis using f(3) [rule_format, of "i + 1"] True by simp
    qed
    moreover have "e \<noteq> 0" using e(3) True by (cases "e = 0") simp_all
    moreover have "ip = e \<and> ident t = (ident a)(e - 1 := (d, n, 1))"
      using e(3) True \<open>e \<noteq> 0\<close> unfolding f(1) by (intro ident_new) simp
    ultimately show ?thesis using f(4) ia(1) by simp
  qed
  then show "ip - 1 < NINODE" "ip \<noteq> 0" "in_entry s d n (ip - 1) \<and> ident t = (ident s)(ip - 1 := new_ref (\<lambda>r. r + 1) (ident s (ip - 1))) \<or>
     (\<forall>i < NINODE. \<not> in_entry s d n i) \<and> i_ref (inodes s (ip - 1)) = 0 \<and> ident t = (ident s)(ip - 1 := (d, n, 1))"
    by blast+
qed

section \<open>The cache is well formed\<close>

definition icache_ok :: "'z ino_state_scheme \<Rightarrow> bool" where
  "icache_ok s \<longleftrightarrow> (\<forall>i < NINODE. i_ref (inodes s i) < 0x80000000) \<and>
     (\<forall>i < NINODE. \<forall>j < NINODE. i_ref (inodes s i) \<noteq> 0 \<longrightarrow> i_ref (inodes s j) \<noteq> 0 \<longrightarrow>
        i_dev (inodes s i) = i_dev (inodes s j) \<longrightarrow> i_inum (inodes s i) = i_inum (inodes s j) \<longrightarrow> i = j)"

text \<open>
  The calls. A caller duplicates and gives back references it has, and no count is at the
  largest integer when one more reference is taken.
\<close>

definition ref_room :: "'z ino_state_scheme \<Rightarrow> bool" where
  "ref_room s \<longleftrightarrow> (\<forall>i < NINODE. i_ref (inodes s i) < 0x7fffffff)"

inductive ino_step :: "'z ino_state_scheme \<Rightarrow> 'z ino_state_scheme \<Rightarrow> bool" where
  step_get: "inode_get d n s = Inr (ip, t) \<Longrightarrow> ref_room s \<Longrightarrow> ino_step s t"
| step_dup: "inode_dup ip s = Inr (r, t) \<Longrightarrow> ref_room s \<Longrightarrow> i_ref (inodes s (ip - 1)) \<noteq> 0 \<Longrightarrow> ino_step s t"
| step_put: "inode_put ip s = Inr (x, t) \<Longrightarrow> i_ref (inodes s (ip - 1)) \<noteq> 0 \<Longrightarrow> ino_step s t"
| step_alloc: "inode_alloc d ty s = Inr (ip, t) \<Longrightarrow> ref_room s \<Longrightarrow> ino_step s t"
| step_lock: "inode_lock ip s = Inr (x, t) \<Longrightarrow> ino_step s t"
| step_unlock: "inode_unlock ip s = Inr (x, t) \<Longrightarrow> ino_step s t"
| step_update: "inode_update ip s = Inr (x, t) \<Longrightarrow> ino_step s t"
| step_trunc: "inode_trunc ip s = Inr (x, t) \<Longrightarrow> ino_step s t"
| step_read: "inode_read_loop ip n dst off tot s = Inr (x, t) \<Longrightarrow> ino_step s t"
| step_write: "inode_write_loop ip n src off tot s = Inr (off', t) \<Longrightarrow> ino_step s t"

definition ident_ok :: "(u32 \<Rightarrow> u32 \<times> u32 \<times> u32) \<Rightarrow> bool" where
  "ident_ok f \<longleftrightarrow> (\<forall>i < NINODE. snd (snd (f i)) < 0x80000000) \<and>
     (\<forall>i < NINODE. \<forall>j < NINODE. snd (snd (f i)) \<noteq> 0 \<longrightarrow> snd (snd (f j)) \<noteq> 0 \<longrightarrow>
        fst (f i) = fst (f j) \<longrightarrow> fst (snd (f i)) = fst (snd (f j)) \<longrightarrow> i = j)"

lemma icache_ident: "icache_ok s = ident_ok (ident s)"
  by (simp add: icache_ok_def ident_ok_def ident_def)

lemma ident_ok_ref:
  assumes "ident_ok f" "i < NINODE" "snd (snd (f i)) \<noteq> 0" "g (snd (snd (f i))) < 0x80000000"
  shows "ident_ok (f(i := new_ref g (f i)))"
  using assms by (auto simp: ident_ok_def new_ref_def)

lemma inode_get_ok:
  assumes "inode_get d n s = Inr (ip, t)" "ref_room s" "icache_ok s"
  shows "icache_ok t"
proof -
  note g = inode_get_ident [OF assms(1)]
  have less: "i_ref (inodes s i) + 1 < 0x80000000" if "i < NINODE" for i
  proof -
    have "i_ref (inodes s i) < 0x7fffffff" using assms(2) that by (simp add: ref_room_def)
    from unat_Suc_less [OF this] this show ?thesis by (simp add: word_less_nat_alt)
  qed
  from g(3) show ?thesis
  proof
    assume a: "in_entry s d n (ip - 1) \<and> ident t = (ident s)(ip - 1 := new_ref (\<lambda>r. r + 1) (ident s (ip - 1)))"
    then have "i_ref (inodes s (ip - 1)) \<noteq> 0" by (auto simp: in_entry_def)
    then show ?thesis using a assms(3) less [OF g(1)] ident_ok_ref [of "ident s" "ip - 1" "\<lambda>r. r + 1"] g(1)
      by (simp add: icache_ident) (simp add: ident_def)
  next
    assume a: "(\<forall>i < NINODE. \<not> in_entry s d n i) \<and> i_ref (inodes s (ip - 1)) = 0 \<and> ident t = (ident s)(ip - 1 := (d, n, 1))"
    have "\<not> (i_ref (inodes s i) \<noteq> 0 \<and> i_dev (inodes s i) = d \<and> i_inum (inodes s i) = n)" if "i < NINODE" for i
      using a assms(3) that by (auto simp: in_entry_def icache_ok_def sint_pos_iff)
    then show ?thesis using a assms(3) unfolding icache_ident by (auto simp: ident_ok_def ident_def)
  qed
qed

lemma inode_alloc_get:
  assumes "inode_alloc_loop d ty n i s = Inr (ip, t)"
  shows "\<exists>u j. ident u = ident s \<and> inode_get d j u = Inr (ip, t)"
  using assms
proof (induction d ty n i arbitrary: s rule: inode_alloc_loop.induct)
  case (1 d ty n i)
  have lt: "i < n" using 1(2) by (cases "i < n") (simp_all add: inode_alloc_loop.simps [of d ty n i])
  let ?dip = "dip_at i"
  obtain bp a m b where e: "bufcache_read d (IBLOCK i) s = Inr (bp, a)" "buf_get b_data bp a = Inr (m, b)"
    "(if load16 m ?dip = 0 then
            kseq (buf_put (\<lambda>x. x\<lparr>b_data := memset ?dip 0 64 (b_data x)\<rparr>) bp)
           (kseq (buf_put (\<lambda>x. x\<lparr>b_data := store16 (b_data x) ?dip ty\<rparr>) bp)
           (kseq (log_write bp)
           (kseq (bufcache_release bp) (inode_get d i))))
          else
            kseq (bufcache_release bp)
              (if i < 0x7fffffff then inode_alloc_loop d ty n (i + 1) else kfail IntOverflow)) b = Inr (ip, t)"
    using 1(2) unfolding inode_alloc_loop.simps [of d ty n i] if_P [OF lt] kbind_eq_Inr_iff by (elim exE conjE) (rule that; assumption)
  have ib: "ident b = ident s" using ident_frame [OF lower_ident(1) e(1)] ident_frame [OF lower_ident(5) e(2)] by simp
  show ?case
  proof (cases "load16 m ?dip = 0")
    case True
    then obtain x1 x2 x3 x4 u1 u2 u3 u4 where u: "buf_put (\<lambda>x. x\<lparr>b_data := memset ?dip 0 64 (b_data x)\<rparr>) bp b = Inr (x1, u1)"
      "buf_put (\<lambda>x. x\<lparr>b_data := store16 (b_data x) ?dip ty\<rparr>) bp u1 = Inr (x2, u2)" "log_write bp u2 = Inr (x3, u3)"
      "bufcache_release bp u3 = Inr (x4, u4)" "inode_get d i u4 = Inr (ip, t)"
      using e(3) unfolding if_P [OF True] kseq_eq_Inr_iff by (elim exE conjE) (rule that; assumption)
    have "ident u4 = ident s"
      using ident_frame [OF lower_ident(6) u(1)] ident_frame [OF lower_ident(6) u(2)] ident_frame [OF lower_ident(9) u(3)]
        ident_frame [OF lower_ident(3) u(4)] ib by simp
    then show ?thesis using u(5) by blast
  next
    case False
    then obtain x1 u where u: "bufcache_release bp b = Inr (x1, u)"
      "(if i < 0x7fffffff then inode_alloc_loop d ty n (i + 1) else kfail IntOverflow) u = Inr (ip, t)"
      using e(3) unfolding if_not_P [OF False] kseq_eq_Inr_iff by (elim exE conjE) (rule that; assumption)
    have iu: "ident u = ident s" using ident_frame [OF lower_ident(3) u(1)] ib by simp
    have "i < 0x7fffffff" "inode_alloc_loop d ty n (i + 1) u = Inr (ip, t)" using u(2) by (simp_all split: if_splits)
    from 1(1) [OF lt False this] show ?thesis using iu by simp
  qed
qed

lemma ref_room_alt: "ref_room s \<longleftrightarrow> (\<forall>i < NINODE. snd (snd (ident s i)) < 0x7fffffff)"
  by (simp add: ref_room_def ident_def)

lemma ref_room_ident: "ident t = ident s \<Longrightarrow> ref_room t = ref_room s"
  by (simp add: ref_room_alt)

lemma ino_step_ok:
  assumes "ino_step s t" "icache_ok s"
  shows "icache_ok t"
  using assms
proof (induction rule: ino_step.induct)
  case (step_get d n s ip t)
  then show ?case by (rule inode_get_ok)
next
  case (step_dup ip s r t)
  note e = inode_dup_ident [OF step_dup(1)]
  have "i_ref (inodes s (ip - 1)) < 0x7fffffff" using step_dup(2) e(2) by (simp add: ref_room_def)
  from unat_Suc_less [OF this] this have "i_ref (inodes s (ip - 1)) + 1 < 0x80000000" by (simp add: word_less_nat_alt)
  then show ?case using ident_ok_ref [of "ident s" "ip - 1" "\<lambda>r. r + 1"] e step_dup(3,4) by (simp add: icache_ident) (simp add: ident_def)
next
  case (step_put ip s x t)
  note e = inode_put_ident [OF step_put(1) [unfolded unit_eq [of x]]]
  have "i_ref (inodes s (ip - 1)) < 0x80000000" using step_put(3) e(2) by (simp add: icache_ok_def)
  then have "i_ref (inodes s (ip - 1)) - 1 < 0x80000000"
    using step_put(2) by (simp add: word_less_nat_alt unat_minus_one)
  then show ?case using ident_ok_ref [of "ident s" "ip - 1" "\<lambda>r. r - 1"] e step_put(2,3) by (simp add: icache_ident) (simp add: ident_def)
next
  case (step_alloc d ty s ip t)
  obtain sb u where u: "read_superblock d s = Inr (sb, u)" "inode_alloc_loop d ty (sb_ninodes sb) 1 u = Inr (ip, t)"
    using step_alloc(1) unfolding inode_alloc_def kbind_eq_Inr_iff by blast
  have "ident u = ident s" by (rule ident_frame [OF lower_ident(4) u(1)])
  moreover obtain v j where v: "ident v = ident u" "inode_get d j v = Inr (ip, t)" using inode_alloc_get [OF u(2)] by blast
  ultimately have "ref_room v" "icache_ok v" using step_alloc(2,3) ref_room_ident [of v s] by (simp_all add: icache_ident)
  then show ?case by (rule inode_get_ok [OF v(2)])
qed (simp_all add: icache_ident ident_frame [OF ident_disk(1)] ident_frame [OF ident_disk(2)] ident_frame [OF ident_disk(3)]
  ident_frame [OF ident_disk(4)] ident_frame [OF ident_contents(1)] ident_frame [OF ident_contents(2)])

lemma ino_steps_ok: "ino_step\<^sup>*\<^sup>* s t \<Longrightarrow> icache_ok s \<Longrightarrow> icache_ok t"
  by (induction rule: rtranclp_induct) (auto intro: ino_step_ok)

lemma icache_empty: "(\<And>i. i < NINODE \<Longrightarrow> i_ref (inodes s i) = 0) \<Longrightarrow> icache_ok s"
  by (auto simp: icache_ok_def)

text \<open>
  C8. The cache of inodes is well formed. From a cache in which every reference count is 0, no
  sequence of calls that take, duplicate and give back references, lock and unlock inodes,
  allocate, load, update, truncate, read and write them makes a count negative or gives two
  entries in use to one inode.
\<close>

theorem icache_well_formed:
  assumes "\<And>i. i < NINODE \<Longrightarrow> i_ref (inodes s i) = 0" "ino_step\<^sup>*\<^sup>* s t" "i < NINODE" "j < NINODE"
  shows "0 \<le> sint (i_ref (inodes t i)) \<and>
    (i_ref (inodes t i) \<noteq> 0 \<longrightarrow> i_ref (inodes t j) \<noteq> 0 \<longrightarrow> i_dev (inodes t i) = i_dev (inodes t j) \<longrightarrow>
      i_inum (inodes t i) = i_inum (inodes t j) \<longrightarrow> i = j)"
proof -
  have ok: "icache_ok t" using ino_steps_ok [OF assms(2) icache_empty] assms(1) by blast
  then have "i_ref (inodes t i) < 0x80000000" using assms(3) by (simp add: icache_ok_def)
  then have "0 \<le> sint (i_ref (inodes t i))" by (simp add: sint_nonneg)
  then show ?thesis using ok assms(3,4) by (simp add: icache_ok_def)
qed

section \<open>A machine with a cache of inodes\<close>

definition no_inode :: inode where
  "no_inode = \<lparr>i_dev = 0, i_inum = 0, i_ref = 0, i_flags = 0, i_type = 0, i_major = 0, i_minor = 0, i_nlink = 0,
     i_size = 0, i_addrs = (\<lambda>_. 0)\<rparr>"

definition with_inodes :: "sectors \<Rightarrow> ino_state" where
  "with_inodes D = log_state.extend (with_log D) (ino_state.fields free_lock (\<lambda>_. no_inode) 0x600000)"

lemma with_inodes_sels [simp]: "inodes (with_inodes D) = (\<lambda>_. no_inode)" "icache_lock (with_inodes D) = free_lock"
  "cur_kstack (with_inodes D) = cur_kstack (with_log D)"
  by (simp_all add: with_inodes_def log_state.defs ino_state.defs)

lemma inode_find_empty:
  assumes "\<And>i. i < NINODE \<Longrightarrow> i_ref (inodes s i) = 0" "unat ip + k \<le> 51" "ip \<noteq> 0"
  shows "inode_find k ip d n em s = Inr ((0, if em = 0 \<and> k \<noteq> 0 then ip else em), s)"
  using assms(2,3)
proof (induction k arbitrary: ip em)
  case (Suc k)
  have u: "unat (ip + 1) = unat ip + 1" using Suc.prems(1) by (subst unat_add_exact) simp_all
  then have "ip + 1 \<noteq> 0" by auto
  moreover have "ip - 1 < NINODE" using Suc.prems by (simp add: word_less_nat_alt unat_minus_one NINODE_def)
  ultimately show ?case using assms(1) [of "ip - 1"] Suc.IH [of "ip + 1"] Suc.prems u by (simp add: ino_get_def)
qed simp

lemma inode_get_empty:
  assumes "\<And>i. i < NINODE \<Longrightarrow> i_ref (inodes s i) = 0" "lock_ready (cur_kstack s) (icache_lock s)"
  shows "\<exists>t. inode_get d n s = Inr (1, t) \<and> inodes t 0 = (inodes s 0)\<lparr>i_dev := d, i_inum := n, i_ref := 1, i_flags := 0\<rparr> \<and>
    (\<forall>i. i \<noteq> 0 \<longrightarrow> inodes t i = inodes s i) \<and> cur_kstack t = cur_kstack s \<and> lock_ready (cur_kstack t) (icache_lock t)"
proof -
  have "ks_magic (cur_kstack s) = SPIN_KSTACK_MAGIC" using assms(2) by (simp add: lock_ready_def)
  then show ?thesis using assms inode_find_empty [of "s\<lparr>icache_lock := taken (cur_kstack s) (icache_lock s)\<rparr>" 1 50 d n 0]
    by (simp add: inode_get_def icache_acquire_def icache_release_def ino_put_def NINODE_def)
qed

lemma inode_get_first:
  assumes "in_entry s d n 0" "lock_ready (cur_kstack s) (icache_lock s)"
  shows "\<exists>t. inode_get d n s = Inr (1, t) \<and> inodes t 0 = (inodes s 0)\<lparr>i_ref := i_ref (inodes s 0) + 1\<rparr>"
proof -
  let ?u = "s\<lparr>icache_lock := taken (cur_kstack s) (icache_lock s)\<rparr>"
  have "inode_find (Suc k) 1 d n 0 ?u = Inr ((1, 0), ?u)" for k
    using assms(1) by (simp add: ino_get_def in_entry_def NINODE_def)
  from this [of 49] have "inode_find (unat NINODE) 1 d n 0 ?u = Inr ((1, 0), ?u)" by (simp add: NINODE_def)
  then show ?thesis using assms(2)
    by (simp add: inode_get_def icache_acquire_def icache_release_def ino_put_def) (simp add: NINODE_def)
qed

theorem icache_well_formed_witness:
  "\<exists>t u. inode_get 1 5 (with_inodes (\<lambda>_ _ _. 0)) = Inr (1, t) \<and> inode_get 1 5 t = Inr (1, u) \<and>
    i_ref (inodes u 0) = 2 \<and> 0 \<le> sint (i_ref (inodes u 0))"
proof -
  let ?s = "with_inodes (\<lambda>_ _ _. 0)"
  have r: "lock_ready (cur_kstack ?s) (icache_lock ?s)" "\<And>i. i < NINODE \<Longrightarrow> i_ref (inodes ?s i) = 0"
    using with_log_live(2) by (simp_all add: lock_ready_def free_lock_def spinlock_init_def no_inode_def)
  from inode_get_empty [OF r(2,1)] obtain t where t: "inode_get 1 5 ?s = Inr (1, t)"
    "inodes t 0 = (inodes ?s 0)\<lparr>i_dev := 1, i_inum := 5, i_ref := 1, i_flags := 0\<rparr>" "\<forall>i. i \<noteq> 0 \<longrightarrow> inodes t i = inodes ?s i"
    "lock_ready (cur_kstack t) (icache_lock t)" by blast
  have "in_entry t 1 5 0" by (simp add: in_entry_def t(2))
  from inode_get_first [OF this t(4)] obtain u where u: "inode_get 1 5 t = Inr (1, u)"
    "inodes u 0 = (inodes t 0)\<lparr>i_ref := i_ref (inodes t 0) + 1\<rparr>" by blast
  have "i_ref (inodes t i) < 0x7fffffff" for i using t(2,3) by (cases "i = 0") (simp_all add: no_inode_def)
  then have "ref_room t" by (simp add: ref_room_def)
  moreover have "ref_room ?s" by (simp add: ref_room_def no_inode_def)
  ultimately have "ino_step\<^sup>*\<^sup>* ?s u" using t(1) u(1) by (meson rtranclp.simps step_get)
  then have "0 \<le> sint (i_ref (inodes u 0))" using icache_well_formed [OF r(2), of u 0 0] by (simp add: NINODE_def)
  moreover have "i_ref (inodes u 0) = 2" by (simp add: u(2) t(2))
  ultimately show ?thesis using t(1) u(1) by blast
qed

end
