(* ===== verification/InodeData.thy ===== *)
theory InodeData
  imports InodeCache
begin

text \<open>
  The contents of files: \<^verbatim>\<open>bmap\<close>, \<^verbatim>\<open>inode_read\<close> and \<^verbatim>\<open>inode_write\<close> of \<^verbatim>\<open>kern/fs/inode.c\<close> on a file whose
  blocks are mapped. Main results: reading returns the bytes of the file, and writing, as a
  transaction, changes exactly the bytes of the range and survives crashes.
\<close>

section \<open>The bytes of a file\<close>

definition fblock :: "inode \<Rightarrow> (bkey \<Rightarrow> memory) \<Rightarrow> u32 \<Rightarrow> u32" where
  "fblock x M bn = (if bn < NDIRECT then i_addrs x bn else load32 (M (i_dev x, i_addrs x NDIRECT)) (4 * (bn - NDIRECT)))"

definition fbyte :: "inode \<Rightarrow> (bkey \<Rightarrow> memory) \<Rightarrow> u32 \<Rightarrow> u8" where
  "fbyte x M a = M (i_dev x, fblock x M (a div BSIZE)) (a mod BSIZE)"

definition readable :: "'z fs_state_scheme \<Rightarrow> bkey set \<Rightarrow> bkey set \<Rightarrow> bkey \<Rightarrow> bool" where
  "readable s B D k \<longleftrightarrow> k \<notin> B \<and> sector_ok s (fst k) (snd k) \<and> card (insert k (B \<union> D)) \<le> 10"

definition block_mapped :: "'z fs_state_scheme \<Rightarrow> bkey set \<Rightarrow> bkey set \<Rightarrow> inode \<Rightarrow> (bkey \<Rightarrow> memory) \<Rightarrow> u32 \<Rightarrow> bool" where
  "block_mapped s B D x M bn \<longleftrightarrow> bn < MAXFILE \<and> fblock x M bn \<noteq> 0 \<and> readable s B D (i_dev x, fblock x M bn) \<and>
     (NDIRECT \<le> bn \<longrightarrow> i_addrs x NDIRECT \<noteq> 0 \<and> readable s B D (i_dev x, i_addrs x NDIRECT))"

text \<open>Steps that change no sector: the caches and the scheduler only.\<close>

definition quiet :: "'z fs_state_scheme \<Rightarrow> 'z fs_state_scheme \<Rightarrow> bool" where
  "quiet s t \<longleftrightarrow> fs_keep s t \<and> disk t = disk s \<and> ide_writes t = ide_writes s"

lemma quiet_refl [simp]: "quiet s s"
  by (simp add: quiet_def)

lemma quiet_trans: "quiet s t \<Longrightarrow> quiet t u \<Longrightarrow> quiet s u"
  by (auto simp: quiet_def intro: fs_keep_trans)

lemma quiet_readable: "quiet s t \<Longrightarrow> readable t B D k = readable s B D k"
  using sector_ok_keep [of s t] by (simp add: quiet_def readable_def)

lemma quiet_mapped: "quiet s t \<Longrightarrow> block_mapped t B D x M bn = block_mapped s B D x M bn"
  using quiet_readable [of s t] by (simp add: block_mapped_def)

lemma quiet_inodes: "quiet s t \<Longrightarrow> inodes t = inodes s" for s t :: "'z ino_state_scheme"
  by (cases s, cases t) (simp add: quiet_def fs_keep_def)

lemma quiet_mem: "quiet s t \<Longrightarrow> mem t = mem s"
  by (simp add: quiet_def fs_keep_def fs_base_def pt_state.defs)

lemma read_block:
  assumes "bc c s M B D" "readable s B D (d, n)"
  shows "\<exists>b t. bufcache_read d n s = Inr (b, t) \<and> bc c t M (insert (d, n) B) D \<and> holds t b (d, n) \<and> quiet s t"
  using bread [OF assms(1)] assms(2) unfolding readable_def quiet_def by fastforce

lemma release_block:
  assumes "bc c t M (insert k B) D" "holds t b k" "k \<in> D \<or> M k = disk t (fst k) (snd k)" "k \<notin> B"
  shows "\<exists>u. bufcache_release b t = Inr ((), u) \<and> bc c u M B D \<and> quiet t u"
proof -
  have "insert k B - {k} = B" using assms(4) by simp
  then show ?thesis using brelse [OF assms(1-3)] unfolding quiet_def by fastforce
qed

lemma bc_clean: "bc c s M B D \<Longrightarrow> k \<notin> B \<Longrightarrow> k \<in> D \<or> M k = disk s (fst k) (snd k)"
  unfolding bc_def by (cases k) auto

lemma bmap_direct:
  assumes "bn < NDIRECT" "i_addrs (inodes s (ip - 1)) bn \<noteq> 0" "ip - 1 < NINODE"
  shows "bmap ip bn s = Inr (i_addrs (inodes s (ip - 1)) bn, s)"
proof -
  have "bn < NDIRECT + 1" using assms(1) by (simp add: NDIRECT_def word_less_nat_alt)
  then show ?thesis using assms by (simp add: bmap_def addrs_alloc_def addrs_get_def ino_get_def)
qed

lemma bmap_indirect:
  assumes "NDIRECT \<le> bn" "bn < MAXFILE" "ip - 1 < NINODE" "i_addrs x NDIRECT \<noteq> 0" "x = inodes s (ip - 1)"
    and "bufcache_read (i_dev x) (i_addrs x NDIRECT) s = Inr (b, t)" "inodes t = inodes s" "buf_get b_data b t = Inr (m, t)"
    and "load32 m (4 * (bn - NDIRECT)) \<noteq> 0" "bufcache_release b t = Inr ((), u)"
  shows "bmap ip bn s = Inr (load32 m (4 * (bn - NDIRECT)), u)"
proof -
  have "bn - NDIRECT < NINDIRECT" using assms(1,2)
    by (simp add: word_less_nat_alt word_le_nat_alt unat_sub_exact NDIRECT_def NINDIRECT_def MAXFILE_def)
  moreover have "\<not> bn < NDIRECT" "NDIRECT < NDIRECT + 1" using assms(1) by (simp_all add: NDIRECT_def)
  ultimately show ?thesis using assms by (simp add: bmap_def addrs_alloc_def addrs_get_def ino_get_def Let_def)
qed

lemma bmap_mapped:
  fixes s :: "'z ino_state_scheme"
  assumes s: "bc c s M B D" "block_mapped s B D x M bn" "ip - 1 < NINODE" "x = inodes s (ip - 1)"
  shows "\<exists>t. bmap ip bn s = Inr (fblock x M bn, t) \<and> bc c t M B D \<and> quiet s t"
proof (cases "bn < NDIRECT")
  case True
  have "fblock x M bn = i_addrs x bn" using True by (simp add: fblock_def)
  then have "bmap ip bn s = Inr (fblock x M bn, s)" using bmap_direct [where s = s, OF True _ s(3)] s(2,4) by (simp add: block_mapped_def)
  then show ?thesis using s(1) quiet_refl by blast
next
  case False
  let ?k = "(i_dev x, i_addrs x NDIRECT)"
  have m: "bn < MAXFILE" "fblock x M bn \<noteq> 0" "i_addrs x NDIRECT \<noteq> 0" "readable s B D ?k" "NDIRECT \<le> bn"
    using s(2) False by (auto simp: block_mapped_def)
  obtain b t where t: "bufcache_read (i_dev x) (i_addrs x NDIRECT) s = Inr (b, t)" "bc c t M (insert ?k B) D" "holds t b ?k" "quiet s t"
    using read_block [OF s(1) m(4)] by blast
  have nb: "?k \<notin> B" using m(4) by (simp add: readable_def)
  have "?k \<in> D \<or> M ?k = disk t (fst ?k) (snd ?k)" using bc_clean [OF s(1) nb] t(4) by (simp add: quiet_def)
  from release_block [OF t(2,3) this nb] obtain u where u: "bufcache_release b t = Inr ((), u)" "bc c u M B D" "quiet t u" by blast
  have fb: "fblock x M bn = load32 (M ?k) (4 * (bn - NDIRECT))" using False by (simp add: fblock_def)
  have "bmap ip bn s = Inr (fblock x M bn, u)"
    unfolding fb using bmap_indirect [OF m(5,1) s(3) m(3) s(4) t(1) quiet_inodes [OF t(4)] bget(1) [OF t(2,3)] _ u(1)] m(2) fb by simp
  then show ?thesis using u(2) quiet_trans [OF t(4) u(3)] by blast
qed

section \<open>Copies\<close>

lemma copy_from_cong:
  "(\<And>i. i < k \<Longrightarrow> f (a + i) = g (b + i)) \<Longrightarrow> copy_from m d f a k = copy_from m d g b k"
  by (simp add: copy_from_def fun_eq_iff)

lemma copy_from_0 [simp]: "copy_from m d f a 0 = m"
  by (simp add: copy_from_def)

lemma copy_from_split:
  assumes "unat k + unat l < 2 ^ 32"
  shows "copy_from (copy_from m d f a k) (d + k) f (a + k) l = copy_from m d f a (k + l)"
proof
  fix y
  have kl: "unat (k + l) = unat k + unat l" by (rule unat_add_exact) (use assms in simp)
  have e: "y - (d + k) = (y - d) - k" by simp
  show "copy_from (copy_from m d f a k) (d + k) f (a + k) l y = copy_from m d f a (k + l) y"
  proof (cases "y - d < k")
    case True
    have "unat ((y - d) - k) = 2 ^ 32 - (unat k - unat (y - d))"
      using True unat_sub_if' [of "y - d" k] by (simp add: word_less_nat_alt)
    moreover have "unat k - unat (y - d) \<le> unat k" by simp
    ultimately have "\<not> (y - (d + k)) < l" using assms True unfolding e by (simp add: word_less_nat_alt)
    moreover have "y - d < k + l" using True kl by (simp add: word_less_nat_alt)
    ultimately show ?thesis using True by (simp add: copy_from_def)
  next
    case False
    then have "unat ((y - d) - k) = unat (y - d) - unat k" by (intro unat_sub_exact) (simp add: not_less)
    then have "y - (d + k) < l \<longleftrightarrow> y - d < k + l" using False kl unfolding e by (auto simp: word_less_nat_alt)
    then show ?thesis using False by (simp add: copy_from_def)
  qed
qed

text \<open>A chunk lies in one block.\<close>

lemma chunk_block:
  assumes "unat off mod 512 + unat m \<le> 512" "unat off + unat m < 2 ^ 32" "i < m"
  shows "(off + i) div BSIZE = off div BSIZE" "(off + i) mod BSIZE = off mod BSIZE + i"
proof -
  have i: "unat i < unat m" using assms(3) by (simp add: word_less_nat_alt)
  have u: "unat (off + i) = unat off + unat i" by (rule unat_add_exact) (use i assms(2) in simp)
  have l: "unat off mod 512 + unat i < 512" using i assms(1) by simp
  have gen: "(512 * a + y) div 512 = a" "(512 * a + y) mod 512 = y" if "y < 512" for a y :: nat using that by simp_all
  have e: "unat off + unat i = 512 * (unat off div 512) + (unat off mod 512 + unat i)" by simp
  have dm: "(unat off + unat i) div 512 = unat off div 512" "(unat off + unat i) mod 512 = unat off mod 512 + unat i"
    unfolding e by (rule gen [OF l])+
  show "(off + i) div BSIZE = off div BSIZE" using dm(1) by (simp add: word_unat_eq_iff unat_div BSIZE_def u)
  have "unat (off mod BSIZE + i) = unat off mod 512 + unat i" using l
    by (subst unat_add_exact) (simp_all add: unat_mod BSIZE_def)
  then show "(off + i) mod BSIZE = off mod BSIZE + i" using dm(2) by (simp add: word_unat_eq_iff unat_mod BSIZE_def u)
qed

section \<open>Reading\<close>

lemma bc_mem [simp]: "bc c (s\<lparr>mem := m\<rparr>) M B D = bc c s M B D"
proof -
  have "sched_ok c (s\<lparr>mem := m\<rparr>) a = sched_ok c s a" for a
    by (simp add: sched_ok_def sched_rel_def tq_def nexts_def prevs_def cpu_ok_def cont_inv_def mat_inv_def in_use_def)
  then show ?thesis by (simp add: bc_def fs_ok_def sched_live_def dev_ready_def lru_def)
qed

lemma quiet_set_mem: "quiet s t \<Longrightarrow> quiet (s\<lparr>mem := m\<rparr>) (t\<lparr>mem := m\<rparr>)"
  by (simp add: quiet_def fs_keep_def fs_base_def pt_state.defs)

lemma mem_upd_mem [simp]: "s\<lparr>mem := a, mem := b\<rparr> = s\<lparr>mem := b\<rparr>" for s :: "'z pt_state_scheme"
  by simp

lemma readable_mem [simp]: "readable (s\<lparr>mem := m\<rparr>) B D k = readable s B D k" "block_mapped (s\<lparr>mem := m\<rparr>) B D x M bn = block_mapped s B D x M bn"
  by (simp_all add: readable_def block_mapped_def sector_ok_def)

lemma holds_mem [simp]: "holds (s\<lparr>mem := m\<rparr>) b k = holds s b k"
  by (simp add: holds_def)

lemma io_chunk_block: "left \<noteq> 0 \<Longrightarrow> unat off mod 512 + unat (io_chunk left off) \<le> 512"
  using io_chunk_bounds(3) [of left off] mod_less_divisor [of 512 "unat off"] by simp

lemma copy_chunk:
  assumes "unat off mod 512 + unat k \<le> 512" "unat off + unat k < 2 ^ 32"
  shows "copy_from m dst (M (i_dev x, fblock x M (off div BSIZE))) (off mod BSIZE) k = copy_from m dst (fbyte x M) off k"
  using chunk_block [OF assms] by (intro copy_from_cong) (simp add: fbyte_def)

lemma read_step:
  fixes s :: "'z ino_state_scheme"
  assumes s: "bc c s M B D" "ip - 1 < NINODE" "x = inodes s (ip - 1)" and t: "tot < n"
    and m: "block_mapped s B D x M (off div BSIZE)" "unat off + (unat n - unat tot) < 2 ^ 32" "k = io_chunk (n - tot) off"
  shows "\<exists>u. inode_read_loop ip n dst off tot s = inode_read_loop ip n (dst + k) (off + k) (tot + k) u \<and> bc c u M B D \<and>
    quiet (s\<lparr>mem := copy_from (mem s) dst (fbyte x M) off k\<rparr>) u"
proof -
  let ?d = "i_dev x" and ?bn = "fblock x M (off div BSIZE)"
  obtain a where a: "bmap ip (off div BSIZE) s = Inr (?bn, a)" "bc c a M B D" "quiet s a" using bmap_mapped [OF s(1) m(1) s(2,3)] by blast
  have rk: "readable a B D (?d, ?bn)" using m(1) quiet_readable [OF a(3)] by (simp add: block_mapped_def)
  obtain b v where v: "bufcache_read ?d ?bn a = Inr (b, v)" "bc c v M (insert (?d, ?bn) B) D" "holds v b (?d, ?bn)" "quiet a v"
    using read_block [OF a(2) rk] by blast
  let ?m = "copy_from (mem s) dst (fbyte x M) off k"
  have nz: "n - tot \<noteq> 0" using t by simp
  have un: "unat (n - tot) = unat n - unat tot" using t by (simp add: unat_sub_exact order_less_imp_le)
  have "copy_from (mem v) dst (M (?d, ?bn)) (off mod BSIZE) k = ?m"
    using copy_chunk [of off k] io_chunk_block [OF nz] io_chunk_bounds(2) [OF nz, of off] m(2,3) un
      quiet_mem [OF quiet_trans [OF a(3) v(4)]] by simp
  moreover have nb: "(?d, ?bn) \<notin> B" using rk by (simp add: readable_def)
  have "(?d, ?bn) \<in> D \<or> M (?d, ?bn) = disk (v\<lparr>mem := ?m\<rparr>) (fst (?d, ?bn)) (snd (?d, ?bn))"
    using bc_clean [OF a(2) nb] v(4) by (simp add: quiet_def)
  then obtain u where u: "bufcache_release b (v\<lparr>mem := ?m\<rparr>) = Inr ((), u)" "bc c u M B D" "quiet (v\<lparr>mem := ?m\<rparr>) u"
    using release_block [of c "v\<lparr>mem := ?m\<rparr>" M "(?d, ?bn)" B D b] v(2,3) nb by auto
  ultimately have "inode_read_loop ip n dst off tot s = inode_read_loop ip n (dst + k) (off + k) (tot + k) u"
    using t a(1) v(1) s(2,3) m(3) bget(1) [OF v(2,3)]
    by (simp add: inode_read_loop.simps [of ip n dst off tot] Let_def ino_get_def)
  then show ?thesis using u(2) quiet_trans [OF quiet_set_mem [OF quiet_trans [OF a(3) v(4)]] u(3)] by blast
qed

text \<open>A step of a loop over a range: the arithmetic of its counters.\<close>

lemma chunk_step:
  assumes "tot < n" "unat off + (unat n - unat tot) < 2 ^ 32" "k = io_chunk (n - tot) off"
  shows "unat (tot + k) = unat tot + unat k" "unat (off + k) = unat off + unat k" "0 < unat k" "unat k \<le> unat n - unat tot"
    "n - tot = k + (n - (tot + k))" "unat (n - (tot + k)) = unat n - unat tot - unat k" "unat off mod 512 + unat k \<le> 512"
proof -
  have nz: "n - tot \<noteq> 0" using assms(1) by simp
  have un: "unat (n - tot) = unat n - unat tot" using assms(1) by (simp add: unat_sub_exact order_less_imp_le)
  show k: "0 < unat k" "unat k \<le> unat n - unat tot" "unat off mod 512 + unat k \<le> 512"
    using io_chunk_bounds(1,2) [OF nz, of off] io_chunk_block [OF nz, of off] un assms(3) by simp_all
  show t: "unat (tot + k) = unat tot + unat k"
    using k unat_lt2p [of n] assms(1) by (intro unat_add_exact) (simp add: word_less_nat_alt)
  show "unat (off + k) = unat off + unat k" using k assms(2) by (intro unat_add_exact) simp
  show "n - tot = k + (n - (tot + k))" by simp
  have "tot + k \<le> n" using k t assms(1) by (simp add: word_le_nat_alt word_less_nat_alt)
  then show "unat (n - (tot + k)) = unat n - unat tot - unat k" using t by (simp add: unat_sub_exact)
qed

definition range_mapped :: "'z fs_state_scheme \<Rightarrow> bkey set \<Rightarrow> bkey set \<Rightarrow> inode \<Rightarrow> (bkey \<Rightarrow> memory) \<Rightarrow> u32 \<Rightarrow> nat \<Rightarrow> bool" where
  "range_mapped s B D x M off n \<longleftrightarrow>
     (\<forall>a. unat off \<le> unat a \<longrightarrow> unat a < unat off + n \<longrightarrow> block_mapped s B D x M (a div BSIZE))"

lemma range_mapped_quiet: "quiet s t \<Longrightarrow> range_mapped t B D x M off n = range_mapped s B D x M off n"
  using quiet_mapped [of s t] by (simp add: range_mapped_def)

lemma range_mapped_mem [simp]: "range_mapped (s\<lparr>mem := m\<rparr>) B D x M off n = range_mapped s B D x M off n"
  by (simp add: range_mapped_def)

lemma range_mapped_sub:
  "range_mapped s B D x M off n \<Longrightarrow> unat off \<le> unat off' \<Longrightarrow> unat off' + n' \<le> unat off + n \<Longrightarrow> range_mapped s B D x M off' n'"
  by (simp add: range_mapped_def)

lemma read_loop_ok:
  fixes s :: "'z ino_state_scheme"
  assumes "bc c s M B D" "ip - 1 < NINODE" "x = inodes s (ip - 1)" "tot \<le> n" "unat off + (unat n - unat tot) < 2 ^ 32"
    and "range_mapped s B D x M off (unat n - unat tot)"
  shows "\<exists>t. inode_read_loop ip n dst off tot s = Inr ((), t) \<and> bc c t M B D \<and>
    quiet (s\<lparr>mem := copy_from (mem s) dst (fbyte x M) off (n - tot)\<rparr>) t"
  using assms
proof (induction "unat n - unat tot" arbitrary: s dst off tot rule: less_induct)
  case less
  show ?case
  proof (cases "tot = n")
    case True
    then show ?thesis using less.prems(1) by (simp add: inode_read_loop.simps [of ip n dst off n])
  next
    case False
    then have lt: "tot < n" using less.prems(4) by simp
    define k where "k = io_chunk (n - tot) off"
    note a = chunk_step [OF lt less.prems(5) k_def]
    have "block_mapped s B D x M (off div BSIZE)"
      using less.prems(6) lt unfolding range_mapped_def by (auto simp: word_less_nat_alt)
    from read_step [OF less.prems(1-3) lt this less.prems(5) k_def] obtain u where
      u: "inode_read_loop ip n dst off tot s = inode_read_loop ip n (dst + k) (off + k) (tot + k) u" "bc c u M B D"
        "quiet (s\<lparr>mem := copy_from (mem s) dst (fbyte x M) off k\<rparr>) u" by blast
    have iu: "inodes u = inodes s" using quiet_inodes [OF u(3)] by simp
    have dec: "unat n - unat (tot + k) < unat n - unat tot" using a(1,3) lt by (simp add: word_less_nat_alt)
    have rm: "range_mapped u B D x M (off + k) (unat n - unat (tot + k))"
      using range_mapped_sub [OF less.prems(6), of "off + k"] a(1,2,4) range_mapped_quiet [OF u(3)] by simp
    have le: "tot + k \<le> n" using a(1,4) lt by (simp add: word_le_nat_alt word_less_nat_alt)
    have "x = inodes u (ip - 1)" "unat (off + k) + (unat n - unat (tot + k)) < 2 ^ 32"
      using less.prems(3,5) iu a(1,2,4) by simp_all
    from less.hyps [OF dec u(2) less.prems(2) this(1) le this(2) rm]
    obtain t where t: "inode_read_loop ip n (dst + k) (off + k) (tot + k) u = Inr ((), t)" "bc c t M B D"
      "quiet (u\<lparr>mem := copy_from (mem u) (dst + k) (fbyte x M) (off + k) (n - (tot + k))\<rparr>) t" by blast
    let ?m = "copy_from (mem s) dst (fbyte x M) off (n - tot)"
    have kn: "unat k + unat (n - (tot + k)) < 2 ^ 32" using a(4,6) unat_lt2p [of n] by simp
    have mu: "mem u = copy_from (mem s) dst (fbyte x M) off k" using quiet_mem [OF u(3)] by simp
    have cm: "copy_from (mem u) (dst + k) (fbyte x M) (off + k) (n - (tot + k)) = ?m"
      unfolding mu a(5) by (rule copy_from_split [OF kn])
    have q: "quiet (u\<lparr>mem := ?m\<rparr>) t" using t(3) unfolding cm .
    have "quiet (s\<lparr>mem := ?m\<rparr>) (u\<lparr>mem := ?m\<rparr>)" using quiet_set_mem [OF u(3), of ?m] unfolding mem_upd_mem .
    from quiet_trans [OF this q] show ?thesis using t(1,2) unfolding u(1) by blast
  qed
qed

text \<open>Reading returns the bytes from the offset to the end of the file, at most as many as asked for.\<close>

lemma inode_read_ok:
  fixes s :: "'z ino_state_scheme"
  assumes s: "bc c s M B D" "ip - 1 < NINODE" "x = inodes s (ip - 1)" "i_type x \<noteq> T_DEV" "off \<le> i_size x" "unat off + unat n < 2 ^ 32"
    and "k = (if off + n > i_size x then i_size x - off else n)" "range_mapped s B D x M off (unat k)"
  shows "\<exists>t. inode_read devsw ip dst off n s = Inr (k, t) \<and> bc c t M B D \<and>
    quiet (s\<lparr>mem := copy_from (mem s) dst (fbyte x M) off k\<rparr>) t"
proof -
  have "unat (off + n) = unat off + unat n" by (rule unat_add_exact) (use s(6) in simp)
  then have no: "\<not> off + n < off" by (simp add: word_less_nat_alt)
  have "unat (i_size x - off) = unat (i_size x) - unat off" using s(5) by (rule unat_sub_exact)
  then have "unat off + unat k < 2 ^ 32" using s(5,6) assms(7) unat_lt2p [of "i_size x"] by (simp add: word_le_nat_alt)
  then obtain t where t: "inode_read_loop ip k dst off 0 s = Inr ((), t)" "bc c t M B D"
    "quiet (s\<lparr>mem := copy_from (mem s) dst (fbyte x M) off k\<rparr>) t"
    using read_loop_ok [OF s(1-3), of 0 k off dst] assms(8) by auto
  have get: "ino_get (\<lambda>x. x) ip s = Inr (x, s)" using s(2,3) by (simp add: ino_get_def)
  have "\<not> (i_size x < off \<or> off + n < off)" using s(5) no by (simp add: not_less)
  then have "inode_read devsw ip dst off n s = kseq (inode_read_loop ip k dst off 0) (kret k) s"
    using get s(4) unfolding inode_read_def Let_def assms(7) by simp
  then have "inode_read devsw ip dst off n s = Inr (k, t)" using t(1) by simp
  then show ?thesis using t(2,3) by blast
qed

section \<open>Writing under the log\<close>

lemma log_keep_ino:
  assumes "log_keep s t"
  shows "inodes t = inodes s" "mem t = mem s"
proof -
  show "inodes t = inodes s" using assms by (cases s, cases t) (simp add: log_keep_def)
  show "mem t = mem s" using assms by (simp add: log_keep_def fs_base_def pt_state.defs)
qed

lemma quiet_lstep: "quiet s t \<Longrightarrow> lstep s t"
  by (auto simp: quiet_def intro: lstep_same)

definition home_mapped :: "'z log_state_scheme \<Rightarrow> inode \<Rightarrow> (bkey \<Rightarrow> memory) \<Rightarrow> u32 \<Rightarrow> bool" where
  "home_mapped s x H bn \<longleftrightarrow> bn < MAXFILE \<and> fblock x H bn \<noteq> 0 \<and> home s (i_dev x, fblock x H bn) \<and>
     (NDIRECT \<le> bn \<longrightarrow> i_addrs x NDIRECT \<noteq> 0 \<and> home s (i_dev x, i_addrs x NDIRECT))"

lemma home_mapped_keep: "log_keep s t \<Longrightarrow> home_mapped t x H bn = home_mapped s x H bn"
  by (simp add: home_mapped_def lstep_sels(5))

lemma home_mapped_block:
  assumes "home_mapped s x H bn" "\<And>k. home s k \<Longrightarrow> M k = H k" "\<And>k. home s k \<Longrightarrow> readable s B D k"
  shows "fblock x M bn = fblock x H bn" "block_mapped s B D x M bn"
proof -
  show e: "fblock x M bn = fblock x H bn"
    using assms(1,2) by (auto simp: home_mapped_def fblock_def not_less)
  show "block_mapped s B D x M bn" using assms(1,3) e by (auto simp: home_mapped_def block_mapped_def)
qed

lemma t_bmap:
  fixes s :: "'z ino_state_scheme"
  assumes s: "txn c s H {} {} xs" "home_mapped s x H bn" "ip - 1 < NINODE" "x = inodes s (ip - 1)"
  shows "\<exists>t. bmap ip bn s = Inr (fblock x H bn, t) \<and> txn c t H {} {} xs \<and> lstep s t"
proof -
  obtain M where M: "txn_map c s M {} {} xs" "\<And>k. home s k \<Longrightarrow> M k = H k" using s(1) by (auto simp: txn_def)
  let ?D = "lhk s ` set xs"
  have bc: "bc c s M {} ?D" "length xs \<le> 9" using M(1) by (simp_all add: txn_map_def)
  have cd: "card ?D \<le> 9" using card_image_le [of "set xs" "lhk s"] card_length [of xs] bc(2) by simp
  have "readable s {} ?D k" if "home s k" for k
  proof -
    have "sector_ok s (fst k) (snd k)" using that unfolding home_def by blast
    then show ?thesis using card_insert_le_m1 [of 10 ?D k] cd by (simp add: readable_def)
  qed
  note e = home_mapped_block [OF s(2) M(2) this]
  obtain t where t: "bmap ip bn s = Inr (fblock x H bn, t)" "bc c t M {} ?D" "quiet s t"
    using bmap_mapped [OF bc(1) e(2) s(3,4)] e(1) by auto
  have "txn_map c t M {} {} xs"
    by (rule txn_map_cong [OF M(1) _ t(2)]) (use t(3) M(1) in \<open>auto simp: quiet_def txn_map_def\<close>)
  moreover have "home t = home s" using quiet_lstep [OF t(3)] lstep_sels(5) by (auto simp: lstep_def)
  ultimately have "txn c t H {} {} xs" using M(2) by (auto simp: txn_def)
  then show ?thesis using t(1) quiet_lstep [OF t(3)] by blast
qed

text \<open>One block of a write.\<close>

lemma kseq_change: "kseq a (kseq b c) s = Inr ((), t) \<Longrightarrow> kseq a (kseq b (kseq c r)) s = r t"
  by (auto simp: kseq_def kbind_def split: sum.splits)

lemma write_step:
  fixes s :: "'z ino_state_scheme"
  assumes s: "txn c s H {} {} xs" "ip - 1 < NINODE" "x = inodes s (ip - 1)" "i_dev x = log_dev s" and t: "tot < n"
    and m: "home_mapped s x H (off div BSIZE)" "k = io_chunk (n - tot) off" "b = fblock x H (off div BSIZE)"
    and c: "card (insert b (set xs)) \<le> 9"
  shows "\<exists>u. inode_write_loop ip n src off tot s = inode_write_loop ip n (src + k) (off + k) (tot + k) u \<and> lstep s u \<and>
    txn c u (update (i_dev x) (b, \<lambda>data. copy_from data (off mod BSIZE) (mem s) src k) H) {} {} (ins b xs)"
proof -
  obtain a where a: "bmap ip (off div BSIZE) s = Inr (b, a)" "txn c a H {} {} xs" "lstep s a"
    using t_bmap [OF s(1) m(1) s(2,3)] m(3) by blast
  have ka: "log_keep s a" using a(3) by (simp add: lstep_def)
  note ea = lstep_sels [OF ka]
  have hb: "home a (lhk a b)" using m(1,3) s(4) by (simp add: home_mapped_def ea lhk_def)
  have "card (insert (lhk a b) ({} \<union> lhk a ` set xs)) \<le> card (insert b (set xs))"
    using card_image_le [of "insert b (set xs)" "lhk a"] by simp
  then have c9: "card (insert (lhk a b) ({} \<union> lhk a ` set xs)) \<le> 9" "card (insert (lhk a b) ({} \<union> lhk a ` set xs)) \<le> 10" using c by simp_all
  obtain p v where v: "bufcache_read (log_dev a) b a = Inr (p, v)" "txn c v H (insert (lhk a b) {}) {} xs" "holds v p (lhk a b)" "lstep a v"
    using t_read [OF a(2) hb _ c9(2)] by blast
  have kv: "log_keep a v" using v(4) by (simp add: lstep_def)
  note ev = lstep_sels [OF kv]
  let ?f = "\<lambda>data. copy_from data (off mod BSIZE) (mem s) src k"
  obtain w where w: "kseq (buf_put (\<lambda>y. y\<lparr>b_data := ?f (b_data y)\<rparr>) p) (kseq (log_write p) (bufcache_release p)) v = Inr ((), w)"
    "txn c w (update (log_dev v) (b, ?f) H) {} {} (ins b xs)" "lstep v w"
    using t_change [of c v H b "{}" xs p ?f] v(2,3) c9(1) unfolding ev by auto
  have mv: "mem v = mem s" using log_keep_ino(2) [OF ka] log_keep_ino(2) [OF kv] by simp
  have "inode_write_loop ip n src off tot s = inode_write_loop ip n (src + k) (off + k) (tot + k) w"
    using t a(1) v(1) s(2-4) m(2) mv kseq_change [OF w(1)] ea(1)
    by (simp add: inode_write_loop.simps [of ip n src off tot] Let_def ino_get_def)
  then show ?thesis using w(2) lstep_trans [OF lstep_trans [OF a(3) v(4)] w(3)] s(4) ea(1) ev(1) by auto
qed

text \<open>
  The first \<open>z\<close> blocks of a file are different sectors, none of them the block of block
  numbers. A change inside one of them changes these bytes of the file only.
\<close>

definition file_shape :: "inode \<Rightarrow> (bkey \<Rightarrow> memory) \<Rightarrow> u32 \<Rightarrow> bool" where
  "file_shape x H z \<longleftrightarrow> (\<forall>i < z. \<forall>j < z. fblock x H i = fblock x H j \<longrightarrow> i = j) \<and>
     (NDIRECT < z \<longrightarrow> (\<forall>i < z. fblock x H i \<noteq> i_addrs x NDIRECT))"

lemma shape_update:
  assumes z: "file_shape x H z" "bn < z" "i < z"
  shows "fblock x (update (i_dev x) (fblock x H bn, f) H) i = fblock x H i"
proof (cases "i < NDIRECT")
  case False
  then have "NDIRECT < z" using z(3) by simp
  then have "fblock x H bn \<noteq> i_addrs x NDIRECT" using z(1,2) by (simp add: file_shape_def)
  then show ?thesis using False by (simp add: fblock_def [of x _ i] update_def)
qed (simp add: fblock_def [of x _ i])

lemma fbyte_update:
  assumes z: "file_shape x H z" "off div BSIZE < z" "a div BSIZE < z" and k: "unat off mod 512 + unat k \<le> 512" "unat off + unat k < 2 ^ 32"
  shows "fbyte x (update (i_dev x) (fblock x H (off div BSIZE), \<lambda>data. copy_from data (off mod BSIZE) m src k) H) a =
    copy_from (fbyte x H) off m src k a"
proof -
  let ?H = "update (i_dev x) (fblock x H (off div BSIZE), \<lambda>data. copy_from data (off mod BSIZE) m src k) H"
  have fb: "fblock x ?H (a div BSIZE) = fblock x H (a div BSIZE)" using shape_update [OF z(1,2,3)] .
  have at: "fbyte x ?H a = ?H (i_dev x, fblock x H (a div BSIZE)) (a mod BSIZE)" unfolding fbyte_def fb ..
  show ?thesis
  proof (cases "a div BSIZE = off div BSIZE")
    case True
    have "a mod BSIZE - off mod BSIZE = a - off"
      using True by (metis (no_types, lifting) add_diff_cancel_left diff_add_cancel word_mod_div_equality add.commute add_diff_eq)
    then show ?thesis unfolding at True by (simp add: fbyte_def True update_def copy_from_def)
  next
    case False
    then have "fblock x H (a div BSIZE) \<noteq> fblock x H (off div BSIZE)" using z by (auto simp: file_shape_def)
    moreover have "\<not> a - off < k"
    proof
      assume "a - off < k"
      from chunk_block(1) [OF k this] show False using False by simp
    qed
    ultimately show ?thesis unfolding at by (simp add: fbyte_def update_def copy_from_def)
  qed
qed

lemma file_shape_update:
  "file_shape x H z \<Longrightarrow> bn < z \<Longrightarrow> file_shape x (update (i_dev x) (fblock x H bn, f) H) z"
  using shape_update [of x H z bn] by (auto simp: file_shape_def)

text \<open>
  A write loop. \<open>wrote\<close> says what it leaves: the bytes of the range are those of the buffer, the
  other bytes of the file are unchanged, and so are all sectors that are not blocks of the file.
\<close>

definition wrote :: "inode \<Rightarrow> u32 \<Rightarrow> (bkey \<Rightarrow> memory) \<Rightarrow> u32 \<Rightarrow> memory \<Rightarrow> u32 \<Rightarrow> u32 \<Rightarrow> (bkey \<Rightarrow> memory) \<Rightarrow> bool" where
  "wrote x z H off m src n H' \<longleftrightarrow>
     (\<forall>a. a div BSIZE < z \<longrightarrow> fbyte x H' a = copy_from (fbyte x H) off m src n a) \<and>
     (\<forall>k. (\<forall>i < z. k \<noteq> (i_dev x, fblock x H i)) \<longrightarrow> H' k = H k) \<and> (\<forall>i < z. fblock x H' i = fblock x H i)"

lemma wrote_0: "wrote x z H off m src 0 H"
  by (simp add: wrote_def)

lemma wrote_split:
  assumes "wrote x z H off m src k H1" "wrote x z H1 (off + k) m (src + k) l H2" "unat k + unat l < 2 ^ 32"
  shows "wrote x z H off m src (k + l) H2"
proof -
  have "fbyte x H2 a = copy_from (fbyte x H) off m src (k + l) a" if a: "a div BSIZE < z" for a
  proof -
    have "copy_from (copy_from (fbyte x H) off m src k) (off + k) m (src + k) l a = copy_from (fbyte x H1) (off + k) m (src + k) l a"
      using assms(1) a by (simp add: wrote_def copy_from_def)
    then show ?thesis using assms(2) a copy_from_split [OF assms(3), of "fbyte x H" off m src] by (simp add: wrote_def)
  qed
  then show ?thesis using assms(1,2) unfolding wrote_def by simp
qed

lemma wrote_block:
  assumes "file_shape x H z" "off div BSIZE < z" "unat off mod 512 + unat k \<le> 512" "unat off + unat k < 2 ^ 32"
  shows "wrote x z H off m src k (update (i_dev x) (fblock x H (off div BSIZE), \<lambda>data. copy_from data (off mod BSIZE) m src k) H)"
  using fbyte_update [OF assms(1,2) _ assms(3,4)] shape_update [OF assms(1,2)] assms(2) unfolding wrote_def by (auto simp: update_def)

lemma wrote_mapped: "wrote x z H off m src n H' \<Longrightarrow> i < z \<Longrightarrow> home_mapped s x H' i = home_mapped s x H i"
  by (simp add: wrote_def home_mapped_def)

lemma wrote_shape: "wrote x z H off m src n H' \<Longrightarrow> file_shape x H' z = file_shape x H z"
  by (simp add: wrote_def file_shape_def)

definition touched :: "inode \<Rightarrow> (bkey \<Rightarrow> memory) \<Rightarrow> u32 \<Rightarrow> nat \<Rightarrow> u32 set" where
  "touched x H off n = {fblock x H (a div BSIZE) | a. unat off \<le> unat a \<and> unat a < unat off + n}"

lemma off_block: "unat off + n \<le> 512 * unat z \<Longrightarrow> 0 < n \<Longrightarrow> off div BSIZE < z"
  by (simp add: word_less_nat_alt unat_div BSIZE_def)

lemma touched_sub:
  assumes w: "wrote x z H off m src k H'" and "unat off + l \<le> 512 * unat z" "unat off \<le> unat off'" "unat off' + l' \<le> unat off + l"
  shows "touched x H' off' l' \<subseteq> touched x H off l"
proof
  fix y assume "y \<in> touched x H' off' l'"
  then obtain a where a: "y = fblock x H' (a div BSIZE)" "unat off' \<le> unat a" "unat a < unat off' + l'" by (auto simp: touched_def)
  then have "unat a < 512 * unat z" using assms(2,4) by simp
  then have "a div BSIZE < z" by (simp add: word_less_nat_alt unat_div BSIZE_def)
  then have "y = fblock x H (a div BSIZE)" using w a(1) by (simp add: wrote_def)
  then show "y \<in> touched x H off l" using a(2,3) assms(3,4) by (auto simp: touched_def)
qed

lemma write_loop_ok:
  fixes s :: "'z ino_state_scheme"
  assumes "txn c s H {} {} xs" "ip - 1 < NINODE" "x = inodes s (ip - 1)" "i_dev x = log_dev s" "tot \<le> n"
    and "unat off + (unat n - unat tot) \<le> 512 * unat z" "512 * unat z < 2 ^ 32" "file_shape x H z" "\<And>i. i < z \<Longrightarrow> home_mapped s x H i"
    and "touched x H off (unat n - unat tot) \<union> set xs \<subseteq> T" "finite T" "card T \<le> 9"
  shows "\<exists>t H' ys. inode_write_loop ip n src off tot s = Inr (off + (n - tot), t) \<and> txn c t H' {} {} ys \<and> lstep s t \<and>
    wrote x z H off (mem s) src (n - tot) H'"
  using assms(1-10)
proof (induction "unat n - unat tot" arbitrary: s H xs src off tot rule: less_induct)
  case less
  show ?case
  proof (cases "tot = n")
    case True
    then show ?thesis using less.prems(1) wrote_0 by (auto simp: inode_write_loop.simps [of ip n src off n])
  next
    case False
    then have lt: "tot < n" using less.prems(5) by simp
    then have pos: "0 < unat n - unat tot" by (simp add: word_less_nat_alt)
    define k where "k = io_chunk (n - tot) off"
    define b where "b = fblock x H (off div BSIZE)"
    have bound: "unat off + (unat n - unat tot) < 2 ^ 32" using less.prems(6,7) by simp
    note a = chunk_step [OF lt bound k_def]
    have bz: "off div BSIZE < z" by (rule off_block [OF less.prems(6) pos])
    have "unat off \<le> unat off" "unat off < unat off + (unat n - unat tot)" using pos by simp_all
    then have "b \<in> touched x H off (unat n - unat tot)" unfolding touched_def b_def by blast
    then have "b \<in> T" using less.prems(10) by blast
    then have "insert b (set xs) \<subseteq> T" using less.prems(10) by simp
    then have "card (insert b (set xs)) \<le> 9" using card_mono [OF assms(11)] assms(12) by (meson order_trans)
    from write_step [OF less.prems(1-4) lt less.prems(9) [OF bz] k_def b_def this] obtain u where
      u: "inode_write_loop ip n src off tot s = inode_write_loop ip n (src + k) (off + k) (tot + k) u" "lstep s u"
        "txn c u (update (i_dev x) (b, \<lambda>data. copy_from data (off mod BSIZE) (mem s) src k) H) {} {} (ins b xs)" by blast
    let ?H = "update (i_dev x) (b, \<lambda>data. copy_from data (off mod BSIZE) (mem s) src k) H"
    have "unat off + unat k < 2 ^ 32" using bound a(4) by simp
    from wrote_block [OF less.prems(8) bz a(7) this] have w: "wrote x z H off (mem s) src k ?H" unfolding b_def .
    have ku: "log_keep s u" using u(2) by (simp add: lstep_def)
    note eu = log_keep_ino [OF ku]
    have dec: "unat n - unat (tot + k) < unat n - unat tot" using a(1,3) lt by (simp add: word_less_nat_alt)
    have le: "tot + k \<le> n" using a(1,4) lt by (simp add: word_le_nat_alt word_less_nat_alt)
    have p: "x = inodes u (ip - 1)" "i_dev x = log_dev u" "unat (off + k) + (unat n - unat (tot + k)) \<le> 512 * unat z"
      using less.prems(3,4,6) a(1,2,4) lstep_sels(1) [OF ku] by (simp_all add: eu)
    have hm: "home_mapped u x ?H i" if "i < z" for i
      using less.prems(9) [OF that] wrote_mapped [OF w that, of s] home_mapped_keep [OF ku] by simp
    have sh: "file_shape x ?H z" using less.prems(8) wrote_shape [OF w] by simp
    have "touched x ?H (off + k) (unat n - unat (tot + k)) \<subseteq> touched x H off (unat n - unat tot)"
      by (rule touched_sub [OF w less.prems(6)]) (use a(1,2,4) in simp_all)
    then have tt: "touched x ?H (off + k) (unat n - unat (tot + k)) \<union> set (ins b xs) \<subseteq> T" using less.prems(10) \<open>b \<in> T\<close> by auto
    from less.hyps [OF dec u(3) less.prems(2) p(1,2) le p(3) less.prems(7) sh hm tt, of "src + k"]
    obtain t H' ys where t: "inode_write_loop ip n (src + k) (off + k) (tot + k) u = Inr (off + k + (n - (tot + k)), t)"
      "txn c t H' {} {} ys" "lstep u t" "wrote x z ?H (off + k) (mem u) (src + k) (n - (tot + k)) H'" by blast
    have kn: "unat k + unat (n - (tot + k)) < 2 ^ 32" using a(4,6) unat_lt2p [of n] by simp
    have "wrote x z H off (mem s) src (k + (n - (tot + k))) H'" by (rule wrote_split [OF w t(4) [unfolded eu] kn])
    then have "wrote x z H off (mem s) src (n - tot) H'" unfolding a(5) [symmetric] .
    moreover have "off + k + (n - (tot + k)) = off + (n - tot)" by simp
    ultimately show ?thesis unfolding u(1) using t(1,2) lstep_trans [OF u(2) t(3)] by metis
  qed
qed

section \<open>Files\<close>

text \<open>A regular file whose first \<open>z\<close> blocks are mapped and hold its contents.\<close>

definition file_ok :: "'z log_state_scheme \<Rightarrow> inode \<Rightarrow> (bkey \<Rightarrow> memory) \<Rightarrow> u32 \<Rightarrow> bool" where
  "file_ok s x H z \<longleftrightarrow> i_dev x = log_dev s \<and> i_type x \<noteq> T_DEV \<and> z \<le> MAXFILE \<and> unat (i_size x) \<le> 512 * unat z \<and>
     (\<forall>i < z. home_mapped s x H i) \<and> file_shape x H z"

definition write_pre :: "u32 \<Rightarrow> inode \<Rightarrow> u32 \<Rightarrow> u32 \<Rightarrow> u32 \<Rightarrow> memory \<Rightarrow> 'z ino_state_scheme \<Rightarrow> (bkey \<Rightarrow> memory) \<Rightarrow> bool" where
  "write_pre ip x z off n m s H \<longleftrightarrow> ip - 1 < NINODE \<and> x = inodes s (ip - 1) \<and> m = mem s \<and> file_ok s x H z \<and>
     unat off + unat n \<le> unat (i_size x) \<and> unat n \<le> 4096"

lemma touched_card: "n \<le> 4096 \<Longrightarrow> finite (touched x H off n)" "n \<le> 4096 \<Longrightarrow> card (touched x H off n) \<le> 9"
proof -
  assume n: "n \<le> 4096"
  let ?q = "unat off div 512" and ?f = "\<lambda>i. fblock x H (of_nat i)"
  have sub: "touched x H off n \<subseteq> ?f ` {?q ..< ?q + 9}"
  proof
    fix y assume "y \<in> touched x H off n"
    then obtain a where a: "y = fblock x H (a div BSIZE)" "unat off \<le> unat a" "unat a < unat off + n" by (auto simp: touched_def)
    have "unat (a div BSIZE) = unat a div 512" by (simp add: unat_div BSIZE_def)
    moreover have "of_nat (unat (a div BSIZE)) = a div BSIZE" by simp
    ultimately have "a div BSIZE = of_nat (unat a div 512)" by metis
    moreover have "?q \<le> unat a div 512" using a(2) by (rule div_le_mono)
    moreover have "unat a div 512 < ?q + 9" using a(3) n by simp
    ultimately show "y \<in> ?f ` {?q ..< ?q + 9}" using a(1) by auto
  qed
  then show "finite (touched x H off n)" by (rule finite_subset) simp
  have "card (touched x H off n) \<le> card (?f ` {?q ..< ?q + 9})" by (rule card_mono [OF _ sub]) simp
  also have "\<dots> \<le> 9" using card_image_le [of "{?q ..< ?q + 9}" ?f] by simp
  finally show "card (touched x H off n) \<le> 9" .
qed

lemma inode_write_ok:
  fixes s :: "'z ino_state_scheme"
  assumes s: "txn c s H {} {} []" "write_pre ip x z off n (mem s) s H"
  shows "\<exists>t H' ys. inode_write devsw ip src off n s = Inr (n, t) \<and> txn c t H' {} {} ys \<and> lstep s t \<and> wrote x z H off (mem s) src n H'"
proof -
  have p: "ip - 1 < NINODE" "x = inodes s (ip - 1)" "i_dev x = log_dev s" "i_type x \<noteq> T_DEV" "unat off + unat n \<le> unat (i_size x)"
    "unat (i_size x) \<le> 512 * unat z" "file_shape x H z" "unat n \<le> 4096" "\<And>i. i < z \<Longrightarrow> home_mapped s x H i"
    using s(2) by (auto simp: write_pre_def file_ok_def)
  have z: "unat z \<le> 140" using s(2) by (auto simp: write_pre_def file_ok_def MAXFILE_def NDIRECT_def NINDIRECT_def word_le_nat_alt)
  have "\<exists>t H' ys. inode_write_loop ip n src off 0 s = Inr (off + (n - 0), t) \<and> txn c t H' {} {} ys \<and> lstep s t \<and>
    wrote x z H off (mem s) src (n - 0) H'"
    by (rule write_loop_ok [OF s(1) p(1-3) _ _ _ p(7,9), where T = "touched x H off (unat n)"])
      (use p(5,6) z touched_card [OF p(8), of x H off] in simp_all)
  then obtain t H' ys where t: "inode_write_loop ip n src off 0 s = Inr (off + n, t)" "txn c t H' {} {} ys" "lstep s t"
    "wrote x z H off (mem s) src n H'" by auto
  have u: "unat (off + n) = unat off + unat n" using p(5) unat_lt2p [of "i_size x"] by (intro unat_add_exact) simp
  have ok: "\<not> (i_size x < off \<or> off + n < off)" "\<not> MAXFILE * BSIZE < off + n" "\<not> i_size x < off + n"
    using p(5,6) z u by (auto simp: word_less_nat_alt MAXFILE_def NDIRECT_def NINDIRECT_def BSIZE_def)
  have k: "log_keep s t" using t(3) by (simp add: lstep_def)
  have get: "ino_get (\<lambda>x. x) ip s = Inr (x, s)" "ino_get i_size ip t = Inr (i_size x, t)"
    using p(1,2) log_keep_ino(1) [OF k] by (simp_all add: ino_get_def)
  have "inode_write devsw ip src off n s = Inr (n, t)"
    using get t(1) p(4) ok unfolding inode_write_def by simp
  then show ?thesis using t(2-4) by blast
qed

lemma file_ok_keep: "log_keep s t \<Longrightarrow> file_ok t x H z = file_ok s x H z"
  using home_mapped_keep [of s t] lstep_sels(1) [of s t] by (simp add: file_ok_def)

interpretation wr: trans_body "inode_write devsw ip src off n" "write_pre ip x z off n m" "\<lambda>s H r H'. r = n \<and> wrote x z H off m src n H'"
proof
  fix c H and s :: "'a ino_state_scheme"
  assume a: "txn c s H {} {} []" "write_pre ip x z off n m s H"
  then have m: "m = mem s" by (simp add: write_pre_def)
  show "\<exists>r t H' xs. inode_write devsw ip src off n s = Inr (r, t) \<and> txn c t H' {} {} xs \<and> lstep s t \<and> r = n \<and> wrote x z H off m src n H'"
    using inode_write_ok [OF a(1) a(2) [unfolded m]] m by blast
next
  fix H and s t :: "'a ino_state_scheme"
  assume a: "write_pre ip x z off n m s H" "log_keep s t"
  show "write_pre ip x z off n m t H" using a(1) log_keep_ino [OF a(2)] file_ok_keep [OF a(2)] by (auto simp: write_pre_def)
qed

lemma inode_read_idle:
  fixes s :: "'z ino_state_scheme"
  assumes s: "idle c s H" "ip - 1 < NINODE" "x = inodes s (ip - 1)" "file_ok s x H z" "unat off + unat n \<le> unat (i_size x)"
  shows "\<exists>t. inode_read devsw ip dst off n s = Inr (n, t) \<and> quiet (s\<lparr>mem := copy_from (mem s) dst (fbyte x H) off n\<rparr>) t"
proof -
  let ?M = "\<lambda>(d, n). disk s d n"
  have bc: "bc c s ?M {} {}" and hM: "\<And>k. home s k \<Longrightarrow> ?M k = H k" using s(1) by (auto simp: idle_def fresh_def)
  have rd: "readable s {} {} k" if "home s k" for k
  proof -
    have "sector_ok s (fst k) (snd k)" using that unfolding home_def by blast
    then show ?thesis by (simp add: readable_def)
  qed
  have f: "i_type x \<noteq> T_DEV" "unat (i_size x) \<le> 512 * unat z" "\<And>i. i < z \<Longrightarrow> home_mapped s x H i"
    using s(4) by (auto simp: file_ok_def)
  have blk: "a div BSIZE < z" if "unat a < unat off + unat n" for a
    using that s(5) f(2) by (simp add: word_less_nat_alt unat_div BSIZE_def)
  have byte: "fbyte x ?M a = fbyte x H a" if a: "unat a < unat off + unat n" for a
  proof -
    have hm: "home_mapped s x H (a div BSIZE)" by (rule f(3) [OF blk [OF a]])
    then have "home s (i_dev x, fblock x H (a div BSIZE))" by (simp add: home_mapped_def)
    from hM [OF this] have "disk s (i_dev x) (fblock x H (a div BSIZE)) = H (i_dev x, fblock x H (a div BSIZE))" by simp
    moreover have "fblock x ?M (a div BSIZE) = fblock x H (a div BSIZE)" by (rule home_mapped_block(1) [OF hm hM rd])
    ultimately show ?thesis by (simp add: fbyte_def)
  qed
  have u: "unat (off + n) = unat off + unat n" using s(5) unat_lt2p [of "i_size x"] by (intro unat_add_exact) simp
  have "range_mapped s {} {} x ?M off (unat n)"
    using home_mapped_block(2) [OF f(3) [OF blk] hM rd] unfolding range_mapped_def by blast
  moreover have "off \<le> i_size x" "unat off + unat n < 2 ^ 32" "n = (if i_size x < off + n then i_size x - off else n)"
    using s(5) u unat_lt2p [of "i_size x"] by (simp_all add: word_le_nat_alt word_less_nat_alt)
  ultimately obtain t where t: "inode_read devsw ip dst off n s = Inr (n, t)" "quiet (s\<lparr>mem := copy_from (mem s) dst (fbyte x ?M) off n\<rparr>) t"
    using inode_read_ok [OF bc s(2,3) f(1), of off n n devsw dst] by blast
  have "copy_from (mem s) dst (fbyte x ?M) off n = copy_from (mem s) dst (fbyte x H) off n"
  proof (rule copy_from_cong)
    fix i assume "i < n"
    then have "unat (off + i) < unat off + unat n" using s(5) unat_lt2p [of "i_size x"]
      by (subst unat_add_exact) (simp_all add: word_less_nat_alt)
    then show "fbyte x ?M (off + i) = fbyte x H (off + i)" by (rule byte)
  qed
  then show ?thesis using t by auto
qed


text \<open>A file of one block, block 20 of the disk.\<close>

definition sample_inode :: inode where
  "sample_inode = no_inode\<lparr>i_dev := 1, i_inum := 5, i_ref := 1, i_flags := I_VALID, i_type := T_FILE, i_nlink := 1, i_size := 100,
     i_addrs := (\<lambda>_. 0)(0 := 20)\<rparr>"

definition with_file :: "memory \<Rightarrow> ino_state" where
  "with_file m = (with_inodes (\<lambda>_ _ _. 0))\<lparr>inodes := (\<lambda>_. sample_inode), mem := m\<rparr>"

lemma bc_truncate: "bc c (log_state.truncate s) M B D = bc c s M B D"
proof -
  have "sched_ok c (log_state.truncate s) a = sched_ok c s a" for a
    by (simp add: sched_ok_def sched_rel_def tq_def nexts_def prevs_def cpu_ok_def cont_inv_def mat_inv_def in_use_def log_state.defs)
  then show ?thesis
    by (simp add: bc_def fs_ok_def sched_live_def dev_ready_def lru_def log_state.defs)
qed

lemma idle_truncate: "idle c (log_state.truncate s) H = idle c s H"
  unfolding idle_def fresh_def bc_truncate
  by (simp add: log_geom_def log_room_def home_def sector_ok_def log_state.defs)

lemma idle_mem: "idle c (s\<lparr>mem := m\<rparr>) H = idle c s H"
  by (simp add: idle_def fresh_def log_geom_def log_room_def home_def sector_ok_def)

lemma home_truncate: "home (log_state.truncate s) k = home s k"
  by (simp add: home_def sector_ok_def log_state.defs)

lemma with_file_log: "log_state.truncate (with_file m) = (with_log (\<lambda>_ _ _. 0))\<lparr>mem := m\<rparr>"
  by (simp add: with_file_def with_inodes_def log_state.defs ino_state.defs)

lemma with_file_idle: "idle 0 (with_file m) (\<lambda>_ _. 0)"
proof -
  have "idle 0 (with_log (\<lambda>_ _ _. 0)) (\<lambda>(d, n). (\<lambda>_ _ _. 0) d n)" by (rule with_log_idle) (simp add: load32_def)
  then have "idle 0 (log_state.truncate (with_file m)) (\<lambda>_ _. 0)" unfolding with_file_log idle_mem by (simp add: case_prod_unfold)
  then show ?thesis unfolding idle_truncate .
qed

lemma with_file_home: "n < 100 \<Longrightarrow> home (with_file m) (1, n)"
proof -
  assume "n < 100"
  then have "home (with_log (\<lambda>_ _ _. 0)) (1, n)" by (rule with_log_home)
  then have "home (log_state.truncate (with_file m)) (1, n)" unfolding with_file_log by (simp add: home_def sector_ok_def)
  then show ?thesis unfolding home_truncate .
qed

lemma with_file_ok: "file_ok (with_file m) sample_inode (\<lambda>_ _. 0) 1"
proof -
  have i0: "i < 1 \<longleftrightarrow> i = 0" for i :: u32 by (simp add: word_less_nat_alt unat_eq_0)
  have fb: "fblock sample_inode (\<lambda>_ _. 0) 0 = 20" by (simp add: fblock_def sample_inode_def NDIRECT_def)
  have "log_dev (with_file m) = 1" by (simp add: with_file_def with_inodes_def log_state.defs)
  moreover have "home_mapped (with_file m) sample_inode (\<lambda>_ _. 0) 0"
    using with_file_home [of 20 m] fb
    by (simp add: home_mapped_def) (simp add: sample_inode_def MAXFILE_def NDIRECT_def NINDIRECT_def)
  moreover have "file_shape sample_inode (\<lambda>_ _. 0) 1" by (auto simp: file_shape_def i0 NDIRECT_def)
  ultimately show ?thesis
    unfolding file_ok_def i0 by (simp add: sample_inode_def T_DEV_def T_FILE_def MAXFILE_def NDIRECT_def NINDIRECT_def)
qed


end
