(* ===== verification/Ipc.thy ===== *)
theory Ipc
  imports Sched UserCopy
begin

text \<open>
  Messages between processes, \<^verbatim>\<open>kern/lib/ipc.c\<close>: the queue of senders, the two searches and the
  copy between address spaces. Main results: the queue operations implement a list, the search
  for a sender returns, and the search for a receiver does not return when the first message of
  the queue is for another process.
\<close>

section \<open>The operations\<close>

text \<open>The \<^verbatim>\<open>int\<close> fields are kept as 32-bit words; the two condition variables are used for their addresses only.\<close>

record MsgBlock =
  m_prev :: u32
  m_next :: u32
  send_pid :: u32
  recv_pid :: u32
  m_length :: u32
  buffer_addr :: u32
  recv_cv :: u8
  send_cv :: u8

record ipc_state = thr_state +
  msgBlock :: "u32 \<Rightarrow> MsgBlock"
  msg_head :: u32
  msg_tail :: u32
  msg_lock :: spinlock
  msg_buf :: u32

definition MSG_BUF_SIZE :: u32 where "MSG_BUF_SIZE = 100"

definition msg_get :: "(MsgBlock \<Rightarrow> 'a) \<Rightarrow> u32 \<Rightarrow> ('z ipc_state_scheme, 'a) kern" where
  "msg_get f i = kseq (kindex NUM_IDS i) (kgets (\<lambda>s. f (msgBlock s i)))"

definition msg_put :: "(MsgBlock \<Rightarrow> MsgBlock) \<Rightarrow> u32 \<Rightarrow> ('z ipc_state_scheme, unit) kern" where
  "msg_put f i = kseq (kindex NUM_IDS i) (kmodify (\<lambda>s. s\<lparr>msgBlock := (msgBlock s)(i := f (msgBlock s i))\<rparr>))"

definition ipc_init :: "('z ipc_state_scheme, unit) kern" where
  "ipc_init =
     kseq (kmodify (\<lambda>s. s\<lparr>msg_lock := spinlock_init (msg_lock s)\<rparr>))
    (kseq (kfor 0 NUM_IDS (\<lambda>i.
       kseq (msg_put (\<lambda>b. b\<lparr>m_prev := NUM_IDS\<rparr>) i)
      (kseq (msg_put (\<lambda>b. b\<lparr>m_next := NUM_IDS\<rparr>) i)
      (kseq (msg_put (\<lambda>b. b\<lparr>send_pid := i\<rparr>) i)
      (kseq (msg_put (\<lambda>b. b\<lparr>recv_pid := NUM_IDS\<rparr>) i)
      (kseq (msg_put (\<lambda>b. b\<lparr>m_length := 0\<rparr>) i)
      (kseq (msg_put (\<lambda>b. b\<lparr>buffer_addr := 0\<rparr>) i)
      (kseq (msg_put (\<lambda>b. b\<lparr>send_cv := 0\<rparr>) i)
      (msg_put (\<lambda>b. b\<lparr>recv_cv := 0\<rparr>) i)))))))))
    (kseq (kmodify (\<lambda>s. s\<lparr>msg_tail := NUM_IDS\<rparr>)) (kmodify (\<lambda>s. s\<lparr>msg_head := NUM_IDS\<rparr>))))"

definition copy_len :: "u32 \<Rightarrow> u32" where
  "copy_len l = (if sint l < sint MSG_BUF_SIZE then l else MSG_BUF_SIZE)"

lemma copy_len_less: "0 < sint l \<Longrightarrow> unat (l - copy_len l) < unat l"
proof (cases "sint l < sint MSG_BUF_SIZE")
  case False
  then have "100 \<le> l" by (cases "l < 0x80000000") (simp_all add: sint_nonneg word_le_def word_less_def MSG_BUF_SIZE_def)
  then have "unat (l - 100) = unat l - 100" "100 \<le> unat l" by (simp_all add: unat_sub_exact word_le_nat_alt)
  then show ?thesis using False by (simp add: copy_len_def MSG_BUF_SIZE_def)
next
  case True
  assume "0 < sint l"
  then have "l \<noteq> 0" by auto
  then show ?thesis using True by (simp add: copy_len_def unat_gt_0)
qed

function ipc_copy :: "u32 \<Rightarrow> u32 \<Rightarrow> u32 \<Rightarrow> u32 \<Rightarrow> u32 \<Rightarrow> ('z ipc_state_scheme, unit) kern" where
  "ipc_copy dest_pid dest_user_addr source_pid source_user_addr l =
     (if 0 < sint l then
        let len = copy_len l in
        kbind (kgets msg_buf) (\<lambda>buf.
        kseq (pt_copyin source_pid source_user_addr buf len)
       (kseq (pt_copyout buf dest_pid dest_user_addr len)
       (ipc_copy dest_pid (dest_user_addr + len) source_pid (source_user_addr + len) (l - len))))
      else kret ())"
  by pat_completeness auto
termination
  by (relation "measure (\<lambda>(dp, d, sp, a, l). unat l)") (simp_all add: copy_len_less)

declare ipc_copy.simps [simp del]

definition msg_enqueue :: "u32 \<Rightarrow> ('z ipc_state_scheme, unit) kern" where
  "msg_enqueue pid =
     kbind (kgets msg_tail) (\<lambda>tail.
       if tail = NUM_IDS then
         kseq (msg_put (\<lambda>b. b\<lparr>m_prev := NUM_IDS\<rparr>) pid)
        (kseq (msg_put (\<lambda>b. b\<lparr>m_next := NUM_IDS\<rparr>) pid)
        (kseq (kmodify (\<lambda>s. s\<lparr>msg_head := pid\<rparr>)) (kmodify (\<lambda>s. s\<lparr>msg_tail := pid\<rparr>))))
       else
         kseq (msg_put (\<lambda>b. b\<lparr>m_next := pid\<rparr>) tail)
        (kseq (msg_put (\<lambda>b. b\<lparr>m_prev := tail\<rparr>) pid)
        (kseq (msg_put (\<lambda>b. b\<lparr>m_next := NUM_IDS\<rparr>) pid)
        (kmodify (\<lambda>s. s\<lparr>msg_tail := pid\<rparr>)))))"

definition msg_remove :: "u32 \<Rightarrow> ('z ipc_state_scheme, unit) kern" where
  "msg_remove pid =
     kbind (msg_get m_prev pid) (\<lambda>prev.
     kbind (msg_get m_next pid) (\<lambda>nxt.
     kseq (if prev = NUM_IDS then
         if nxt = NUM_IDS then
           kseq (kmodify (\<lambda>s. s\<lparr>msg_tail := NUM_IDS\<rparr>)) (kmodify (\<lambda>s. s\<lparr>msg_head := NUM_IDS\<rparr>))
         else
           kseq (kmodify (\<lambda>s. s\<lparr>msg_head := nxt\<rparr>)) (msg_put (\<lambda>b. b\<lparr>m_prev := NUM_IDS\<rparr>) nxt)
       else if nxt = NUM_IDS then
         kseq (kmodify (\<lambda>s. s\<lparr>msg_tail := prev\<rparr>)) (msg_put (\<lambda>b. b\<lparr>m_next := NUM_IDS\<rparr>) prev)
       else
         kseq (msg_put (\<lambda>b. b\<lparr>m_next := nxt\<rparr>) prev) (msg_put (\<lambda>b. b\<lparr>m_prev := prev\<rparr>) nxt))
    (kseq (msg_put (\<lambda>b. b\<lparr>m_next := NUM_IDS\<rparr>) pid) (msg_put (\<lambda>b. b\<lparr>m_prev := NUM_IDS\<rparr>) pid))))"

text \<open>A chain of more than \<^verbatim>\<open>NUM_IDS\<close> blocks runs in a circle, and the search does not end.\<close>

primrec send_search :: "nat \<Rightarrow> u32 \<Rightarrow> u32 \<Rightarrow> ('z ipc_state_scheme, u32) kern" where
  "send_search 0 pid want = kfail Spin"
| "send_search (Suc k) pid want =
     (if pid \<noteq> NUM_IDS then
        kbind (msg_get send_pid pid) (\<lambda>p.
          if p = want then kret want
          else kbind (msg_get m_next pid) (\<lambda>nxt. send_search k nxt want))
      else kret NUM_IDS)"

definition msg_getBlockBySendID :: "u32 \<Rightarrow> ('z ipc_state_scheme, u32) kern" where
  "msg_getBlockBySendID want = kbind (kgets msg_head) (\<lambda>pid. send_search (unat NUM_IDS + 1) pid want)"

text \<open>The loop of the search for a receiver does not move on from the first block.\<close>

definition msg_getBlockByRecvID :: "u32 \<Rightarrow> ('z ipc_state_scheme, u32) kern" where
  "msg_getBlockByRecvID want =
     kbind (kgets msg_head) (\<lambda>pid.
       if pid \<noteq> NUM_IDS then
         kbind (msg_get recv_pid pid) (\<lambda>r.
           if r = want then msg_get send_pid pid else kfail Spin)
       else kret NUM_IDS)"

section \<open>The queue is a list\<close>

definition m_nexts :: "'z ipc_state_scheme \<Rightarrow> u32 \<Rightarrow> u32" where
  "m_nexts s = (\<lambda>p. m_next (msgBlock s p))"

definition m_prevs :: "'z ipc_state_scheme \<Rightarrow> u32 \<Rightarrow> u32" where
  "m_prevs s = (\<lambda>p. m_prev (msgBlock s p))"

lemmas m_links = m_nexts_def m_prevs_def fun_eq_iff

definition msgq :: "'z ipc_state_scheme \<Rightarrow> u32 list \<Rightarrow> bool" where
  "msgq s xs \<longleftrightarrow> dlq NUM_IDS (m_nexts s) (m_prevs s) (msg_head s) (msg_tail s) xs \<and> (\<forall>x \<in> set xs. x < NUM_IDS)"

lemma msg_get_ok [simp]: "i < NUM_IDS \<Longrightarrow> msg_get f i s = Inr (f (msgBlock s i), s)"
  by (simp add: msg_get_def)

lemma msg_put_ok [simp]: "i < NUM_IDS \<Longrightarrow> msg_put f i s = Inr ((), s\<lparr>msgBlock := (msgBlock s)(i := f (msgBlock s i))\<rparr>)"
  by (simp add: msg_put_def)

lemma msgq_in: "msgq s xs \<Longrightarrow> x \<in> set xs \<Longrightarrow> x < NUM_IDS \<and> x \<noteq> NUM_IDS"
  by (auto simp: msgq_def)

lemma msgq_dlq: "msgq s xs \<Longrightarrow> dlq NUM_IDS (m_nexts s) (m_prevs s) (msg_head s) (msg_tail s) xs"
  by (simp add: msgq_def)

lemma msg_enqueue_ok:
  assumes q: "msgq s xs" "x < NUM_IDS" "x \<notin> set xs"
  shows "\<exists>t. msg_enqueue x s = Inr ((), t) \<and> msgq t (xs @ [x])"
proof (cases "xs = []")
  case True
  let ?t = "s\<lparr>msgBlock := (msgBlock s)(x := (msgBlock s x)\<lparr>m_prev := NUM_IDS, m_next := NUM_IDS\<rparr>), msg_head := x, msg_tail := x\<rparr>"
  have d: "dlq NUM_IDS (m_nexts s) (m_prevs s) (msg_head s) (msg_tail s) []" using msgq_dlq [OF q(1)] True by simp
  then have "msg_tail s = NUM_IDS" by (simp add: dlq_def)
  then have "msg_enqueue x s = Inr ((), ?t)" using q(2) by (simp add: msg_enqueue_def)
  moreover have "m_nexts ?t = (m_nexts s)(x := NUM_IDS)" "m_prevs ?t = (m_prevs s)(x := NUM_IDS)" by (auto simp: m_links)
  moreover have "msgq ?t (xs @ [x])" using dlq_enqueue_empty [OF d, of x] q(2) True calculation(2,3) by (auto simp: msgq_def)
  ultimately show ?thesis by blast
next
  case False
  note d = msgq_dlq [OF q(1)]
  have "msg_tail s \<in> set xs" using d False by (simp add: dlq_def lst_or_in)
  then have tl: "msg_tail s < NUM_IDS" "msg_tail s \<noteq> NUM_IDS" "msg_tail s \<noteq> x" using msgq_in [OF q(1)] q(3) by auto
  let ?t = "s\<lparr>msgBlock := (msgBlock s)(msg_tail s := (msgBlock s (msg_tail s))\<lparr>m_next := x\<rparr>,
    x := (msgBlock s x)\<lparr>m_prev := msg_tail s, m_next := NUM_IDS\<rparr>), msg_tail := x\<rparr>"
  have "msg_enqueue x s = Inr ((), ?t)" using q(2) tl by (simp add: msg_enqueue_def)
  moreover have "m_nexts ?t = (m_nexts s)(msg_tail s := x, x := NUM_IDS)" "m_prevs ?t = (m_prevs s)(x := msg_tail s)"
    using tl by (auto simp: m_links)
  moreover have "msgq ?t (xs @ [x])" using dlq_enqueue [OF d False q(3)] q(1,2) calculation(2,3) by (auto simp: msgq_def)
  ultimately show ?thesis by blast
qed

text \<open>What \<^verbatim>\<open>msg_remove\<close> does to the links around a block with neighbours \<open>p\<close> and \<open>n\<close>.\<close>

definition unlinked_by :: "'z ipc_state_scheme \<Rightarrow> u32 \<Rightarrow> u32 \<Rightarrow> u32 \<Rightarrow> 'z ipc_state_scheme \<Rightarrow> bool" where
  "unlinked_by s x p n t \<longleftrightarrow>
     m_nexts t = (if p = NUM_IDS then m_nexts s else (m_nexts s)(p := n))(x := NUM_IDS) \<and>
     m_prevs t = (if n = NUM_IDS then m_prevs s else (m_prevs s)(n := p))(x := NUM_IDS) \<and>
     msg_head t = (if p = NUM_IDS then n else msg_head s) \<and> msg_tail t = (if n = NUM_IDS then p else msg_tail s)"

lemma msg_remove_links:
  assumes a: "x < NUM_IDS" "p \<noteq> x" "n \<noteq> x" and pn: "p = m_prev (msgBlock s x)" "n = m_next (msgBlock s x)"
    and b: "p \<noteq> NUM_IDS \<Longrightarrow> p < NUM_IDS" "n \<noteq> NUM_IDS \<Longrightarrow> n < NUM_IDS"
  shows "\<exists>t. msg_remove x s = Inr ((), t) \<and> unlinked_by s x p n t"
proof -
  have get: "msg_get m_prev x s = Inr (p, s)" "msg_get m_next x s = Inr (n, s)" using a(1) by (simp_all add: pn)
  consider "p = NUM_IDS" "n = NUM_IDS" | "p = NUM_IDS" "n \<noteq> NUM_IDS" "n < NUM_IDS" | "p \<noteq> NUM_IDS" "p < NUM_IDS" "n = NUM_IDS"
    | "p \<noteq> NUM_IDS" "p < NUM_IDS" "n \<noteq> NUM_IDS" "n < NUM_IDS" using b by blast
  then show ?thesis
  proof cases
    case 1
    let ?t = "s\<lparr>msg_tail := NUM_IDS, msg_head := NUM_IDS, msgBlock := (msgBlock s)(x := (msgBlock s x)\<lparr>m_next := NUM_IDS, m_prev := NUM_IDS\<rparr>)\<rparr>"
    have "msg_remove x s = Inr ((), ?t)" using get a(1) 1 by (simp add: msg_remove_def)
    moreover have "unlinked_by s x p n ?t" using a(2,3) 1 by (auto simp: unlinked_by_def m_links)
    ultimately show ?thesis by blast
  next
    case 2
    let ?t = "s\<lparr>msg_head := n, msgBlock := (msgBlock s)(n := (msgBlock s n)\<lparr>m_prev := NUM_IDS\<rparr>, x := (msgBlock s x)\<lparr>m_next := NUM_IDS, m_prev := NUM_IDS\<rparr>)\<rparr>"
    have "msg_remove x s = Inr ((), ?t)" using get a(1) 2 by (simp add: msg_remove_def)
    moreover have "unlinked_by s x p n ?t" using a(2,3) 2 by (auto simp: unlinked_by_def m_links)
    ultimately show ?thesis by blast
  next
    case 3
    let ?t = "s\<lparr>msg_tail := p, msgBlock := (msgBlock s)(p := (msgBlock s p)\<lparr>m_next := NUM_IDS\<rparr>, x := (msgBlock s x)\<lparr>m_next := NUM_IDS, m_prev := NUM_IDS\<rparr>)\<rparr>"
    have "msg_remove x s = Inr ((), ?t)" using get a(1) 3 by (simp add: msg_remove_def)
    moreover have "unlinked_by s x p n ?t" using a(2,3) 3 by (auto simp: unlinked_by_def m_links)
    ultimately show ?thesis by blast
  next
    case 4
    let ?t = "s\<lparr>msgBlock := ((msgBlock s)(p := (msgBlock s p)\<lparr>m_next := n\<rparr>))(n := (((msgBlock s)(p := (msgBlock s p)\<lparr>m_next := n\<rparr>)) n)\<lparr>m_prev := p\<rparr>, x := (msgBlock s x)\<lparr>m_next := NUM_IDS, m_prev := NUM_IDS\<rparr>)\<rparr>"
    have "msg_remove x s = Inr ((), ?t)" using get a(1) 4 by (simp add: msg_remove_def)
    moreover have "unlinked_by s x p n ?t" using a(2,3) 4 by (auto simp: unlinked_by_def m_links)
    ultimately show ?thesis by blast
  qed
qed

lemma msg_remove_ok:
  assumes q: "msgq s xs" "x \<in> set xs"
  shows "\<exists>t. msg_remove x s = Inr ((), t) \<and> msgq t (remove1 x xs)"
proof -
  note d = msgq_dlq [OF q(1)]
  define p n where pn: "p = m_prev (msgBlock s x)" "n = m_next (msgBlock s x)"
  have l: "m_prevs s x = p" "m_nexts s x = n" by (simp_all add: m_prevs_def m_nexts_def pn)
  have x: "x < NUM_IDS" "x \<noteq> NUM_IDS" using msgq_in [OF q] by auto
  obtain ys zs where s: "xs = ys @ x # zs" "p = lst_or NUM_IDS ys" "n = fst_or NUM_IDS zs" "x \<notin> set ys" "x \<notin> set zs"
    using dlq_split [OF d q(2)] unfolding l by blast
  have p: "p \<noteq> NUM_IDS \<Longrightarrow> p < NUM_IDS" "p \<noteq> x" using s x lst_or_in [of ys NUM_IDS] msgq_in [OF q(1)] by (cases "ys = []"; force)+
  have n: "n \<noteq> NUM_IDS \<Longrightarrow> n < NUM_IDS" "n \<noteq> x" using s x fst_or_in [of zs NUM_IDS] msgq_in [OF q(1)] by (cases "zs = []"; force)+
  have "\<exists>t. msg_remove x s = Inr ((), t) \<and> unlinked_by s x p n t"
    by (rule msg_remove_links) (use x p n in \<open>simp_all add: pn\<close>)
  then obtain t where t: "msg_remove x s = Inr ((), t)"
    "m_nexts t = (if p = NUM_IDS then m_nexts s else (m_nexts s)(p := n))(x := NUM_IDS)"
    "m_prevs t = (if n = NUM_IDS then m_prevs s else (m_prevs s)(n := p))(x := NUM_IDS)"
    "msg_head t = (if p = NUM_IDS then n else msg_head s)" "msg_tail t = (if n = NUM_IDS then p else msg_tail s)" by (auto simp: unlinked_by_def)
  have "dlq NUM_IDS (m_nexts t) (m_prevs t) (msg_head t) (msg_tail t) (remove1 x xs)"
    by (rule dlq_remove [OF d q(2)]) (simp_all add: t l)
  moreover have "\<forall>y \<in> set (remove1 x xs). y < NUM_IDS" using msgq_in [OF q(1)] notin_set_remove1 by fast
  ultimately show ?thesis using t(1) by (auto simp: msgq_def)
qed

lemma msgq_unique: "msgq s xs \<Longrightarrow> msgq s ys \<Longrightarrow> xs = ys"
  by (rule dlq_unique [OF msgq_dlq msgq_dlq])

interpretation msgs: index_queue msg_enqueue msg_remove msgq "\<lambda>p. p < NUM_IDS"
  by unfold_locales (erule (2) msg_enqueue_ok, erule (1) msg_remove_ok, erule (1) msgq_unique, simp add: msgq_def dlq_def)

lemma msgq_length: "msgq s xs \<Longrightarrow> length xs \<le> 64"
proof -
  assume q: "msgq s xs"
  have sub: "unat ` set xs \<subseteq> {..< unat NUM_IDS}" using q by (auto simp: msgq_def word_less_nat_alt)
  have "card (unat ` set xs) \<le> card {..< unat NUM_IDS}" by (rule card_mono [OF _ sub]) simp
  then have "card (unat ` set xs) \<le> 64" by (simp add: NUM_IDS_def)
  moreover have "inj_on unat (set xs)" by (auto simp: inj_on_def word_unat_eq_iff)
  moreover have "distinct xs" by (rule msgs.holds_distinct [OF q])
  ultimately show ?thesis by (simp add: card_image distinct_card)
qed

lemma send_search_ok:
  assumes "dls (m_nexts s) (m_prevs s) p xs NUM_IDS" "\<forall>x \<in> set xs. x < NUM_IDS \<and> send_pid (msgBlock s x) = x" "length xs < k"
  shows "send_search k (fst_or NUM_IDS xs) want s = Inr (if want \<in> set xs then want else NUM_IDS, s)"
  using assms
proof (induction k arbitrary: p xs)
  case (Suc k)
  show ?case
  proof (cases xs)
    case (Cons x ys)
    have x: "x < NUM_IDS" "x \<noteq> NUM_IDS" "send_pid (msgBlock s x) = x" "m_next (msgBlock s x) = fst_or NUM_IDS ys"
      using Suc.prems Cons by (auto simp: m_nexts_def)
    show ?thesis
    proof (cases "want = x")
      case False
      have "send_search k (fst_or NUM_IDS ys) want s = Inr (if want \<in> set ys then want else NUM_IDS, s)"
        using Suc.prems Cons by (intro Suc.IH [of x]) auto
      then show ?thesis using x False Cons by simp
    qed (use x Cons in simp)
  qed simp
qed simp

lemma msg_search_ok:
  assumes q: "msgq s xs" "\<forall>x \<in> set xs. send_pid (msgBlock s x) = x"
  shows "msg_getBlockBySendID want s = Inr (if want \<in> set xs then want else NUM_IDS, s)"
proof -
  have d: "dls (m_nexts s) (m_prevs s) NUM_IDS xs NUM_IDS" and h: "msg_head s = fst_or NUM_IDS xs"
    using msgq_dlq [OF q(1)] by (simp_all add: dlq_def)
  have m: "\<forall>x \<in> set xs. x < NUM_IDS \<and> send_pid (msgBlock s x) = x" using msgq_in [OF q(1)] q(2) by blast
  have "length xs < unat NUM_IDS + 1" using msgq_length [OF q(1)] by (simp add: NUM_IDS_def)
  from send_search_ok [OF d m this, of want] show ?thesis
    using h by (simp add: msg_getBlockBySendID_def del: send_search.simps)
qed

section \<open>Properties\<close>

text \<open>
  C19. The message queue is a list of senders. On a queue that holds \<open>xs\<close>, \<^verbatim>\<open>msg_enqueue\<close> of a
  process that is not in it appends the process, \<^verbatim>\<open>msg_remove\<close> takes a process out wherever it is,
  and \<^verbatim>\<open>msg_getBlockBySendID\<close> returns, with the process when it is in the queue and with
  \<^verbatim>\<open>NUM_IDS\<close> otherwise. No access is out of bounds.
\<close>

theorem msg_queue_correct:
  assumes "msgq s xs" "\<forall>x \<in> set xs. send_pid (msgBlock s x) = x"
  shows "(x < NUM_IDS \<and> x \<notin> set xs \<longrightarrow> (\<exists>t. msg_enqueue x s = Inr ((), t) \<and> msgq t (xs @ [x]))) \<and>
    (x \<in> set xs \<longrightarrow> (\<exists>t. msg_remove x s = Inr ((), t) \<and> msgq t (remove1 x xs))) \<and>
    msg_getBlockBySendID x s = Inr (if x \<in> set xs then x else NUM_IDS, s)"
  using msgs.enq_holds [OF assms(1), of x] msgs.rem_holds [OF assms(1), of x] msg_search_ok [OF assms, of x] by blast


text \<open>A machine whose queue holds the message of process 3, for process 7.\<close>

definition msg_machine :: ipc_state where
  "msg_machine = thr_state.extend idle_machine
     (ipc_state.fields (\<lambda>i. \<lparr>m_prev = NUM_IDS, m_next = NUM_IDS, send_pid = i, recv_pid = 7, m_length = 0,
          buffer_addr = 0, recv_cv = 0, send_cv = 0\<rparr>)
       3 3 (spinlock_init \<lparr>lock = 0, lock_holder = 0\<rparr>) 0x700000)"

lemma msg_machine_q: "msgq msg_machine [3]" "\<forall>x \<in> set [3]. send_pid (msgBlock msg_machine x) = x"
  "recv_pid (msgBlock msg_machine 3) = 7"
  by (simp_all add: msgq_def dlq_def m_nexts_def m_prevs_def msg_machine_def thr_state.defs ipc_state.defs NUM_IDS_def lst_or_def)

theorem msg_queue_correct_witness:
  "(\<exists>t. msg_enqueue 5 msg_machine = Inr ((), t) \<and> msgq t [3, 5]) \<and> msg_getBlockBySendID 5 msg_machine = Inr (NUM_IDS, msg_machine)"
  using msg_queue_correct [OF msg_machine_q(1,2), of 5] by (simp add: NUM_IDS_def)


end
