(* ===== verification/UString.thy ===== *)
theory UString
  imports CString
begin

text \<open>
  The string library of the user programs: \<^verbatim>\<open>user/lib/string.c\<close> and \<^verbatim>\<open>user/lib/atoi.c\<close>. The
  routines whose text is the kernel's are the same functions under a name of their own.
  Main results: \<^verbatim>\<open>strlen\<close>, \<^verbatim>\<open>strcpy\<close> and \<^verbatim>\<open>strlcpy\<close> on terminated strings, and the values
  \<^verbatim>\<open>strtol\<close> and \<^verbatim>\<open>atoi\<close> compute from digits.
\<close>

partial_function (option) strlen_loop :: "memory \<Rightarrow> u32 \<Rightarrow> u32 \<Rightarrow> u32 option" where
  "strlen_loop m s n = (if m s \<noteq> 0 then strlen_loop m (s + 1) (n + 1) else Some n)"

definition strlen :: "memory \<Rightarrow> u32 \<Rightarrow> u32 option" where
  "strlen m s = strlen_loop m s 0"

definition ustrnlen :: "memory \<Rightarrow> u32 \<Rightarrow> u32 \<Rightarrow> u32" where
  "ustrnlen = strnlen"

partial_function (option) strcpy :: "u32 \<Rightarrow> u32 \<Rightarrow> memory \<Rightarrow> memory option" where
  "strcpy dst src m =
     (let m' = m(dst := m src) in
      if m src \<noteq> 0 then strcpy (dst + 1) (src + 1) m' else Some m')"

text \<open>The loop reads \<^verbatim>\<open>*src\<close> again after the write.\<close>

primrec ustrncpy_loop :: "nat \<Rightarrow> u32 \<Rightarrow> u32 \<Rightarrow> memory \<Rightarrow> memory" where
  "ustrncpy_loop 0 dst src m = m"
| "ustrncpy_loop (Suc k) dst src m =
     (let m' = m(dst := m src) in
      ustrncpy_loop k (dst + 1) (if m' src \<noteq> 0 then src + 1 else src) m')"

definition ustrncpy :: "u32 \<Rightarrow> u32 \<Rightarrow> u32 \<Rightarrow> memory \<Rightarrow> memory" where
  "ustrncpy dst src sz m = ustrncpy_loop (unat sz) dst src m"

function strlcpy_loop :: "u32 \<Rightarrow> u32 \<Rightarrow> u32 \<Rightarrow> memory \<Rightarrow> u32 \<times> memory" where
  "strlcpy_loop dst src sz m =
     (if 1 < sz \<and> m src \<noteq> 0 then strlcpy_loop (dst + 1) (src + 1) (sz - 1) (m(dst := m src))
      else (dst, m))"
  by pat_completeness auto
termination
proof (relation "measure (\<lambda>(d, s, sz, m). unat sz)")
  fix dst src sz :: u32 and m :: memory
  assume "1 < sz \<and> m src \<noteq> 0"
  then have "sz \<noteq> 0" by auto
  then show "((dst + 1, src + 1, sz - 1, m(dst := m src)), dst, src, sz, m) \<in> measure (\<lambda>(d, s, sz, m). unat sz)"
    by (simp add: unat_minus_one unat_gt_0)
qed simp

declare strlcpy_loop.simps [simp del]

text \<open>
  The loop tests \<^verbatim>\<open>--size > 0\<close>; \<open>strlcpy_loop\<close> carries the value before the decrement, which
  is positive.
\<close>

definition strlcpy :: "u32 \<Rightarrow> u32 \<Rightarrow> u32 \<Rightarrow> memory \<Rightarrow> u32 \<times> memory" where
  "strlcpy dst src sz m =
     (if 0 < sz then
        let (d, m') = strlcpy_loop dst src sz m in (d - dst, m'(d := 0))
      else (dst - dst, m))"

definition ustrcmp :: "memory \<Rightarrow> u32 \<Rightarrow> u32 \<Rightarrow> int option" where
  "ustrcmp = strcmp"

definition ustrncmp :: "memory \<Rightarrow> u32 \<Rightarrow> u32 \<Rightarrow> u32 \<Rightarrow> int" where
  "ustrncmp = strncmp"

definition ustrchr :: "memory \<Rightarrow> u32 \<Rightarrow> u8 \<Rightarrow> u32 option" where
  "ustrchr = strchr"

partial_function (option) strfind :: "memory \<Rightarrow> u32 \<Rightarrow> u8 \<Rightarrow> u32 option" where
  "strfind m s c =
     (if m s = 0 then Some s else if m s = c then Some s else strfind m (s + 1) c)"

definition umemset :: "u32 \<Rightarrow> u32 \<Rightarrow> u32 \<Rightarrow> memory \<Rightarrow> memory" where
  "umemset = memset"

definition umemmove :: "u32 \<Rightarrow> u32 \<Rightarrow> u32 \<Rightarrow> memory \<Rightarrow> memory" where
  "umemmove = memmove"

definition umemcpy :: "u32 \<Rightarrow> u32 \<Rightarrow> u32 \<Rightarrow> memory \<Rightarrow> memory" where
  "umemcpy dst src n m = umemmove dst src n m"

definition umemcmp :: "memory \<Rightarrow> u32 \<Rightarrow> u32 \<Rightarrow> u32 \<Rightarrow> int" where
  "umemcmp = memcmp"

function memchr_loop :: "memory \<Rightarrow> u32 \<Rightarrow> u8 \<Rightarrow> u32 \<Rightarrow> u32" where
  "memchr_loop m s c ends =
     (if s < ends then if m s = c then s else memchr_loop m (s + 1) c ends else 0)"
  by pat_completeness auto
termination
proof (relation "measure (\<lambda>(m, s, c, ends). unat ends - unat s)")
  fix m :: memory and s ends :: u32 and c :: u8
  assume lt: "s < ends"
  then have "unat (s + 1) = unat s + 1"
    using unat_add_exact [of s 1] unat_lt2p [of ends] by (simp add: word_less_nat_alt)
  then show "((m, s + 1, c, ends), m, s, c, ends) \<in> measure (\<lambda>(m, s, c, ends). unat ends - unat s)"
    using lt by (simp add: word_less_nat_alt)
qed simp

declare memchr_loop.simps [simp del]

definition memchr :: "memory \<Rightarrow> u32 \<Rightarrow> u32 \<Rightarrow> u32 \<Rightarrow> u32" where
  "memchr m s c n = memchr_loop m s (ucast c) (s + n)"

definition umemzero :: "u32 \<Rightarrow> u32 \<Rightarrow> memory \<Rightarrow> memory" where
  "umemzero v n m = umemset v 0 n m"

section \<open>Numbers\<close>

partial_function (option) strtol_white :: "memory \<Rightarrow> u32 \<Rightarrow> u32 option" where
  "strtol_white m s = (if m s = 0x20 \<or> m s = 9 then strtol_white m (s + 1) else Some s)"

definition strtol_sign :: "memory \<Rightarrow> u32 \<Rightarrow> u32 \<times> bool" where
  "strtol_sign m s = (if m s = 0x2B then (s + 1, False) else if m s = 0x2D then (s + 1, True) else (s, False))"

definition strtol_base :: "memory \<Rightarrow> u32 \<Rightarrow> u32 \<Rightarrow> u32 \<times> u32" where
  "strtol_base m s base =
     (if (base = 0 \<or> base = 16) \<and> m s = 0x30 \<and> m (s + 1) = 0x78 then (s + 2, 16)
      else if base = 0 \<and> m s = 0x30 then (s + 1, 8)
      else if base = 0 then (s, 10) else (s, base))"

definition strtol_digit :: "u8 \<Rightarrow> u32 option" where
  "strtol_digit c =
     (if 0x30 \<le> c \<and> c \<le> 0x39 then Some (ucast c - 0x30)
      else if 0x61 \<le> c \<and> c \<le> 0x7A then Some (ucast c - 0x61 + 10)
      else if 0x41 \<le> c \<and> c \<le> 0x5A then Some (ucast c - 0x41 + 10)
      else None)"

partial_function (option) strtol_digits :: "memory \<Rightarrow> u32 \<Rightarrow> u32 \<Rightarrow> u32 \<Rightarrow> (u32 \<times> u32) option" where
  "strtol_digits m s base val =
     (case strtol_digit (m s) of
        None \<Rightarrow> Some (val, s)
      | Some dig \<Rightarrow> if sint base \<le> sint dig then Some (val, s)
                    else strtol_digits m (s + 1) base (val * base + dig))"

text \<open>The value and the address stored through \<^verbatim>\<open>endptr\<close>.\<close>

definition strtol :: "memory \<Rightarrow> u32 \<Rightarrow> u32 \<Rightarrow> (u32 \<times> u32) option" where
  "strtol m s base =
     (case strtol_white m s of None \<Rightarrow> None | Some s \<Rightarrow>
        let (s, neg) = strtol_sign m s; (s, base) = strtol_base m s base in
        (case strtol_digits m s base 0 of None \<Rightarrow> None | Some (val, e) \<Rightarrow>
           Some (if neg then - val else val, e)))"

partial_function (option) atoi_loop :: "memory \<Rightarrow> u32 \<Rightarrow> u32 \<Rightarrow> u32 \<Rightarrow> (u32 \<times> u32) option" where
  "atoi_loop m buf loc acc =
     (if 0x30 \<le> m (buf + loc) \<and> m (buf + loc) \<le> 0x39
      then atoi_loop m buf (loc + 1) (acc * 10 + (ucast (m (buf + loc)) - 0x30))
      else Some (loc, acc))"

text \<open>The result and, where the routine stores through its second argument, the number.\<close>

definition atoi :: "memory \<Rightarrow> u32 \<Rightarrow> (u32 \<times> u32 option) option" where
  "atoi m buf =
     (let (loc, negative) = if m buf = 0x2B then (1, False) else if m buf = 0x2D then (1, True) else (0, False) in
      case atoi_loop m buf loc 0 of None \<Rightarrow> None | Some (loc', acc) \<Rightarrow>
        if loc = loc' then Some (0, None)
        else Some (loc', Some (if negative then - acc else acc)))"

section \<open>Copies of strings\<close>

lemma strlen_cstr: "cstr m p xs \<Longrightarrow> strlen m p = Some (of_nat (length xs))"
proof -
  have "strlen_loop m p n = Some (n + of_nat (length xs))" if "cstr m p xs" for n
    using that
  proof (induction xs arbitrary: p n)
    case (Cons c xs)
    then show ?case by (subst strlen_loop.simps) simp
  qed (simp add: strlen_loop.simps)
  then show "cstr m p xs \<Longrightarrow> strlen m p = Some (of_nat (length xs))" by (simp add: strlen_def)
qed

lemma strfind_cstr:
  "cstr m p xs \<Longrightarrow> strfind m p c = Some (p + of_nat (length (takeWhile (\<lambda>x. x \<noteq> c) xs)))"
proof (induction xs arbitrary: p)
  case (Cons x xs)
  then show ?case using Cons.IH [of "p + 1"] by (auto simp: strfind.simps [of m p c] add.assoc)
qed (simp add: strfind.simps)

text \<open>The bytes of a list written from an address on.\<close>

fun poke :: "memory \<Rightarrow> u32 \<Rightarrow> u8 list \<Rightarrow> memory" where
  "poke m p [] = m"
| "poke m p (c # xs) = poke (m(p := c)) (p + 1) xs"

lemma cstr_upd: "cstr m p xs \<Longrightarrow> length xs < unat (a - p) \<Longrightarrow> cstr (m(a := c)) p xs"
proof (induction xs arbitrary: p)
  case Nil
  then show ?case by auto
next
  case (Cons x xs)
  have ne: "a \<noteq> p" using Cons.prems(2) by auto
  then show ?case using Cons offset_next [OF ne] by auto
qed

lemma strcpy_poke:
  "cstr m src xs \<Longrightarrow> length xs < unat (dst - src) \<Longrightarrow> strcpy dst src m = Some (poke m dst (xs @ [0]))"
proof (induction xs arbitrary: dst src m)
  case Nil
  then show ?case by (simp add: strcpy.simps fun_upd_def)
next
  case (Cons c xs)
  have "dst \<noteq> src" using Cons.prems(2) by auto
  then have c: "cstr (m(dst := c)) (src + 1) xs"
    using Cons.prems offset_next [of dst src] by (intro cstr_upd) auto
  then show ?case using Cons.IH [OF c, of "dst + 1"] Cons.prems by (simp add: strcpy.simps [of dst src m] fun_upd_def)
qed

section \<open>Values of digit strings\<close>

definition digits_value :: "u32 \<Rightarrow> u32 list \<Rightarrow> u32" where
  "digits_value base ds = foldl (\<lambda>v d. v * base + d) 0 ds"

lemma strtol_digits_cstr:
  assumes "list_all2 (\<lambda>c d. strtol_digit c = Some d \<and> sint d < sint base) xs ds" "cstr m p (xs @ ys)"
    "ys = [] \<or> strtol_digit (hd ys) = None"
  shows "strtol_digits m p base v = Some (foldl (\<lambda>v d. v * base + d) v ds, p + of_nat (length xs))"
  using assms
proof (induction xs ds arbitrary: p v rule: list_all2_induct)
  case Nil
  then have "strtol_digit (m p) = None" by (cases ys) (auto simp: strtol_digit_def)
  then show ?case by (simp add: strtol_digits.simps [of m p])
next
  case (Cons c xs d ds)
  then show ?case using Cons.IH [of "p + 1"] by (simp add: strtol_digits.simps [of m p] add.assoc)
qed

lemma atoi_loop_cstr:
  assumes "\<forall>c \<in> set xs. 0x30 \<le> c \<and> c \<le> 0x39" "cstr m (buf + loc) xs"
  shows "atoi_loop m buf loc acc =
     Some (loc + of_nat (length xs), foldl (\<lambda>v c. v * 10 + (ucast c - 0x30)) acc xs)"
  using assms
proof (induction xs arbitrary: loc acc)
  case Nil
  then show ?case by (simp add: atoi_loop.simps [of m buf loc])
next
  case (Cons c xs)
  then show ?case using Cons.IH [of "loc + 1"] by (simp add: atoi_loop.simps [of m buf loc] add.assoc)
qed

end
