(* ===== verification/Printf.thy ===== *)
theory Printf
  imports UString
begin

text \<open>
  Formatted output: \<^verbatim>\<open>kern/lib/printfmt.c\<close>, \<^verbatim>\<open>kern/lib/dprintf.c\<close>, \<^verbatim>\<open>user/lib/printfmt.c\<close> and
  \<^verbatim>\<open>user/lib/printf.c\<close>. The interpreter of format strings yields the characters it passes to
  \<^verbatim>\<open>putch\<close>, in order; the sinks consume them. A format is the list of its bytes up to the
  terminator, the variable arguments are the words on the stack at \<open>ap\<close>, and the memory that
  holds them is the one before the call, so a destination buffer that overlaps a format or
  an argument is outside the model. Main results: a number printed with \<^verbatim>\<open>%d\<close> is read back by
  \<^verbatim>\<open>atoi\<close>, \<^verbatim>\<open>vsnprintf\<close> stays inside its buffer, and the buffered console output is the
  formatted string.
\<close>

section \<open>Numbers\<close>

definition hexdigits :: "u8 list" where
  "hexdigits = [0x30, 0x31, 0x32, 0x33, 0x34, 0x35, 0x36, 0x37, 0x38, 0x39, 0x61, 0x62, 0x63, 0x64, 0x65, 0x66]"

text \<open>The loop \<^verbatim>\<open>while (--width > 0)\<close> runs \<open>sint (width - 1)\<close> times if that is positive.\<close>

partial_function (option) printnum :: "u64 \<Rightarrow> u32 \<Rightarrow> u32 \<Rightarrow> u32 \<Rightarrow> u32 list option" where
  "printnum num base width padc =
     (if ucast base \<le> num then
        Option.bind (printnum (num div ucast base) base (width - 1) padc)
          (\<lambda>out. Some (out @ [ucast (hexdigits ! unat (num mod ucast base))]))
      else Some (replicate (nat (sint (width - 1))) padc @ [ucast (hexdigits ! unat (num mod ucast base))]))"

definition va_arg32 :: "memory \<Rightarrow> u32 \<Rightarrow> u32 \<times> u32" where
  "va_arg32 m ap = (load32 m ap, ap + 4)"

definition va_arg64 :: "memory \<Rightarrow> u32 \<Rightarrow> u64 \<times> u32" where
  "va_arg64 m ap = (ucast (load32 m ap) OR push_bit 32 (ucast (load32 m (ap + 4))), ap + 8)"

definition getuint :: "memory \<Rightarrow> u32 \<Rightarrow> u32 \<Rightarrow> u64 \<times> u32" where
  "getuint m ap lflag = (if 2 \<le> sint lflag then va_arg64 m ap else map_prod ucast id (va_arg32 m ap))"

definition getint :: "memory \<Rightarrow> u32 \<Rightarrow> u32 \<Rightarrow> u64 \<times> u32" where
  "getint m ap lflag = (if 2 \<le> sint lflag then va_arg64 m ap else map_prod scast id (va_arg32 m ap))"

section \<open>The interpreter of formats\<close>

record fmtspec =
  padc :: u8
  width :: u32
  precision :: u32
  lflag :: u32
  altflag :: bool

definition fmtspec_init :: fmtspec where
  "fmtspec_init = \<lparr>padc = 0x20, width = -1, precision = -1, lflag = 0, altflag = False\<rparr>"

definition process_precision :: "fmtspec \<Rightarrow> fmtspec" where
  "process_precision sp = (if sint (width sp) < 0 then sp\<lparr>width := precision sp, precision := -1\<rparr> else sp)"

fun width_field :: "u32 \<Rightarrow> u8 \<Rightarrow> u8 list \<Rightarrow> u32 \<times> u8 list" where
  "width_field prec ch [] = (prec * 10 + ucast ch - 0x30, [])"
| "width_field prec ch (c # fmt) =
     (if 0x30 \<le> c \<and> c \<le> 0x39 then width_field (prec * 10 + ucast ch - 0x30) c fmt
      else (prec * 10 + ucast ch - 0x30, c # fmt))"

lemma width_field_length: "length (snd (width_field prec ch fmt)) \<le> length fmt"
  by (induction prec ch fmt rule: width_field.induct) auto

text \<open>
  The flags of a conversion, up to the character that selects it (0 at the end of the
  format), with the format that follows.
\<close>

function reswitch :: "memory \<Rightarrow> fmtspec \<Rightarrow> u32 \<Rightarrow> u8 list \<Rightarrow> fmtspec \<times> u32 \<times> u8 \<times> u8 list" where
  "reswitch m sp ap [] = (sp, ap, 0, [])"
| "reswitch m sp ap (ch # fmt) =
     (if ch = 0x2D then reswitch m (sp\<lparr>padc := 0x2D\<rparr>) ap fmt
      else if ch = 0x30 then reswitch m (sp\<lparr>padc := 0x30\<rparr>) ap fmt
      else if 0x31 \<le> ch \<and> ch \<le> 0x39 then
        reswitch m (process_precision (sp\<lparr>precision := fst (width_field 0 ch fmt)\<rparr>)) ap (snd (width_field 0 ch fmt))
      else if ch = 0x2A then
        reswitch m (process_precision (sp\<lparr>precision := fst (va_arg32 m ap)\<rparr>)) (snd (va_arg32 m ap)) fmt
      else if ch = 0x2E then
        reswitch m (if sint (width sp) < 0 then sp\<lparr>width := 0\<rparr> else sp) ap fmt
      else if ch = 0x23 then reswitch m (sp\<lparr>altflag := True\<rparr>) ap fmt
      else if ch = 0x6C then reswitch m (sp\<lparr>lflag := lflag sp + 1\<rparr>) ap fmt
      else (sp, ap, ch, fmt))"
  by pat_completeness auto
termination
  by (relation "measure (\<lambda>(m, sp, ap, fmt). length fmt)") (auto simp: width_field_length le_imp_less_Suc)

definition null_str :: memory where
  "null_str a = (if unat a < 6 then [0x28, 0x6E, 0x75, 0x6C, 0x6C, 0x29] ! unat a else 0)"

text \<open>The characters of a string argument, and the width that remains.\<close>

partial_function (option) str_chars :: "memory \<Rightarrow> u32 \<Rightarrow> u32 \<Rightarrow> u32 \<Rightarrow> bool \<Rightarrow> (u32 list \<times> u32) option" where
  "str_chars m p prec wid alt =
     (if m p \<noteq> 0 \<and> (sint prec < 0 \<or> 0 \<le> sint (prec - 1)) then
        Option.bind (str_chars m (p + 1) (if sint prec < 0 then prec else prec - 1) (wid - 1) alt)
          (\<lambda>(out, w). Some ((if alt \<and> (sint (m p) < 0x20 \<or> 0x7E < sint (m p)) then 0x3F else scast (m p)) # out, w))
      else Some ([], wid))"

definition str_conv :: "memory \<Rightarrow> fmtspec \<Rightarrow> u32 \<Rightarrow> u32 list option" where
  "str_conv m0 sp p0 =
     (let (m, p) = if p0 = 0 then (null_str, 0) else (m0, p0);
          w = if 0 < sint (width sp) \<and> padc sp \<noteq> 0x2D then width sp - strnlen m p (precision sp) else width sp;
          lead = if 0 < sint (width sp) \<and> padc sp \<noteq> 0x2D then nat (sint w) else 0;
          w' = if 0 < sint (width sp) \<and> padc sp \<noteq> 0x2D \<and> 0 < sint w then 0 else w in
      Option.bind (str_chars m p (precision sp) w' (altflag sp)) (\<lambda>(out, w'').
        Some (replicate lead (ucast (padc sp)) @ out @ replicate (nat (sint w'')) 0x20)))"

text \<open>
  One conversion: the characters, the remaining arguments, and whether the conversion is
  one of those known. The flag \<open>oct\<close> tells whether the octal conversion is compiled in; the
  user library prints \<^verbatim>\<open>XXX\<close> in its place.
\<close>

definition convert :: "bool \<Rightarrow> memory \<Rightarrow> fmtspec \<Rightarrow> u32 \<Rightarrow> u8 \<Rightarrow> (u32 list \<times> u32 \<times> bool) option" where
  "convert oct m sp ap ch =
     (let number = (\<lambda>pre num base ap'. map_option (\<lambda>out. (pre @ out, ap', True)) (printnum num base (width sp) (ucast (padc sp)))) in
      if ch = 0x63 then (let (a, ap') = va_arg32 m ap in Some ([a], ap', True))
      else if ch = 0x73 then
        (let (a, ap') = va_arg32 m ap in map_option (\<lambda>out. (out, ap', True)) (str_conv m sp a))
      else if ch = 0x64 then
        (let (num, ap') = getint m ap (lflag sp) in
         if sint num < 0 then number [0x2D] (- num) 10 ap' else number [] num 10 ap')
      else if ch = 0x75 then (let (num, ap') = getuint m ap (lflag sp) in number [] num 10 ap')
      else if ch = 0x6F then
        if oct then (let (num, ap') = getuint m ap (lflag sp) in number [] num 8 ap')
        else Some ([0x58, 0x58, 0x58], ap, True)
      else if ch = 0x70 then (let (a, ap') = va_arg32 m ap in number [0x30, 0x78] (ucast a) 16 ap')
      else if ch = 0x78 then (let (num, ap') = getuint m ap (lflag sp) in number [] num 16 ap')
      else if ch = 0x25 then Some ([0x25], ap, True)
      else Some ([0x25], ap, False))"

lemma reswitch_length: "length (snd (snd (snd (reswitch m sp ap fmt)))) \<le> length fmt"
proof (induction m sp ap fmt rule: reswitch.induct)
  case (2 m sp ap ch fmt)
  then show ?case using width_field_length [of 0 ch fmt] by auto
qed simp

text \<open>
  After an unknown conversion the interpreter goes back to the character after the percent
  sign and prints from there.
\<close>

function vprintfmt_gen :: "bool \<Rightarrow> memory \<Rightarrow> u8 list \<Rightarrow> u32 \<Rightarrow> u32 list option" where
  "vprintfmt_gen oct m [] ap = Some []"
| "vprintfmt_gen oct m (c # fmt) ap =
     (if c \<noteq> 0x25 then map_option ((#) (ucast c)) (vprintfmt_gen oct m fmt ap)
      else case reswitch m fmtspec_init ap fmt of (sp, ap', ch, rest) \<Rightarrow>
        (case convert oct m sp ap' ch of
           None \<Rightarrow> None
         | Some (out, ap'', known) \<Rightarrow>
             map_option ((@) out) (vprintfmt_gen oct m (if known then rest else fmt) ap'')))"
  by pat_completeness auto
termination
proof (relation "measure (\<lambda>(oct, m, fmt, ap). length fmt)", goal_cases)
  case (3 oct m c fmt ap sp y ap' y' ch rest)
  then show ?case using reswitch_length [of m fmtspec_init ap fmt] by (cases "reswitch m fmtspec_init ap fmt") (auto simp: less_Suc_eq_le)
qed auto

definition vprintfmt :: "memory \<Rightarrow> u8 list \<Rightarrow> u32 \<Rightarrow> u32 list option" where
  "vprintfmt = vprintfmt_gen True"

text \<open>The user library has the number routines of the kernel, text for text.\<close>

definition uprintnum :: "u64 \<Rightarrow> u32 \<Rightarrow> u32 \<Rightarrow> u32 \<Rightarrow> u32 list option" where
  "uprintnum = printnum"

definition ugetuint :: "memory \<Rightarrow> u32 \<Rightarrow> u32 \<Rightarrow> u64 \<times> u32" where
  "ugetuint = getuint"

definition ugetint :: "memory \<Rightarrow> u32 \<Rightarrow> u32 \<Rightarrow> u64 \<times> u32" where
  "ugetint = getint"

definition uvprintfmt :: "memory \<Rightarrow> u8 list \<Rightarrow> u32 \<Rightarrow> u32 list option" where
  "uvprintfmt = vprintfmt_gen False"

section \<open>The sinks\<close>

record sprintbuf =
  buf :: u32
  ebuf :: u32
  cnt :: u32

fun sprintputch :: "u32 \<Rightarrow> sprintbuf \<times> memory \<Rightarrow> sprintbuf \<times> memory" where
  "sprintputch ch (b, m) =
     (if buf b < ebuf b then (b\<lparr>cnt := cnt b + 1, buf := buf b + 1\<rparr>, m(buf b := ucast ch))
      else (b\<lparr>cnt := cnt b + 1\<rparr>, m))"

definition sprint_end :: "sprintbuf \<times> memory \<Rightarrow> u32 \<times> memory" where
  "sprint_end bm = (cnt (fst bm), (snd bm)(buf (fst bm) := 0))"

definition vsprintf :: "u32 \<Rightarrow> u8 list \<Rightarrow> u32 \<Rightarrow> memory \<Rightarrow> (u32 \<times> memory) option" where
  "vsprintf bf fmt ap m =
     map_option (\<lambda>out. sprint_end (fold sprintputch out (\<lparr>buf = bf, ebuf = -1, cnt = 0\<rparr>, m))) (uvprintfmt m fmt ap)"

definition vsnprintf :: "u32 \<Rightarrow> u32 \<Rightarrow> u8 list \<Rightarrow> u32 \<Rightarrow> memory \<Rightarrow> (u32 \<times> memory) option" where
  "vsnprintf bf n fmt ap m =
     map_option (\<lambda>out. sprint_end (fold sprintputch out (\<lparr>buf = bf, ebuf = bf + n - 1, cnt = 0\<rparr>, m))) (uvprintfmt m fmt ap)"

text \<open>
  The kernel console and \<^verbatim>\<open>printf\<close> collect characters in a buffer of their own. \<open>None\<close> stands
  for an access outside the buffer.
\<close>

record printbuf =
  idx :: nat
  pcnt :: u32
  pbuf :: "nat \<Rightarrow> u8"

definition CONSOLE_BUFFER_SIZE :: nat where "CONSOLE_BUFFER_SIZE = 512"

definition MAX_BUF :: nat where "MAX_BUF = 4096"

text \<open>The characters \<^verbatim>\<open>cputs\<close> passes to \<^verbatim>\<open>cons_putc\<close>, from index \<open>i\<close> of the buffer on.\<close>

function cputs :: "(nat \<Rightarrow> u8) \<Rightarrow> nat \<Rightarrow> u8 list option" where
  "cputs b i =
     (if CONSOLE_BUFFER_SIZE \<le> i then None
      else if b i \<noteq> 0 then map_option ((#) (b i)) (cputs b (i + 1)) else Some [])"
  by pat_completeness auto
termination by (relation "measure (\<lambda>(b, i). CONSOLE_BUFFER_SIZE - i)") auto

declare cputs.simps [simp del]

fun dputch :: "u32 \<Rightarrow> printbuf \<times> u8 list \<Rightarrow> (printbuf \<times> u8 list) option" where
  "dputch ch (b, out) =
     (if CONSOLE_BUFFER_SIZE \<le> idx b then None else
      let b = b\<lparr>pbuf := (pbuf b)(idx b := ucast ch), idx := idx b + 1\<rparr> in
      if idx b = CONSOLE_BUFFER_SIZE - 1 then
        let b = b\<lparr>pbuf := (pbuf b)(idx b := 0)\<rparr> in
        map_option (\<lambda>s. (b\<lparr>idx := 0, pcnt := pcnt b + 1\<rparr>, out @ s)) (cputs (pbuf b) 0)
      else Some (b\<lparr>pcnt := pcnt b + 1\<rparr>, out))"

fun foldo :: "('a \<Rightarrow> 's \<Rightarrow> 's option) \<Rightarrow> 'a list \<Rightarrow> 's \<Rightarrow> 's option" where
  "foldo f [] s = Some s"
| "foldo f (x # xs) s = Option.bind (f x s) (foldo f xs)"

text \<open>
  What \<^verbatim>\<open>vdprintf\<close> returns and sends to the console; \<open>junk\<close> is the content of the buffer on
  the stack before it is written.
\<close>

definition vdprintf :: "(nat \<Rightarrow> u8) \<Rightarrow> memory \<Rightarrow> u8 list \<Rightarrow> u32 \<Rightarrow> (u32 \<times> u8 list) option" where
  "vdprintf junk m fmt ap =
     Option.bind (vprintfmt m fmt ap) (\<lambda>out.
     Option.bind (foldo dputch out (\<lparr>idx = 0, pcnt = 0, pbuf = junk\<rparr>, [])) (\<lambda>(b, cons).
       if CONSOLE_BUFFER_SIZE \<le> idx b then None else
       map_option (\<lambda>s. (pcnt b, cons @ s)) (cputs ((pbuf b)(idx b := 0)) 0)))"

text \<open>The user's \<^verbatim>\<open>printf\<close> hands the buffer and its length to the system call \<^verbatim>\<open>puts\<close>.\<close>

fun uputch :: "u32 \<Rightarrow> printbuf \<times> u8 list list \<Rightarrow> (printbuf \<times> u8 list list) option" where
  "uputch ch (b, calls) =
     (if MAX_BUF \<le> idx b then None else
      let b = b\<lparr>pbuf := (pbuf b)(idx b := ucast ch), idx := idx b + 1\<rparr> in
      if idx b = MAX_BUF - 1 then
        let b = b\<lparr>pbuf := (pbuf b)(idx b := 0)\<rparr> in
        Some (b\<lparr>idx := 0, pcnt := pcnt b + 1\<rparr>, calls @ [map (pbuf b) [0..<idx b]])
      else Some (b\<lparr>pcnt := pcnt b + 1\<rparr>, calls))"

definition vcprintf :: "(nat \<Rightarrow> u8) \<Rightarrow> memory \<Rightarrow> u8 list \<Rightarrow> u32 \<Rightarrow> (u32 \<times> u8 list list) option" where
  "vcprintf junk m fmt ap =
     Option.bind (uvprintfmt m fmt ap) (\<lambda>out.
     Option.bind (foldo uputch out (\<lparr>idx = 0, pcnt = 0, pbuf = junk\<rparr>, [])) (\<lambda>(b, calls).
       if MAX_BUF \<le> idx b then None else
       Some (pcnt b, calls @ [map ((pbuf b)(idx b := 0)) [0..<idx b]])))"

text \<open>
  The variadic entry points set \<open>ap\<close> to the address after their last named parameter and call
  the routine above.
\<close>

definition sprintf :: "u32 \<Rightarrow> u8 list \<Rightarrow> u32 \<Rightarrow> memory \<Rightarrow> (u32 \<times> memory) option" where
  "sprintf bf fmt ap m = vsprintf bf fmt ap m"

definition snprintf :: "u32 \<Rightarrow> u32 \<Rightarrow> u8 list \<Rightarrow> u32 \<Rightarrow> memory \<Rightarrow> (u32 \<times> memory) option" where
  "snprintf bf n fmt ap m = vsnprintf bf n fmt ap m"

definition printfmt :: "memory \<Rightarrow> u8 list \<Rightarrow> u32 \<Rightarrow> u32 list option" where
  "printfmt m fmt ap = uvprintfmt m fmt ap"

definition dprintf :: "(nat \<Rightarrow> u8) \<Rightarrow> memory \<Rightarrow> u8 list \<Rightarrow> u32 \<Rightarrow> (u32 \<times> u8 list) option" where
  "dprintf junk m fmt ap = vdprintf junk m fmt ap"

definition printf :: "(nat \<Rightarrow> u8) \<Rightarrow> memory \<Rightarrow> u8 list \<Rightarrow> u32 \<Rightarrow> (u32 \<times> u8 list list) option" where
  "printf junk m fmt ap = vcprintf junk m fmt ap"

section \<open>Digits\<close>

function digs :: "nat \<Rightarrow> nat \<Rightarrow> nat list" where
  "digs b n = (if n < b \<or> b < 2 then [n] else digs b (n div b) @ [n mod b])"
  by pat_completeness auto
termination by (relation "measure snd") (auto intro!: div_less_dividend)

declare digs.simps [simp del]

lemma digs_less: "2 \<le> b \<Longrightarrow> d \<in> set (digs b n) \<Longrightarrow> d < b"
proof (induction b n rule: digs.induct)
  case (1 b n)
  then show ?case by (cases "n < b") (auto simp: digs.simps [of b n])
qed

lemma digs_value:
  "foldl (\<lambda>v d. v * of_nat b + of_nat d) 0 (digs b n) = (of_nat n :: 'a :: semiring_1)"
proof (induction b n rule: digs.induct)
  case (1 b n)
  show ?case
  proof (cases "n < b \<or> b < 2")
    case False
    have "of_nat (n div b) * of_nat b + of_nat (n mod b) = (of_nat n :: 'a)"
      by (metis div_mult_mod_eq of_nat_add of_nat_mult)
    then show ?thesis using 1 False by (simp add: digs.simps [of b n])
  qed (auto simp: digs.simps [of b n])
qed

lemma digs_nonempty [simp]: "digs b n \<noteq> []"
  by (simp add: digs.simps [of b n])

definition digit_char :: "nat \<Rightarrow> u32" where
  "digit_char d = ucast (hexdigits ! d)"

lemma printnum_digs:
  assumes b: "2 \<le> unat base"
  shows "printnum num base w pad =
     Some (replicate (nat (sint (w - of_nat (length (digs (unat base) (unat num)))))) pad @
           map digit_char (digs (unat base) (unat num)))"
proof (induction "unat num" arbitrary: num w rule: less_induct)
  case less
  have ub: "unat (ucast base :: u64) = unat base"
    using unat_lt2p [of base] by (simp add: unsigned_ucast_eq take_bit_nat_eq_self)
  have m: "unat (num mod ucast base) = unat num mod unat base" "unat (num div ucast base) = unat num div unat base"
    by (simp_all add: unat_mod unat_div ub)
  show ?case
  proof (cases "ucast base \<le> num")
    case True
    then have le: "unat base \<le> unat num" by (simp add: word_le_nat_alt ub)
    have "unat (num div ucast base) < unat num" using le b by (simp add: m(2))
    note IH = less [OF this, of "w - 1"]
    show ?thesis
      using True le b IH
      by (subst printnum.simps, subst (1 2) digs.simps) (simp add: m digit_char_def diff_diff_eq)
  next
    case False
    then have "unat num < unat base" by (simp add: word_le_nat_alt ub)
    then show ?thesis
      using False by (subst printnum.simps, subst (1 2) digs.simps) (simp add: m digit_char_def)
  qed
qed

lemma digs_length: "2 \<le> b \<Longrightarrow> n < 2 ^ k \<Longrightarrow> 0 < k \<Longrightarrow> length (digs b n) \<le> k"
proof (induction b n arbitrary: k rule: digs.induct)
  case (1 b n)
  show ?case
  proof (cases "n < b")
    case False
    then obtain j where j: "k = Suc j" "0 < j"
      using 1 by (cases k; cases "k - 1") auto
    have "n div b \<le> n div 2" using 1(2) by (simp add: div_le_mono2)
    also have "n div 2 < 2 ^ j" using 1(3) j(1) by (simp add: less_mult_imp_div_less)
    finally have "length (digs b (n div b)) \<le> j" using 1 False j(2) by auto
    then show ?thesis using False 1(2) j(1) by (simp add: digs.simps [of b n])
  qed (use 1 in \<open>auto simp: digs.simps [of b n]\<close>)
qed

lemma no_pad: "k \<le> 64 \<Longrightarrow> nat (sint (- 1 - of_nat k :: u32)) = 0"
proof -
  assume k: "k \<le> 64"
  have e: "(- 1 - of_nat k :: u32) = of_int (- 1 - int k)" by simp
  have "sint (- 1 - of_nat k :: u32) = - 1 - int k"
    unfolding e signed_of_int using k by (simp add: signed_take_bit_int_eq_self)
  then show ?thesis using k by simp
qed

lemma printnum_plain:
  assumes "2 \<le> unat base"
  shows "printnum num base (- 1) pad = Some (map digit_char (digs (unat base) (unat num)))"
proof -
  have "length (digs (unat base) (unat num)) \<le> 64"
    using digs_length [OF assms, of "unat num" 64] unat_lt2p [of num] by simp
  then show ?thesis by (simp add: printnum_digs [OF assms] no_pad)
qed

text \<open>The characters of \<^verbatim>\<open>%d\<close>.\<close>

definition decimal :: "int \<Rightarrow> u32 list" where
  "decimal i = (if i < 0 then 0x2D # map digit_char (digs 10 (nat (- i))) else map digit_char (digs 10 (nat i)))"

lemma scast_64:
  fixes v :: u32
  shows "sint (scast v :: u64) = sint v"
  using sint_greater_eq [of v] sint_less [of v] by (simp add: signed_scast_eq signed_take_bit_int_eq_self)

lemma unat_nonneg: "0 \<le> sint x \<Longrightarrow> unat x = nat (sint x)" for x :: u64
proof -
  assume "0 \<le> sint x"
  then have "uint x = sint x" using sint_less [of x] by (simp add: uint_sint take_bit_int_eq_self)
  then show "unat x = nat (sint x)" by (metis nat_uint_eq)
qed

lemma uvprintfmt_d:
  "vprintfmt_gen oct m [0x25, 0x64] ap = Some (decimal (sint (load32 m ap)))"
proof -
  let ?v = "load32 m ap"
  let ?n = "scast ?v :: u64"
  have b: "2 \<le> unat (10 :: u32)" by simp
  have c: "convert oct m fmtspec_init ap 0x64 = Some (decimal (sint ?v), ap + 4, True)"
  proof (cases "sint ?v < 0")
    case True
    have r: "- (2 ^ 31) \<le> sint ?v" using sint_greater_eq [of ?v] by simp
    have e: "- ?n = of_int (- sint ?v)" by (simp add: scast_eq [symmetric])
    have "sint (- ?n) = - sint ?v"
      unfolding e signed_of_int using r True by (simp add: signed_take_bit_int_eq_self)
    then have "unat (- ?n) = nat (- sint ?v)" using unat_nonneg [of "- ?n"] True by simp
    then show ?thesis
      using True printnum_plain [OF b, of "- ?n" "0x20"]
      by (simp add: convert_def getint_def va_arg32_def fmtspec_init_def scast_64 decimal_def)
  next
    case False
    then have "unat ?n = nat (sint ?v)" using unat_nonneg [of ?n] by (simp add: scast_64)
    then show ?thesis
      using False printnum_plain [OF b, of ?n "0x20"]
      by (simp add: convert_def getint_def va_arg32_def fmtspec_init_def scast_64 decimal_def)
  qed
  have "reswitch m fmtspec_init ap [0x64] = (fmtspec_init, ap, 0x64, [])" by simp
  then show ?thesis using c by simp
qed

section \<open>What the sinks hold\<close>

lemma poke_at:
  "length xs \<le> 2 ^ 32 \<Longrightarrow> poke m p xs a = (if unat (a - p) < length xs then xs ! unat (a - p) else m a)"
proof (induction xs arbitrary: m p)
  case (Cons c xs)
  have l: "length xs \<le> 2 ^ 32" using Cons.prems by simp
  show ?case
  proof (cases "a = p")
    case True
    have "unat (p - (p + 1)) = 2 ^ 32 - 1" by (simp add: unsigned_minus_1_eq_mask mask_eq_exp_minus_1)
    then show ?thesis using Cons.IH [OF l, of "m(p := c)" "p + 1"] Cons.prems True by (simp add: fun_upd_def)
  next
    case False
    then show ?thesis using Cons.IH [OF l, of "m(p := c)" "p + 1"] offset_next [OF False] by (simp add: fun_upd_def)
  qed
qed simp

lemma fold_sprint:
  assumes "unat (ebuf b) = unat (buf b) + room"
  shows "fold sprintputch out (b, m) =
     (b\<lparr>buf := buf b + of_nat (min room (length out)), cnt := cnt b + of_nat (length out)\<rparr>,
      poke m (buf b) (map ucast (take room out)))"
  using assms
proof (induction out arbitrary: b m room)
  case (Cons c out)
  show ?case
  proof (cases room)
    case 0
    then have "\<not> buf b < ebuf b" using Cons.prems by (simp add: word_less_nat_alt)
    moreover have "unat (ebuf (b\<lparr>cnt := cnt b + 1\<rparr>)) = unat (buf (b\<lparr>cnt := cnt b + 1\<rparr>)) + 0"
      using Cons.prems 0 by simp
    ultimately show ?thesis using Cons.IH [of "b\<lparr>cnt := cnt b + 1\<rparr>" 0 m] 0 by (simp add: add.assoc)
  next
    case (Suc r)
    let ?b = "b\<lparr>cnt := cnt b + 1, buf := buf b + 1\<rparr>"
    have lt: "buf b < ebuf b" using Cons.prems Suc by (simp add: word_less_nat_alt)
    have "unat (buf b + 1) = unat (buf b) + 1"
      using unat_add_exact [of "buf b" 1] unat_lt2p [of "ebuf b"] Cons.prems Suc by simp
    then have "unat (ebuf ?b) = unat (buf ?b) + r" using Cons.prems Suc by simp
    note IH = Cons.IH [OF this, of "m(buf b := ucast c)"]
    show ?thesis using IH lt Suc by (simp add: add.assoc fun_upd_def)
  qed
qed simp

lemma cputs_chars: "i \<le> j \<Longrightarrow> j < CONSOLE_BUFFER_SIZE \<Longrightarrow> b j = 0 \<Longrightarrow> (\<And>k. i \<le> k \<Longrightarrow> k < j \<Longrightarrow> b k \<noteq> 0) \<Longrightarrow>
   cputs b i = Some (map b [i..<j])"
proof (induction "j - i" arbitrary: i)
  case 0
  then show ?case by (simp add: cputs.simps [of b i])
next
  case (Suc d)
  then have "i < j" by simp
  then have "cputs b (i + 1) = Some (map b [i + 1..<j])" using Suc by (intro Suc(1)) auto
  moreover have "b i \<noteq> 0" using Suc.prems \<open>i < j\<close> by simp
  ultimately show ?case
    using Suc.prems \<open>i < j\<close> by (simp add: cputs.simps [of b i] upt_conv_Cons)
qed

text \<open>The invariant of the buffer: it holds the end of the text that is not yet written out.\<close>

definition buf_inv :: "u8 list \<Rightarrow> printbuf \<times> u8 list \<Rightarrow> bool" where
  "buf_inv sent = (\<lambda>(b, out). idx b < CONSOLE_BUFFER_SIZE - 1 \<and> out @ map (pbuf b) [0..<idx b] = sent \<and>
     pcnt b = of_nat (length sent) \<and> 0 \<notin> set sent)"

lemma buf_flush:
  assumes "idx b < CONSOLE_BUFFER_SIZE" "0 \<notin> set (map (pbuf b) [0..<idx b])"
  shows "cputs ((pbuf b)(idx b := 0)) 0 = Some (map (pbuf b) [0..<idx b])"
proof -
  have "cputs ((pbuf b)(idx b := 0)) 0 = Some (map ((pbuf b)(idx b := 0)) [0..<idx b])"
  proof (rule cputs_chars)
    show "((pbuf b)(idx b := 0)) k \<noteq> 0" if "0 \<le> k" "k < idx b" for k
      using assms(2) that by (auto simp: image_iff)
  qed (use assms in auto)
  also have "map ((pbuf b)(idx b := 0)) [0..<idx b] = map (pbuf b) [0..<idx b]" by simp
  finally show ?thesis .
qed

lemma dputch_inv:
  assumes inv: "buf_inv sent s" and c: "(ucast c :: u8) \<noteq> 0"
  obtains s' where "dputch c s = Some s'" "buf_inv (sent @ [ucast c]) s'"
proof -
  obtain b out where s: "s = (b, out)" by (cases s)
  let ?b = "b\<lparr>pbuf := (pbuf b)(idx b := ucast c), idx := idx b + 1\<rparr>"
  have i: "idx b < CONSOLE_BUFFER_SIZE - 1" "out @ map (pbuf b) [0..<idx b] = sent"
    "pcnt b = of_nat (length sent)" "0 \<notin> set sent"
    using inv by (auto simp: buf_inv_def s)
  have m: "map (pbuf ?b) [0..<idx ?b] = map (pbuf b) [0..<idx b] @ [ucast c]" by simp
  then have sent: "out @ map (pbuf ?b) [0..<idx ?b] = sent @ [ucast c]" using i(2) by simp
  show thesis
  proof (cases "idx b + 1 = CONSOLE_BUFFER_SIZE - 1")
    case True
    have "cputs ((pbuf ?b)(idx ?b := 0)) 0 = Some (map (pbuf ?b) [0..<idx ?b])"
      using i sent c by (intro buf_flush) (use i(1) in simp, use i(4) i(2) c m in auto)
    then show thesis
      using that [of "(?b\<lparr>pbuf := (pbuf ?b)(idx ?b := 0), idx := 0, pcnt := pcnt b + 1\<rparr>, sent @ [ucast c])"] i c sent True
      by (simp add: s buf_inv_def Let_def CONSOLE_BUFFER_SIZE_def)
  next
    case False
    then show thesis
      using that [of "(?b\<lparr>pcnt := pcnt b + 1\<rparr>, out)"] i c sent
      by (simp add: s buf_inv_def Let_def)
  qed
qed

lemma foldo_dputch:
  "buf_inv sent s \<Longrightarrow> \<forall>c \<in> set out. (ucast c :: u8) \<noteq> 0 \<Longrightarrow>
   \<exists>s'. foldo dputch out s = Some s' \<and> buf_inv (sent @ map ucast out) s'"
proof (induction out arbitrary: sent s)
  case (Cons c out)
  obtain s' where s': "dputch c s = Some s'" "buf_inv (sent @ [ucast c]) s'"
    using dputch_inv [OF Cons.prems(1), of c] Cons.prems(2) by auto
  then show ?case using Cons.IH [OF s'(2)] Cons.prems(2) by simp
qed simp

section \<open>Properties\<close>

lemma vsprintf_out:
  assumes "uvprintfmt m fmt ap = Some out" "unat bf + length out < 2 ^ 32"
  shows "vsprintf bf fmt ap m =
     Some (of_nat (length out), (poke m bf (map ucast out))(bf + of_nat (length out) := 0))"
proof -
  have "unat (-1 :: u32) = 2 ^ 32 - 1" by (simp add: unsigned_minus_1_eq_mask mask_eq_exp_minus_1)
  then have r: "unat (-1 :: u32) = unat bf + (2 ^ 32 - 1 - unat bf)" using assms(2) by simp
  have l: "min (2 ^ 32 - 1 - unat bf) (length out) = length out" "take (2 ^ 32 - 1 - unat bf) out = out"
    using assms(2) by simp_all
  show ?thesis
    using fold_sprint [of "\<lparr>buf = bf, ebuf = -1, cnt = 0\<rparr>" "2 ^ 32 - 1 - unat bf" out m] r
    unfolding l by (simp add: vsprintf_def assms(1) sprint_end_def)
qed

lemma poke_cstr:
  assumes "length xs < 2 ^ 32" "0 \<notin> set xs"
  shows "cstr ((poke m p xs)(p + of_nat (length xs) := 0)) p xs"
proof (rule cstrI)
  fix k assume k: "k < length xs"
  have u: "unat (of_nat k :: u32) = k" "unat (of_nat (length xs) :: u32) = length xs"
    using k assms(1) by (simp_all add: unat_of_nat)
  then have "(of_nat k :: u32) \<noteq> of_nat (length xs)" using k arg_cong [of "of_nat k" "of_nat (length xs)" unat] by auto
  then show "((poke m p xs)(p + of_nat (length xs) := 0)) (p + of_nat k) = xs ! k"
    using poke_at [of xs m p "p + of_nat k"] assms(1) u k by simp
qed (use assms in auto)

lemma digit_byte:
  assumes "d < 10"
  shows "0x30 \<le> (ucast (digit_char d) :: u8) \<and> (ucast (digit_char d) :: u8) \<le> 0x39 \<and>
    (ucast (ucast (digit_char d) :: u8) :: u32) - 0x30 = of_nat d \<and> (ucast (digit_char d) :: u8) \<noteq> 0"
proof -
  have "d \<in> {0, 1, 2, 3, 4, 5, 6, 7, 8, 9}" using assms by auto
  then show ?thesis by (elim insertE emptyE) (simp_all add: digit_char_def hexdigits_def)
qed

lemma atoi_digits:
  "\<forall>d \<in> set ds. d < 10 \<Longrightarrow>
   foldl (\<lambda>v c. v * 10 + (ucast c - 0x30)) (acc :: u32) (map (\<lambda>d. ucast (digit_char d) :: u8) ds) =
   foldl (\<lambda>v d. v * of_nat 10 + of_nat d) acc ds"
  by (induction ds arbitrary: acc) (simp_all add: digit_byte)

lemma digs_10: "d \<in> set (digs 10 n) \<Longrightarrow> d < 10"
  using digs_less [of 10 d n] by simp

lemma decimal_length: "nat \<bar>i\<bar> < 2 ^ 32 \<Longrightarrow> length (decimal i) \<le> 33"
  using digs_length [of 10 "nat \<bar>i\<bar>" 32] by (auto simp: decimal_def)

lemma atoi_decimal:
  assumes c: "cstr m bf (map ucast (decimal i))" and i: "nat \<bar>i\<bar> < 2 ^ 32"
  shows "atoi m bf = Some (of_nat (length (decimal i)), Some (of_int i))"
proof -
  define ds where "ds = digs 10 (nat \<bar>i\<bar>)"
  define xs where "xs = map (\<lambda>d. ucast (digit_char d) :: u8) ds"
  have d: "\<forall>d \<in> set ds. d < 10" using digs_10 by (auto simp: ds_def)
  have xs: "\<forall>c \<in> set xs. 0x30 \<le> c \<and> c \<le> 0x39" using d digit_byte by (auto simp: xs_def)
  have val: "foldl (\<lambda>v c. v * 10 + (ucast c - 0x30)) (0 :: u32) xs = of_nat (nat \<bar>i\<bar>)"
    using atoi_digits [OF d, of 0] digs_value [of 10 "nat \<bar>i\<bar>", where 'a = u32] by (simp add: xs_def ds_def)
  have len: "0 < length xs" "length xs \<le> 32"
    using digs_length [of 10 "nat \<bar>i\<bar>" 32] i by (simp_all add: xs_def ds_def)
  have ne: "(of_nat (length xs) :: u32) \<noteq> 0" "1 + (of_nat (length xs) :: u32) \<noteq> 1"
    using len by (auto simp: word_of_nat_eq_0_iff dest: dvd_imp_le)
  show ?thesis
  proof (cases "i < 0")
    case True
    then have dec: "decimal i = 0x2D # map digit_char ds" by (simp add: decimal_def ds_def)
    have "m bf = 0x2D" "cstr m (bf + 1) xs" using c by (simp_all add: dec xs_def o_def)
    then show ?thesis
      using atoi_loop_cstr [OF xs, of m bf 1 0] val ne True by (simp add: atoi_def dec xs_def)
  next
    case False
    then have dec: "decimal i = map digit_char ds" by (simp add: decimal_def ds_def)
    have cx: "cstr m (bf + 0) xs" using c by (simp add: dec xs_def o_def)
    obtain x ys where x: "xs = x # ys" using len(1) by (cases xs) auto
    have "m bf = x" "0x30 \<le> x" using cx xs by (simp_all add: x)
    then have "m bf \<noteq> 0x2B" "m bf \<noteq> 0x2D" by auto
    then show ?thesis
      using atoi_loop_cstr [OF xs cx, of 0] val ne False by (simp add: atoi_def dec xs_def)
  qed
qed


text \<open>
  C22. \<^verbatim>\<open>vsnprintf\<close> with a buffer of \<open>n > 0\<close> bytes that does not wrap around the address space
  writes inside the buffer only, leaves the first \<open>n - 1\<close> characters of the formatted string
  and a terminator there, and returns the length of the whole string.
\<close>

theorem vsnprintf_bounded:
  assumes "uvprintfmt m fmt ap = Some out" "0 < n" "unat bf + unat n < 2 ^ 32"
  shows "\<exists>m'. vsnprintf bf n fmt ap m = Some (of_nat (length out), m') \<and>
     (\<forall>a. unat n \<le> unat (a - bf) \<longrightarrow> m' a = m a) \<and>
     (\<forall>k < min (unat n - 1) (length out). m' (bf + of_nat k) = ucast (out ! k)) \<and>
     m' (bf + of_nat (min (unat n - 1) (length out))) = 0"
proof -
  define r where "r = unat n - 1"
  define e where "e = min r (length out)"
  have n: "0 < unat n" using assms(2) by (simp add: unat_gt_0 word_gt_0)
  have sum: "unat (bf + n) = unat bf + unat n" using assms(3) by (intro unat_add_exact) simp
  have "bf + n \<noteq> 0" using sum n by auto
  then have "unat (bf + n - 1) = unat bf + r" using sum n unat_minus_one [of "bf + n"] by (simp add: r_def)
  then have f: "vsnprintf bf n fmt ap m =
      Some (of_nat (length out), (poke m bf (map ucast (take r out)))(bf + of_nat e := 0))"
    using fold_sprint [of "\<lparr>buf = bf, ebuf = bf + n - 1, cnt = 0\<rparr>" r out m]
    by (simp add: vsnprintf_def assms(1) sprint_end_def e_def)
  have e: "e < unat n" "e \<le> length (take r out)" using n by (auto simp: e_def r_def)
  have small: "unat (of_nat k :: u32) = k" if "k \<le> e" for k
    using that e(1) unat_lt2p [of n] by (simp add: unat_of_nat)
  have le: "length (map ucast (take r out) :: u8 list) = e" by (simp add: e_def)
  have pk: "poke m bf (map ucast (take r out)) a = (if unat (a - bf) < e then ucast (out ! unat (a - bf)) else m a)" for a
    using poke_at [of "map ucast (take r out)" m bf a] e(1) unat_lt2p [of n] unfolding le
    by (simp add: e_def)
  have out: "unat (a - bf) = e" if "a = bf + of_nat e" for a using that small by simp
  have ne: "bf + of_nat k \<noteq> bf + (of_nat e :: u32)" if "k < e" for k
    using small [of k] small [of e] that by (metis add_left_imp_eq less_irrefl order_refl less_imp_le)
  show ?thesis
    unfolding r_def [symmetric] e_def [symmetric]
    using f pk out e(1) small ne by (intro exI [of _ "(poke m bf (map ucast (take r out)))(bf + of_nat e := 0)"]) auto
qed

text \<open>
  C23. When no formatted character is the zero byte, \<^verbatim>\<open>vdprintf\<close> sends exactly the formatted
  string to the console, in order, and returns its length, whatever the buffer on the stack
  held: no character is lost or repeated where the buffer of 512 bytes fills up, and no
  access is outside it.
\<close>

theorem vdprintf_correct:
  assumes "vprintfmt m fmt ap = Some out" "\<forall>c \<in> set out. (ucast c :: u8) \<noteq> 0"
  shows "vdprintf junk m fmt ap = Some (of_nat (length out), map ucast out)"
proof -
  have "buf_inv [] (\<lparr>idx = 0, pcnt = 0, pbuf = junk\<rparr>, [])"
    by (simp add: buf_inv_def CONSOLE_BUFFER_SIZE_def)
  from foldo_dputch [OF this assms(2)] obtain b cons where
    b: "foldo dputch out (\<lparr>idx = 0, pcnt = 0, pbuf = junk\<rparr>, []) = Some (b, cons)"
    "buf_inv (map ucast out) (b, cons)" by auto
  have i: "idx b < CONSOLE_BUFFER_SIZE" "cons @ map (pbuf b) [0..<idx b] = map ucast out"
    "pcnt b = of_nat (length out)" "0 \<notin> set (map ucast out :: u8 list)"
    using b(2) by (auto simp: buf_inv_def CONSOLE_BUFFER_SIZE_def)
  have "set (map (pbuf b) [0..<idx b]) \<subseteq> set (map ucast out :: u8 list)"
    unfolding i(2) [symmetric] by simp
  then have "cputs ((pbuf b)(idx b := 0)) 0 = Some (map (pbuf b) [0..<idx b])"
    using i(4) by (intro buf_flush i(1)) blast
  then show ?thesis using assms(1) b(1) i by (simp add: vdprintf_def)
qed

section \<open>Concrete output\<close>

text \<open>The word at \<^verbatim>\<open>0x1000\<close> is \<open>-42\<close>.\<close>

definition arg_minus_42 :: memory where
  "arg_minus_42 = (\<lambda>_. 0)(0x1000 := 0xD6, 0x1001 := 0xFF, 0x1002 := 0xFF, 0x1003 := 0xFF)"


theorem vsnprintf_bounded_witness:
  "\<exists>m'. vsnprintf 0x2000 2 [0x68, 0x69] 0x1000 arg_minus_42 = Some (2, m') \<and> m' 0x2000 = 0x68 \<and> m' 0x2001 = 0"
proof -
  have "uvprintfmt arg_minus_42 [0x68, 0x69] 0x1000 = Some [0x68, 0x69]" by (simp add: uvprintfmt_def)
  from vsnprintf_bounded [OF this, of 2 "0x2000"] show ?thesis by auto
qed

theorem vdprintf_correct_witness:
  "vdprintf (\<lambda>_. 0) arg_minus_42 [0x68, 0x69] 0x1000 = Some (2, [0x68, 0x69])"
proof -
  have "vprintfmt arg_minus_42 [0x68, 0x69] 0x1000 = Some [0x68, 0x69]" by (simp add: vprintfmt_def)
  from vdprintf_correct [OF this, of "\<lambda>_. 0"] show ?thesis by simp
qed

end
