(* ===== verification/Spec2Isabelle.thy ===== *)
theory Spec2Isabelle
  imports SysFile InodeData Ipc Printf
begin

text \<open>
  Verification of the mCertiKOS kernel.
\<close>

end
